(* ===== verification/Prelude.thy ===== *)
theory Prelude
  imports Main "HOL-Library.Word"
begin

unbundle bit_operations_syntax

text \<open>
  Shared vocabulary of the development: bytes, the ways the C++ code can fail, the sequencing of
  fallible operations and what they may end in (\<open>outcome\<close>), arithmetic on \<open>size_t\<close> with its wrap-around,
  reads and writes of raw storage at an index, and the interface of a bounded queue.

  A failure of the code is a value: \<open>Inl e\<close> with \<open>e\<close> one of the constructors below. Undefined
  behaviour (an access outside the storage, a dangling or a null pointer) is such a value too, so
  that no model equation ever continues past it.
\<close>

type_synonym byte = "8 word"

datatype cpp_error =
    OutOfBounds
  | LengthError
  | BadFunctionCall
  | FatalExit
  | DanglingPointer
  | NullPointer
  | MissingReturn
  | SignedOverflow

type_synonym 'a res = "cpp_error + 'a"

named_theorems size_arith \<open>unfolding of the size_t operations\<close>
named_theorems res_iff \<open>inversion of successful computations\<close>

section \<open>Sequencing of fallible operations\<close>

definition bind_res :: "'a res \<Rightarrow> ('a \<Rightarrow> 'b res) \<Rightarrow> 'b res" where
  "bind_res m f = (case m of Inl e \<Rightarrow> Inl e | Inr x \<Rightarrow> f x)"

lemma bind_res_simps [simp]:
  "bind_res (Inl e) f = Inl e"
  "bind_res (Inr x) f = f x"
  by (simp_all add: bind_res_def)

lemma bind_res_Inr_iff [res_iff]:
  "bind_res m f = Inr y \<longleftrightarrow> (\<exists>x. m = Inr x \<and> f x = Inr y)"
  by (cases m) simp_all

lemma bind_res_Inl_iff:
  "bind_res m f = Inl e \<longleftrightarrow> m = Inl e \<or> (\<exists>x. m = Inr x \<and> f x = Inl e)"
  by (cases m) auto

lemma bind_res_assoc: "bind_res (bind_res m f) g = bind_res m (\<lambda>x. bind_res (f x) g)"
  by (cases m) simp_all

lemma bind_res_Inr_right [simp]: "bind_res m Inr = m"
  by (cases m) simp_all

lemma bind_res_cong [fundef_cong]:
  assumes "m = m'" and "\<And>x. m' = Inr x \<Longrightarrow> f x = g x"
  shows "bind_res m f = bind_res m' g"
  using assms by (cases m') simp_all

lemma if_Inr_iff [res_iff]:
  "(if b then Inr x else Inl e) = Inr y \<longleftrightarrow> b \<and> x = y"
  "(if b then Inl e else Inr x) = Inr y \<longleftrightarrow> \<not> b \<and> x = y"
  by auto

text \<open>A C++ range-for whose body may fail: the elements in order, stopping at the first failure.\<close>

fun fold_res :: "('a \<Rightarrow> 's \<Rightarrow> 's res) \<Rightarrow> 'a list \<Rightarrow> 's \<Rightarrow> 's res" where
  "fold_res f [] s = Inr s"
| "fold_res f (x # xs) s = bind_res (f x s) (fold_res f xs)"

lemma fold_res_Nil [simp]: "fold_res f [] = Inr"
  by (simp add: fun_eq_iff)

lemma fold_res_single [simp]: "fold_res f [x] = f x"
  by (simp add: fun_eq_iff)

lemma fold_res_append:
  "fold_res f (xs @ ys) s = bind_res (fold_res f xs s) (fold_res f ys)"
proof (induction xs arbitrary: s)
  case (Cons x xs)
  then show ?case by (cases "f x s") simp_all
qed simp

lemma fold_res_invariant:
  assumes "fold_res f xs s = Inr s'"
    and "P s"
    and "\<And>x s s'. x \<in> set xs \<Longrightarrow> P s \<Longrightarrow> f x s = Inr s' \<Longrightarrow> P s'"
  shows "P s'"
  using assms by (induction xs arbitrary: s) (auto simp: res_iff)

text \<open>What an operation may end in: \<open>outcome ok P r\<close> says that \<open>r\<close> is a failure allowed by \<open>ok\<close>, or a
  result that satisfies \<open>P\<close>.\<close>

definition outcome :: "(cpp_error \<Rightarrow> bool) \<Rightarrow> ('a \<Rightarrow> bool) \<Rightarrow> 'a res \<Rightarrow> bool" where
  "outcome ok P r \<longleftrightarrow> (case r of Inl e \<Rightarrow> ok e | Inr x \<Rightarrow> P x)"

lemma outcome_simps [simp]:
  "outcome ok P (Inr x) \<longleftrightarrow> P x" "outcome ok P (Inl e) \<longleftrightarrow> ok e"
  by (simp_all add: outcome_def)

lemma outcome_Inr: "outcome ok P r \<Longrightarrow> r = Inr x \<Longrightarrow> P x"
  by simp

lemma outcome_mono: "outcome ok P r \<Longrightarrow> (\<And>x. r = Inr x \<Longrightarrow> P x \<Longrightarrow> Q x) \<Longrightarrow> outcome ok Q r"
  by (cases r) simp_all

lemma outcome_conj: "outcome ok P r \<Longrightarrow> (\<And>x. r = Inr x \<Longrightarrow> Q x) \<Longrightarrow> outcome ok (\<lambda>x. P x \<and> Q x) r"
  by (cases r) simp_all

lemma outcome_both: "outcome ok P r \<Longrightarrow> outcome ok' Q r \<Longrightarrow> outcome (\<lambda>e. ok e \<and> ok' e) (\<lambda>x. P x \<and> Q x) r"
  by (cases r) simp_all

lemma outcome_bind:
  "outcome ok P m \<Longrightarrow> (\<And>x. m = Inr x \<Longrightarrow> P x \<Longrightarrow> outcome ok Q (f x)) \<Longrightarrow> outcome ok Q (bind_res m f)"
  by (cases m) simp_all

lemma outcome_fold:
  assumes "I xs s" and "\<And>x xs s. I (x # xs) s \<Longrightarrow> outcome ok (I xs) (f x s)"
  shows "outcome ok (I []) (fold_res f xs s)"
  using assms(1)
proof (induction xs arbitrary: s)
  case (Cons x xs)
  show ?case
    unfolding fold_res.simps
    by (rule outcome_bind [OF assms(2) [OF Cons.prems]]) (rule Cons.IH)
qed simp

section \<open>size_t\<close>

text \<open>
  A \<open>size_t\<close> is a natural number below \<open>2^64\<close>; addition and subtraction wrap around, as they do
  on the unsigned type. \<open>vec_max\<close> is \<open>std::vector<char>::max_size()\<close>, the largest \<open>ptrdiff_t\<close>.
\<close>

definition size_mod :: nat where
  "size_mod = 18446744073709551616"

definition vec_max :: nat where
  "vec_max = 9223372036854775807"

definition size_add :: "nat \<Rightarrow> nat \<Rightarrow> nat" where
  "size_add a b = (a + b) mod size_mod"

definition size_sub :: "nat \<Rightarrow> nat \<Rightarrow> nat" where
  "size_sub a b = (if b \<le> a then a - b else a + size_mod - b)"

lemma size_mod_eq: "size_mod = 2 ^ 64"
  by (simp add: size_mod_def)

lemma size_add_exact [size_arith]: "a + b < size_mod \<Longrightarrow> size_add a b = a + b"
  by (simp add: size_add_def)

lemma size_sub_exact [size_arith]: "b \<le> a \<Longrightarrow> size_sub a b = a - b"
  by (simp add: size_sub_def)

lemma vec_max_lt_size_mod: "2 * vec_max < size_mod"
  by (simp add: vec_max_def size_mod_def)

lemma size_add_vec [size_arith]: "a \<le> vec_max \<Longrightarrow> b \<le> vec_max \<Longrightarrow> size_add a b = a + b"
  using vec_max_lt_size_mod by (simp add: size_add_exact)

lemma size_add_0 [simp]: "a < size_mod \<Longrightarrow> size_add a 0 = a"
  by (simp add: size_add_def)

lemma size_sub_self [simp]: "size_sub a a = 0"
  by (simp add: size_sub_def)

text \<open>The wrap-around agrees with the 64-bit machine word.\<close>

lemma size_add_word:
  "unat (word_of_nat a + word_of_nat b :: 64 word) = size_add (a mod size_mod) (b mod size_mod)"
  by (simp add: size_add_def size_mod_eq unat_word_ariths unat_of_nat)

section \<open>Raw storage\<close>

text \<open>
  The storage of a \<open>std::vector<char>\<close> is the byte list of length \<open>capacity()\<close>. Copying a range
  in or out of it is defined within the storage only.
\<close>

definition bytes_write :: "nat \<Rightarrow> byte list \<Rightarrow> byte list \<Rightarrow> byte list res" where
  "bytes_write pos d m =
     (if pos + length d \<le> length m
      then Inr (take pos m @ d @ drop (pos + length d) m)
      else Inl OutOfBounds)"

definition bytes_read :: "nat \<Rightarrow> nat \<Rightarrow> byte list \<Rightarrow> byte list res" where
  "bytes_read pos n m =
     (if pos + n \<le> length m then Inr (take n (drop pos m)) else Inl OutOfBounds)"

lemma bytes_write_length: "bytes_write pos d m = Inr m' \<Longrightarrow> length m' = length m"
  by (auto simp: bytes_write_def split: if_splits)

lemma bytes_read_length: "bytes_read pos n m = Inr d \<Longrightarrow> length d = n"
  by (auto simp: bytes_read_def split: if_splits)

lemma bytes_read_write:
  assumes "bytes_write pos d m = Inr m'"
  shows "bytes_read pos (length d) m' = Inr d"
  using assms by (auto simp: bytes_write_def bytes_read_def split: if_splits)

lemma bytes_write_ok: "pos + length d \<le> length m \<Longrightarrow>
    bytes_write pos d m = Inr (take pos m @ d @ drop (pos + length d) m)"
  by (simp add: bytes_write_def)

lemma bytes_read_ok: "pos + n \<le> length m \<Longrightarrow> bytes_read pos n m = Inr (take n (drop pos m))"
  by (simp add: bytes_read_def)

lemma replicate_numeral_Cons [simp]:
  "replicate (numeral k) x = x # replicate (pred_numeral k) x"
  by (simp add: numeral_eq_Suc)

lemma take_drop_before_write:
  assumes "r \<le> w" and "w \<le> length m"
  shows "take (w + length d - r) (drop r (take w m @ d @ rest)) = take (w - r) (drop r m) @ d"
proof -
  have "drop r (take w m @ d @ rest) = take (w - r) (drop r m) @ d @ rest"
    using assms by (simp add: drop_take)
  then show ?thesis using assms by simp
qed

section \<open>A bounded queue of bytes\<close>

text \<open>
  What a user of a byte buffer relies on: while the bytes stored stay within the capacity, a put
  appends, a get removes from the front, and neither changes the capacity. \<open>spec_ops\<close> is the
  abstract queue, \<open>spec_within\<close> says that a sequence of operations stays within a capacity.
\<close>

datatype fifo_op = PutOp "byte list" | GetOp nat

fun run_ops ::
  "(byte list \<Rightarrow> 'q \<Rightarrow> 'q res) \<Rightarrow> (nat \<Rightarrow> 'q \<Rightarrow> (byte list \<times> 'q) res) \<Rightarrow>
   fifo_op list \<Rightarrow> 'q \<Rightarrow> (byte list list \<times> 'q) res" where
  "run_ops put get [] q = Inr ([], q)"
| "run_ops put get (PutOp d # ops) q = bind_res (put d q) (run_ops put get ops)"
| "run_ops put get (GetOp n # ops) q =
     bind_res (get n q) (\<lambda>(d, q'). bind_res (run_ops put get ops q') (\<lambda>(ds, q''). Inr (d # ds, q'')))"

fun spec_ops :: "fifo_op list \<Rightarrow> byte list \<Rightarrow> byte list list \<times> byte list" where
  "spec_ops [] c = ([], c)"
| "spec_ops (PutOp d # ops) c = spec_ops ops (c @ d)"
| "spec_ops (GetOp n # ops) c =
     (case spec_ops ops (drop n c) of (ds, c') \<Rightarrow> (take n c # ds, c'))"

fun spec_within :: "nat \<Rightarrow> fifo_op list \<Rightarrow> byte list \<Rightarrow> bool" where
  "spec_within k [] c = True"
| "spec_within k (PutOp d # ops) c \<longleftrightarrow> length c + length d \<le> k \<and> spec_within k ops (c @ d)"
| "spec_within k (GetOp n # ops) c \<longleftrightarrow> n \<le> length c \<and> spec_within k ops (drop n c)"

text \<open>The abstract queue neither loses, nor invents, nor reorders a byte.\<close>

fun puts_of :: "fifo_op list \<Rightarrow> byte list" where
  "puts_of [] = []"
| "puts_of (PutOp d # ops) = d @ puts_of ops"
| "puts_of (GetOp n # ops) = puts_of ops"

lemma spec_ops_stream:
  "concat (fst (spec_ops ops c)) @ snd (spec_ops ops c) = c @ puts_of ops"
proof (induction ops c rule: spec_ops.induct)
  case (3 n ops c)
  then show ?case by (auto split: prod.splits)
qed simp_all

locale bounded_fifo =
  fixes put :: "byte list \<Rightarrow> 'q \<Rightarrow> 'q res"
    and get :: "nat \<Rightarrow> 'q \<Rightarrow> (byte list \<times> 'q) res"
    and cont :: "'q \<Rightarrow> byte list"
    and inv :: "'q \<Rightarrow> bool"
    and cap :: "'q \<Rightarrow> nat"
  assumes put_law: "inv q \<Longrightarrow> length (cont q) + length d \<le> cap q \<Longrightarrow>
      \<exists>q'. put d q = Inr q' \<and> inv q' \<and> cont q' = cont q @ d \<and> cap q' = cap q"
    and get_law: "inv q \<Longrightarrow> n \<le> length (cont q) \<Longrightarrow>
      \<exists>q'. get n q = Inr (take n (cont q), q') \<and> inv q' \<and> cont q' = drop n (cont q) \<and> cap q' = cap q"

context bounded_fifo begin

lemma run_refines_spec:
  "inv q \<Longrightarrow> spec_within (cap q) ops (cont q) \<Longrightarrow>
    \<exists>q'. run_ops put get ops q = Inr (fst (spec_ops ops (cont q)), q')
      \<and> cont q' = snd (spec_ops ops (cont q)) \<and> inv q' \<and> cap q' = cap q"
proof (induction ops arbitrary: q)
  case (Cons x ops)
  show ?case
  proof (cases x)
    case (PutOp d)
    then obtain q1 where "put d q = Inr q1" "inv q1" "cont q1 = cont q @ d" "cap q1 = cap q"
      using Cons.prems put_law by auto
    then show ?thesis using Cons.IH [of q1] Cons.prems PutOp by auto
  next
    case (GetOp n)
    then obtain q1 where "get n q = Inr (take n (cont q), q1)" "inv q1"
        "cont q1 = drop n (cont q)" "cap q1 = cap q"
      using Cons.prems get_law by auto
    then show ?thesis using Cons.IH [of q1] Cons.prems GetOp by (auto split: prod.splits)
  qed
qed simp

lemma run_stream:
  assumes "inv q" and "spec_within (cap q) ops (cont q)"
  shows "\<exists>out q'. run_ops put get ops q = Inr (out, q') \<and> concat out @ cont q' = cont q @ puts_of ops"
  using run_refines_spec [OF assms] spec_ops_stream [of ops "cont q"] by auto

end

end
