(* ===== verification/Format.thy ===== *)
theory Format
  imports Prelude
begin

text \<open>
  The \<open>printf\<close> conversions the code uses (\<open>%d\<close>, \<open>%u\<close>, \<open>%s\<close>, padded widths) and the truncation of
  \<open>snprintf\<close>, with the facts the users of the printed names need: printing is injective, its
  characters are digits, and its length is bounded.
\<close>

section \<open>Decimal numbers\<close>

definition digit :: "nat \<Rightarrow> char" where
  "digit d = char_of (48 + d)"

fun show_nat :: "nat \<Rightarrow> string" where
  "show_nat n = (if n < 10 then [digit n] else show_nat (n div 10) @ [digit (n mod 10)])"

declare show_nat.simps [simp del]

definition show_int :: "int \<Rightarrow> string" where
  "show_int i = (if i < 0 then CHR ''-'' # show_nat (nat (- i)) else show_nat (nat i))"

definition digit_chars :: "char set" where
  "digit_chars = {c. 48 \<le> (of_char c :: nat) \<and> (of_char c :: nat) < 58}"

definition value_of :: "string \<Rightarrow> nat" where
  "value_of = foldl (\<lambda>v c. v * 10 + (of_char c - 48)) 0"

lemma of_char_digit: "d < 10 \<Longrightarrow> (of_char (digit d) :: nat) = 48 + d"
  by (simp add: digit_def)

lemma show_nat_digits: "set (show_nat n) \<subseteq> digit_chars"
proof (induction n rule: show_nat.induct)
  case (1 n)
  then show ?case
    by (subst show_nat.simps) (auto simp: digit_chars_def of_char_digit)
qed

lemma show_nat_nonempty [simp]: "show_nat n \<noteq> []"
  by (subst show_nat.simps) simp

lemma value_of_show_nat [simp]: "value_of (show_nat n) = n"
proof (induction n rule: show_nat.induct)
  case (1 n)
  then show ?case
    by (subst show_nat.simps) (simp add: value_of_def of_char_digit)
qed

lemma show_nat_inject [simp]: "show_nat m = show_nat n \<longleftrightarrow> m = n"
  by (metis value_of_show_nat)

lemma show_nat_length:
  "n < 10 ^ k \<Longrightarrow> 0 < k \<Longrightarrow> length (show_nat n) \<le> k"
proof (induction n arbitrary: k rule: show_nat.induct)
  case (1 n)
  show ?case
  proof (cases "n < 10")
    case True
    with 1 show ?thesis by (subst show_nat.simps) simp
  next
    case False
    then obtain j where j: "k = Suc j" "0 < j"
      using 1(2,3) by (cases k; cases "k - 1") auto
    have "n div 10 < 10 ^ j"
      using 1(2) j by (simp add: less_mult_imp_div_less mult.commute)
    with 1(1) [OF False] j have "length (show_nat (n div 10)) \<le> j" by simp
    then show ?thesis using False j by (subst show_nat.simps) simp
  qed
qed

lemma show_nat_not_in: "c \<notin> digit_chars \<Longrightarrow> c \<notin> set (show_nat n)"
  using show_nat_digits by blast

lemma not_digit_chars [simp]:
  "CHR ''.'' \<notin> digit_chars" "CHR '':'' \<notin> digit_chars" "CHR ''#'' \<notin> digit_chars"
  "CHR ''-'' \<notin> digit_chars"
  by (simp_all add: digit_chars_def)

lemma show_int_inject [simp]: "show_int i = show_int j \<longleftrightarrow> i = j"
proof
  assume eq: "show_int i = show_int j"
  have neg: "show_nat n \<noteq> CHR ''-'' # xs" for n xs
    using show_nat_not_in [of "CHR ''-''" n] by auto
  show "i = j"
    using eq neg neg [symmetric] by (auto simp: show_int_def split: if_splits)
qed simp

lemma show_int_length:
  assumes "- (10 ^ k) < i" and "i < 10 ^ k" and "0 < k"
  shows "length (show_int i) \<le> Suc k"
proof -
  have "nat (- i) < 10 ^ k" if "i < 0"
    using assms(1) that by (simp add: nat_less_iff)
  moreover have "nat i < 10 ^ k" if "0 \<le> i"
    using assms(2) that by (simp add: nat_less_iff)
  ultimately show ?thesis
    using show_nat_length [of "nat (- i)" k] show_nat_length [of "nat i" k] assms(3)
    by (cases "i < 0") (simp_all add: show_int_def)
qed

section \<open>Separators\<close>

text \<open>Two strings joined by a separator that neither first part contains are equal part by part.\<close>

lemma append_sep_inject:
  assumes "c \<notin> set xs" and "c \<notin> set ys"
  shows "xs @ c # us = ys @ c # vs \<longleftrightarrow> xs = ys \<and> us = vs"
  using assms
proof (induction xs arbitrary: ys)
  case Nil
  then show ?case by (cases ys) auto
next
  case (Cons x xs)
  then show ?case by (cases ys) auto
qed

lemma append_sep_inject_last:
  assumes "c \<notin> set us" and "c \<notin> set vs"
  shows "xs @ c # us = ys @ c # vs \<longleftrightarrow> xs = ys \<and> us = vs"
proof -
  have "xs @ c # us = ys @ c # vs \<longleftrightarrow> rev us @ c # rev xs = rev vs @ c # rev ys"
    by (metis append.assoc append_Cons append_Nil rev.simps(2) rev_append rev_rev_ident)
  then show ?thesis
    using assms append_sep_inject [of c "rev us" "rev vs"] by auto
qed

section \<open>Padding and truncation\<close>

definition pad :: "char \<Rightarrow> nat \<Rightarrow> string \<Rightarrow> string" where
  "pad c w s = replicate (w - length s) c @ s"

text \<open>\<open>snprintf(buf, size, ...)\<close> stores the first \<open>size - 1\<close> characters of the formatted text.\<close>

definition snprintf_text :: "nat \<Rightarrow> string \<Rightarrow> string" where
  "snprintf_text n s = take (n - 1) s"

lemma snprintf_text_fits [simp]: "length s < n \<Longrightarrow> snprintf_text n s = s"
  by (simp add: snprintf_text_def)

text \<open>\<open>sprintf(buf + at, ...)\<close> into an array of \<open>n\<close> characters: the text and its terminating NUL
  must fit behind position \<open>at\<close>.\<close>

definition sprintf_at :: "nat \<Rightarrow> string \<Rightarrow> string \<Rightarrow> string res" where
  "sprintf_at n buf s = (if length buf + length s < n then Inr (buf @ s) else Inl OutOfBounds)"

end
