(* ===== verification/Buffer.thy ===== *)
theory Buffer
  imports Prelude
begin

text \<open>
  The class \<open>Buffer\<close> (\<open>src/buffer.h\<close>, \<open>src/buffer.cc\<close>): a \<open>std::vector<char>\<close> with a read and a
  write index. The vector is modelled by its storage \<open>mem\<close>, whose length is \<open>capacity()\<close>, and by
  \<open>vsize\<close>, its \<open>size()\<close>. The code measures free space with \<open>capacity()\<close> and grows with
  \<open>resize()\<close>, and the two differ as soon as the library over-allocates, so both are kept.

  The growth policy of the standard library (how far \<open>resize\<close> over-allocates) and the bytes of
  storage that was never written are parameters, the record \<open>alloc\<close>; every lemma holds for all of
  them. \<open>libstdcxx\<close> is the doubling policy of GCC's library.
\<close>

section \<open>The vector\<close>

record alloc =
  grow :: "nat \<Rightarrow> nat \<Rightarrow> nat"
  junk :: "nat \<Rightarrow> byte"

definition libstdcxx :: alloc where
  "libstdcxx = \<lparr>grow = (\<lambda>old n. old + max old (n - old)), junk = (\<lambda>_. 0)\<rparr>"

record buffer =
  mem :: "byte list"
  vsize :: nat
  read_index :: nat
  write_index :: nat

definition KCheapPrepend :: nat where
  "KCheapPrepend = 0"

definition kInitialSize :: nat where
  "kInitialSize = 1024"

text \<open>The capacity after a reallocation to hold \<open>n\<close> elements: at least \<open>n\<close>, at most \<open>max_size()\<close>.\<close>

definition new_capacity :: "alloc \<Rightarrow> nat \<Rightarrow> nat \<Rightarrow> nat" where
  "new_capacity A old n = min vec_max (max n (grow A old n))"

text \<open>
  \<open>std::vector::resize(n)\<close>: shrinking keeps the storage; growing within the capacity
  value-initialises the new elements; growing beyond it moves the \<open>size()\<close> elements, and only
  those, to a new storage.
\<close>

definition vec_resize :: "alloc \<Rightarrow> nat \<Rightarrow> buffer \<Rightarrow> buffer res" where
  "vec_resize A n b =
     (if n \<le> vsize b then Inr (b\<lparr>vsize := n\<rparr>)
      else if n \<le> length (mem b) then
        Inr (b\<lparr>mem := take (vsize b) (mem b) @ replicate (n - vsize b) 0 @ drop n (mem b),
               vsize := n\<rparr>)
      else if vec_max < n then Inl LengthError
      else Inr (b\<lparr>mem := take (vsize b) (mem b) @ replicate (n - vsize b) 0
                        @ map (junk A) [n ..< new_capacity A (vsize b) n],
                  vsize := n\<rparr>))"

section \<open>The operations\<close>

definition buffer_new :: "alloc \<Rightarrow> nat \<Rightarrow> buffer res" where
  "buffer_new A init_size =
     vec_resize A (size_add KCheapPrepend init_size)
       \<lparr>mem = [], vsize = 0, read_index = KCheapPrepend, write_index = KCheapPrepend\<rparr>"

definition readableBytes :: "buffer \<Rightarrow> nat" where
  "readableBytes b = size_sub (write_index b) (read_index b)"

definition writableBytes :: "buffer \<Rightarrow> nat" where
  "writableBytes b = size_sub (length (mem b)) (write_index b)"

definition prependableBytes :: "buffer \<Rightarrow> nat" where
  "prependableBytes b = read_index b"

definition pushState :: "nat \<Rightarrow> buffer \<Rightarrow> buffer" where
  "pushState len b =
     (if len < readableBytes b
      then b\<lparr>read_index := size_add (read_index b) len\<rparr>
      else b\<lparr>read_index := KCheapPrepend, write_index := KCheapPrepend\<rparr>)"

definition buffer_get :: "nat \<Rightarrow> buffer \<Rightarrow> (byte list \<times> buffer) res" where
  "buffer_get len b =
     bind_res (bytes_read (read_index b) len (mem b)) (\<lambda>result. Inr (result, pushState len b))"

definition buffer_getAll :: "buffer \<Rightarrow> (byte list \<times> buffer) res" where
  "buffer_getAll b = buffer_get (readableBytes b) b"

definition makeSpace :: "alloc \<Rightarrow> nat \<Rightarrow> buffer \<Rightarrow> buffer res" where
  "makeSpace A len b =
     (if size_add (writableBytes b) (prependableBytes b) < size_add len KCheapPrepend
      then vec_resize A (size_add (write_index b) len) b
      else if write_index b < read_index b then Inl OutOfBounds
      else let readable_size = readableBytes b in
        bind_res (bytes_read (read_index b) (write_index b - read_index b) (mem b)) (\<lambda>d.
        bind_res (bytes_write KCheapPrepend d (mem b)) (\<lambda>m.
          Inr (b\<lparr>mem := m, read_index := KCheapPrepend,
                 write_index := size_add KCheapPrepend readable_size\<rparr>))))"

definition checkBuffer :: "alloc \<Rightarrow> nat \<Rightarrow> buffer \<Rightarrow> buffer res" where
  "checkBuffer A len b = (if writableBytes b < len then makeSpace A len b else Inr b)"

definition buffer_put :: "alloc \<Rightarrow> byte list \<Rightarrow> buffer \<Rightarrow> buffer res" where
  "buffer_put A data b =
     bind_res (checkBuffer A (length data) b) (\<lambda>b'.
     bind_res (bytes_write (write_index b') data (mem b')) (\<lambda>m.
       Inr (b'\<lparr>mem := m, write_index := size_add (write_index b') (length data)\<rparr>)))"

text \<open>
  \<open>Buffer::read\<close>: \<open>readv\<close> scatters into the free storage and then into a 64 KB array on the
  stack, offered only when the free storage is smaller. \<open>buffer_iov\<close> is the lengths of the two
  entries; \<open>buffer_absorb\<close> is what follows the system call. A result of \<open>readv\<close> is an error
  number or the bytes received.
\<close>

definition extrabuf_size :: nat where
  "extrabuf_size = 65536"

definition buffer_iov :: "buffer \<Rightarrow> nat list" where
  "buffer_iov b =
     (if writableBytes b < extrabuf_size then [writableBytes b, extrabuf_size]
      else [writableBytes b])"

definition buffer_absorb :: "alloc \<Rightarrow> byte list \<Rightarrow> buffer \<Rightarrow> buffer res" where
  "buffer_absorb A data b =
     (let writable_bytes = writableBytes b; n = length data in
      if sum_list (buffer_iov b) < n then Inl OutOfBounds
      else bind_res (bytes_write (write_index b) (take writable_bytes data) (mem b)) (\<lambda>m.
        let b' = b\<lparr>mem := m\<rparr> in
        if n \<le> writable_bytes then Inr (b'\<lparr>write_index := size_add (write_index b') n\<rparr>)
        else buffer_put A (drop writable_bytes data) (b'\<lparr>write_index := vsize b'\<rparr>)))"

definition buffer_read ::
  "alloc \<Rightarrow> (nat list \<Rightarrow> 'k \<Rightarrow> (int + byte list) \<times> 'k) \<Rightarrow> 'k \<Rightarrow> buffer \<Rightarrow>
   ((int + nat) \<times> 'k \<times> buffer) res" where
  "buffer_read A readv k b =
     (case readv (buffer_iov b) k of
        (Inl errno, k') \<Rightarrow> Inr (Inl errno, k', b)
      | (Inr data, k') \<Rightarrow>
          bind_res (buffer_absorb A data b) (\<lambda>b'. Inr (Inr (length data), k', b')))"

text \<open>\<open>Buffer::write\<close> hands the readable bytes to the system call and leaves the buffer alone.\<close>

definition buffer_write ::
  "(byte list \<Rightarrow> 'k \<Rightarrow> (int + nat) \<times> 'k) \<Rightarrow> 'k \<Rightarrow> buffer \<Rightarrow> ((int + nat) \<times> 'k) res" where
  "buffer_write write k b =
     bind_res (bytes_read (read_index b) (readableBytes b) (mem b)) (\<lambda>d. Inr (write d k))"

section \<open>The invariant and the abstract content\<close>

definition content :: "buffer \<Rightarrow> byte list" where
  "content b = take (write_index b - read_index b) (drop (read_index b) (mem b))"

definition buf_inv :: "buffer \<Rightarrow> bool" where
  "buf_inv b \<longleftrightarrow> read_index b \<le> write_index b \<and> write_index b \<le> length (mem b)
     \<and> vsize b \<le> length (mem b) \<and> length (mem b) \<le> vec_max"

lemma buf_invD:
  assumes "buf_inv b"
  shows "read_index b \<le> write_index b" "write_index b \<le> length (mem b)"
    "vsize b \<le> length (mem b)" "length (mem b) \<le> vec_max"
    "write_index b \<le> vec_max" "read_index b \<le> vec_max"
  using assms by (auto simp: buf_inv_def)

lemma length_content: "buf_inv b \<Longrightarrow> length (content b) = write_index b - read_index b"
  by (auto simp: content_def buf_inv_def)

lemma readable_content: "buf_inv b \<Longrightarrow> readableBytes b = length (content b)"
  by (simp add: length_content readableBytes_def size_arith buf_invD)

lemma writable_exact: "buf_inv b \<Longrightarrow> writableBytes b = length (mem b) - write_index b"
  by (simp add: writableBytes_def size_arith buf_invD)

lemma content_nil_iff: "buf_inv b \<Longrightarrow> content b = [] \<longleftrightarrow> readableBytes b = 0"
  by (simp add: readable_content)

lemma new_capacity_bounds:
  assumes "n \<le> vec_max"
  shows "n \<le> new_capacity A old n" "new_capacity A old n \<le> vec_max"
  using assms by (simp_all add: new_capacity_def)

lemma buffer_new_inv:
  assumes "init_size \<le> vec_max"
  shows "\<exists>b. buffer_new A init_size = Inr b \<and> buf_inv b \<and> content b = []
     \<and> vsize b = init_size \<and> init_size \<le> length (mem b)"
proof -
  have "size_add KCheapPrepend init_size = init_size"
    using assms by (simp add: KCheapPrepend_def size_arith)
  then show ?thesis
    using assms new_capacity_bounds [OF assms, of A 0]
    by (auto simp: buffer_new_def vec_resize_def buf_inv_def content_def KCheapPrepend_def)
qed

section \<open>Taking bytes out\<close>

lemma pushState_inv: "buf_inv b \<Longrightarrow> buf_inv (pushState len b)"
  by (auto simp: pushState_def buf_inv_def readableBytes_def size_arith KCheapPrepend_def)

lemma pushState_content:
  assumes "buf_inv b"
  shows "content (pushState len b) = drop len (content b)"
proof (cases "len < write_index b - read_index b")
  case True
  moreover have "size_add (read_index b) len = read_index b + len"
    using True buf_invD [OF assms] by (simp add: size_add_vec)
  ultimately show ?thesis
    using buf_invD [OF assms]
    by (simp add: pushState_def content_def readableBytes_def size_arith drop_take add.commute)
next
  case False
  then show ?thesis
    using buf_invD [OF assms] length_content [OF assms]
    by (simp add: pushState_def content_def readableBytes_def size_arith KCheapPrepend_def)
qed

lemma pushState_mem [simp]:
  "mem (pushState len b) = mem b" "vsize (pushState len b) = vsize b"
  by (simp_all add: pushState_def)

lemma buffer_get_ok:
  assumes "buf_inv b" and "len \<le> length (content b)"
  shows "buffer_get len b = Inr (take len (content b), pushState len b)"
proof -
  have "read_index b + len \<le> length (mem b)"
    using assms buf_invD [OF assms(1)] by (simp add: length_content)
  moreover have "take len (drop (read_index b) (mem b)) = take len (content b)"
    using assms(2) length_content [OF assms(1)] by (simp add: content_def min_def)
  ultimately show ?thesis
    by (simp add: buffer_get_def bytes_read_ok)
qed

lemma buffer_getAll_ok:
  assumes "buf_inv b"
  shows "buffer_getAll b = Inr (content b, b\<lparr>read_index := 0, write_index := 0\<rparr>)"
  using buffer_get_ok [OF assms, of "length (content b)"] assms
  by (simp add: buffer_getAll_def readable_content pushState_def KCheapPrepend_def)

section \<open>Putting bytes in\<close>

text \<open>
  Making space. When the free storage before and after the data is enough, the data is moved to
  the front of the same storage. Otherwise the vector is resized; a resize keeps the first
  \<open>vsize\<close> bytes and zeroes the rest.
\<close>

definition fits :: "nat \<Rightarrow> buffer \<Rightarrow> bool" where
  "fits n b \<longleftrightarrow> length (content b) + n \<le> length (mem b)"

lemma fits_iff: "buf_inv b \<Longrightarrow> fits n b \<longleftrightarrow> n \<le> writableBytes b + read_index b"
  using buf_invD [of b] by (auto simp: fits_def length_content writable_exact)

lemma makeSpace_move:
  assumes inv: "buf_inv b" and len: "len \<le> vec_max" and fit: "fits len b"
  shows "\<exists>b'. makeSpace A len b = Inr b' \<and> buf_inv b' \<and> content b' = content b
     \<and> length (mem b') = length (mem b) \<and> vsize b' = vsize b
     \<and> read_index b' = 0 \<and> write_index b' = length (content b)"
proof -
  note D = buf_invD [OF inv]
  have w: "writableBytes b \<le> vec_max" using inv D by (simp add: writable_exact)
  have "\<not> size_add (writableBytes b) (prependableBytes b) < size_add len KCheapPrepend"
    using fit w len D inv by (simp add: prependableBytes_def KCheapPrepend_def size_add_vec fits_iff)
  moreover have "bytes_read (read_index b) (write_index b - read_index b) (mem b) = Inr (content b)"
    using D by (simp add: bytes_read_ok content_def)
  moreover have "bytes_write 0 (content b) (mem b)
      = Inr (content b @ drop (length (content b)) (mem b))"
    using D inv by (simp add: bytes_write_ok length_content)
  ultimately have "makeSpace A len b = Inr (b\<lparr>mem := content b @ drop (length (content b)) (mem b),
      read_index := 0, write_index := length (content b)\<rparr>)"
    using D inv by (simp add: makeSpace_def Let_def KCheapPrepend_def readable_content length_content
        size_add_vec)
  then show ?thesis
    using D inv by (auto simp: buf_inv_def content_def length_content)
qed

lemma makeSpace_grow:
  assumes inv: "buf_inv b" and len: "len \<le> vec_max" and nofit: "\<not> fits len b"
    and max: "write_index b + len \<le> vec_max"
  shows "makeSpace A len b = Inr (b\<lparr>
      mem := take (vsize b) (mem b) @ replicate (write_index b + len - vsize b) 0
        @ map (junk A) [write_index b + len ..< new_capacity A (vsize b) (write_index b + len)],
      vsize := write_index b + len\<rparr>)"
proof -
  note D = buf_invD [OF inv]
  have w: "writableBytes b \<le> vec_max" using inv D by (simp add: writable_exact)
  have "size_add (writableBytes b) (prependableBytes b) < size_add len KCheapPrepend"
    using nofit w len D inv
    by (simp add: prependableBytes_def KCheapPrepend_def size_add_vec fits_iff)
  moreover have "size_add (write_index b) len = write_index b + len"
    using max vec_max_lt_size_mod by (simp add: size_add_exact)
  moreover have "length (mem b) < write_index b + len"
    using nofit inv D by (simp add: fits_iff writable_exact)
  ultimately show ?thesis
    using D max by (simp add: makeSpace_def vec_resize_def)
qed

lemma put_in_place:
  assumes inv: "buf_inv b" and room: "length d \<le> length (mem b) - write_index b"
  shows "\<exists>b'. bind_res (bytes_write (write_index b) d (mem b)) (\<lambda>m.
        Inr (b\<lparr>mem := m, write_index := size_add (write_index b) (length d)\<rparr>)) = Inr b'
     \<and> buf_inv b' \<and> content b' = content b @ d
     \<and> length (mem b') = length (mem b) \<and> vsize b' = vsize b"
proof -
  note D = buf_invD [OF inv]
  have "write_index b + length d \<le> length (mem b)"
    using room D by simp
  then show ?thesis
    using D take_drop_before_write [of "read_index b" "write_index b" "mem b" d]
    by (simp add: bytes_write_ok size_add_vec buf_inv_def content_def)
qed

text \<open>A put that fits appends, whatever the allocator, and never reallocates.\<close>

lemma buffer_put_fits:
  assumes inv: "buf_inv b" and fit: "fits (length d) b"
  shows "\<exists>b'. buffer_put A d b = Inr b' \<and> buf_inv b' \<and> content b' = content b @ d
     \<and> length (mem b') = length (mem b) \<and> vsize b' = vsize b"
proof (cases "writableBytes b < length d")
  case False
  then show ?thesis
    using put_in_place [OF inv, of d] inv by (simp add: buffer_put_def checkBuffer_def writable_exact)
next
  case True
  have "length d \<le> vec_max"
    using fit inv by (simp add: fits_def buf_inv_def)
  then obtain b1 where b1: "makeSpace A (length d) b = Inr b1" "buf_inv b1"
      "content b1 = content b" "length (mem b1) = length (mem b)" "vsize b1 = vsize b"
      "write_index b1 = length (content b)"
    using makeSpace_move [OF inv _ fit] by blast
  have "length d \<le> length (mem b1) - write_index b1"
    using fit b1 by (simp add: fits_def)
  from put_in_place [OF b1(2) this] show ?thesis
    using True b1 by (simp add: buffer_put_def checkBuffer_def)
qed

text \<open>
  A put that does not fit reallocates. What the move to the new storage leaves of the content is
  \<open>survivors\<close>: the bytes below \<open>vsize\<close>, then zeros.
\<close>

definition survivors :: "buffer \<Rightarrow> byte list" where
  "survivors b = take (vsize b - read_index b) (content b)
     @ replicate (min (write_index b - vsize b) (length (content b))) 0"

lemma survivors_same: "buf_inv b \<Longrightarrow> write_index b \<le> vsize b \<Longrightarrow> survivors b = content b"
  using buf_invD [of b] by (simp add: survivors_def length_content)

lemma drop_take_zeros:
  assumes "v \<le> length m" "r \<le> w" "w \<le> length m" "w \<le> n" "v \<le> n"
  shows "take (w - r) (drop r (take v m @ replicate (n - v) (0::byte) @ rest))
    = take (v - r) (take (w - r) (drop r m)) @ replicate (min (w - v) (w - r)) 0"
proof (cases "r \<le> v")
  case True
  then show ?thesis using assms by (simp add: drop_take min_def diff_diff_left)
next
  case False
  then show ?thesis using assms by (simp add: min_def)
qed

lemma buffer_put_grows:
  assumes inv: "buf_inv b" and nofit: "\<not> fits (length d) b"
    and max: "write_index b + length d \<le> vec_max"
  shows "\<exists>b'. buffer_put A d b = Inr b' \<and> buf_inv b' \<and> content b' = survivors b @ d
     \<and> vsize b' = write_index b' \<and> write_index b' = write_index b + length d
     \<and> length (mem b') = new_capacity A (vsize b) (write_index b + length d)"
proof -
  note D = buf_invD [OF inv]
  let ?n = "write_index b + length d"
  let ?m = "take (vsize b) (mem b) @ replicate (?n - vsize b) 0
        @ map (junk A) [?n ..< new_capacity A (vsize b) ?n]"
  let ?b = "b\<lparr>mem := ?m, vsize := ?n\<rparr>"
  note cap = new_capacity_bounds [OF max, of A "vsize b"]
  have big: "length (mem b) < ?n"
    using nofit inv D by (simp add: fits_iff writable_exact)
  have ms: "makeSpace A (length d) b = Inr ?b"
    using makeSpace_grow [OF inv _ nofit max] max by simp
  have len: "length ?m = new_capacity A (vsize b) ?n"
    using big D cap by simp
  have inv': "buf_inv ?b"
    using len cap D by (simp add: buf_inv_def)
  have c: "content ?b = survivors b"
    using drop_take_zeros [of "vsize b" "mem b" "read_index b" "write_index b" ?n] big D
    by (simp add: content_def survivors_def)
  have "length d \<le> length (mem ?b) - write_index ?b"
    using len cap by simp
  from put_in_place [OF inv' this]
  obtain b' where b': "bind_res (bytes_write (write_index ?b) d (mem ?b)) (\<lambda>m.
        Inr (?b\<lparr>mem := m, write_index := size_add (write_index ?b) (length d)\<rparr>)) = Inr b'"
      "buf_inv b'" "content b' = content ?b @ d" "length (mem b') = length (mem ?b)"
      "vsize b' = vsize ?b" by blast
  have "write_index b' = ?n"
    using b'(1) max vec_max_lt_size_mod by (auto simp: res_iff size_add_exact)
  moreover have "buffer_put A d b = Inr b'"
  proof -
    have "writableBytes b < length d"
      using big D inv by (simp add: writable_exact)
    then show ?thesis
      using ms b'(1) by (simp add: buffer_put_def checkBuffer_def)
  qed
  ultimately show ?thesis
    using b' c len by simp
qed

text \<open>A put whose data would end beyond \<open>max_size()\<close> throws and leaves no new buffer.\<close>

lemma buffer_put_too_long:
  assumes inv: "buf_inv b" and nofit: "\<not> fits (length d) b" and len: "length d \<le> vec_max"
    and max: "vec_max < write_index b + length d"
  shows "buffer_put A d b = Inl LengthError"
proof -
  note D = buf_invD [OF inv]
  have w: "writableBytes b \<le> vec_max" using inv D by (simp add: writable_exact)
  have grow: "size_add (writableBytes b) (prependableBytes b) < size_add (length d) KCheapPrepend"
    using nofit w len D inv
    by (simp add: prependableBytes_def KCheapPrepend_def size_add_vec fits_iff)
  have n: "size_add (write_index b) (length d) = write_index b + length d"
    using D len by (simp add: size_add_vec)
  have "writableBytes b < length d"
    using nofit inv by (simp add: fits_iff)
  then show ?thesis
    using grow n D max by (simp add: buffer_put_def checkBuffer_def makeSpace_def vec_resize_def)
qed

interpretation buf: bounded_fifo "buffer_put A" buffer_get content buf_inv "\<lambda>b. length (mem b)" for A
proof
  fix q :: buffer and d :: "byte list"
  assume "buf_inv q" "length (content q) + length d \<le> length (mem q)"
  then show "\<exists>q'. buffer_put A d q = Inr q' \<and> buf_inv q' \<and> content q' = content q @ d
      \<and> length (mem q') = length (mem q)"
    using buffer_put_fits [of q d A] by (auto simp: fits_def)
next
  fix q :: buffer and n :: nat
  assume "buf_inv q" "n \<le> length (content q)"
  then show "\<exists>q'. buffer_get n q = Inr (take n (content q), q') \<and> buf_inv q'
      \<and> content q' = drop n (content q) \<and> length (mem q') = length (mem q)"
    by (simp add: buffer_get_ok pushState_inv pushState_content)
qed

section \<open>Reading from a descriptor\<close>

lemma buffer_absorb_small:
  assumes inv: "buf_inv b" and n: "length d \<le> writableBytes b"
  shows "\<exists>b'. buffer_absorb A d b = Inr b' \<and> buf_inv b' \<and> content b' = content b @ d
     \<and> length (mem b') = length (mem b) \<and> vsize b' = vsize b"
proof -
  have "\<not> sum_list (buffer_iov b) < length d"
    using n by (simp add: buffer_iov_def)
  then show ?thesis
    using put_in_place [OF inv, of d] n inv
    by (simp add: buffer_absorb_def Let_def writable_exact)
qed

text \<open>The buffer in the middle of the last branch: filled up, with the write index set to \<open>size()\<close>.\<close>

definition absorb_filled :: "byte list \<Rightarrow> buffer \<Rightarrow> buffer" where
  "absorb_filled d b = b\<lparr>mem := take (write_index b) (mem b) @ take (writableBytes b) d,
     write_index := vsize b\<rparr>"

lemma buffer_absorb_large:
  assumes inv: "buf_inv b" and n: "writableBytes b < length d" "length d \<le> sum_list (buffer_iov b)"
  shows "buffer_absorb A d b = buffer_put A (drop (writableBytes b) d) (absorb_filled d b)"
  using n buf_invD [OF inv] inv
  by (simp add: buffer_absorb_def Let_def bytes_write_ok writable_exact absorb_filled_def)

lemma length_mem_filled:
  "buf_inv b \<Longrightarrow> writableBytes b \<le> length d \<Longrightarrow> length (mem (absorb_filled d b)) = length (mem b)"
  using buf_invD [of b] by (simp add: absorb_filled_def writable_exact)

lemma absorb_filled_inv:
  assumes "buf_inv b" and "writableBytes b \<le> length d" and "read_index b \<le> vsize b"
  shows "buf_inv (absorb_filled d b)"
proof -
  have i: "read_index (absorb_filled d b) = read_index b"
      "write_index (absorb_filled d b) = vsize b" "vsize (absorb_filled d b) = vsize b"
    by (simp_all add: absorb_filled_def)
  show ?thesis
    unfolding buf_inv_def i length_mem_filled [OF assms(1,2)]
    using assms(3) buf_invD [OF assms(1)] by blast
qed

lemma absorb_filled_content:
  assumes "buf_inv b" and "writableBytes b \<le> length d" and "read_index b \<le> vsize b"
  shows "content (absorb_filled d b)
    = take (vsize b - read_index b) (content b @ take (writableBytes b) d)"
proof -
  let ?r = "read_index b" and ?w = "write_index b" and ?t = "take (writableBytes b) d"
  note D = buf_invD [OF assms(1)]
  have c: "content b = take (?w - ?r) (drop ?r (mem b))"
    by (simp add: content_def)
  have "drop ?r (take ?w (mem b) @ ?t) = content b @ ?t"
    using D by (simp add: c drop_take)
  then show ?thesis
    by (simp add: content_def absorb_filled_def)
qed

text \<open>
  Where the vector is not over-allocated (\<open>size() = capacity()\<close>) the filled buffer holds what it
  held before followed by the first part of the data, and the put adds the rest.
\<close>

lemma buffer_absorb_exact:
  assumes inv: "buf_inv b" and full: "vsize b = length (mem b)"
    and len: "length d \<le> sum_list (buffer_iov b)"
    and max: "length (mem b) + length d \<le> vec_max"
  shows "\<exists>b'. buffer_absorb A d b = Inr b' \<and> buf_inv b' \<and> content b' = content b @ d"
proof (cases "length d \<le> writableBytes b")
  case True
  then show ?thesis using buffer_absorb_small [OF inv True, of A] by auto
next
  case False
  note D = buf_invD [OF inv]
  let ?f = "absorb_filled d b" and ?d = "drop (writableBytes b) d"
  have fi: "buf_inv ?f" using absorb_filled_inv [OF inv] False full D by simp
  have fc: "content ?f = content b @ take (writableBytes b) d"
    using absorb_filled_content [OF inv, of d] False full D length_content [OF inv] inv
    by (simp add: writable_exact)
  have wv: "write_index ?f = length (mem b)" "vsize ?f = length (mem b)"
    using full by (simp_all add: absorb_filled_def)
  have app: "buffer_absorb A d b = buffer_put A ?d ?f"
    using buffer_absorb_large [OF inv] False len by simp
  have "\<exists>b'. buffer_put A ?d ?f = Inr b' \<and> buf_inv b' \<and> content b' = content ?f @ ?d"
  proof (cases "fits (length ?d) ?f")
    case True
    then show ?thesis using buffer_put_fits [OF fi True, of A] by auto
  next
    case nofit: False
    have "survivors ?f = content ?f" using survivors_same [OF fi] wv by simp
    moreover have "write_index ?f + length ?d \<le> vec_max"
      using wv max False by simp
    ultimately show ?thesis using buffer_put_grows [OF fi nofit, of A] by auto
  qed
  then show ?thesis using app fc by (auto simp: append_assoc)
qed

section \<open>An allocator that does not over-allocate\<close>

definition exact_alloc :: "alloc \<Rightarrow> bool" where
  "exact_alloc A \<longleftrightarrow> (\<forall>old n. grow A old n \<le> n)"

lemma exact_put:
  assumes inv: "buf_inv b" and full: "vsize b = length (mem b)" and A: "exact_alloc A"
    and max: "write_index b + length d \<le> vec_max"
  shows "\<exists>b'. buffer_put A d b = Inr b' \<and> buf_inv b' \<and> content b' = content b @ d
     \<and> vsize b' = length (mem b') \<and> write_index b' \<le> write_index b + length d"
proof (cases "fits (length d) b")
  case True
  then obtain b' where b': "buffer_put A d b = Inr b'" "buf_inv b'" "content b' = content b @ d"
      "vsize b' = length (mem b')"
    using buffer_put_fits [OF inv True, of A] full by auto
  have "write_index b' \<le> write_index b + length d"
  proof (cases "writableBytes b < length d")
    case False
    then show ?thesis using b'(1)
      by (auto simp: buffer_put_def checkBuffer_def res_iff size_add_def)
  next
    case less: True
    have "length d \<le> vec_max" using True inv by (simp add: fits_def buf_inv_def)
    then obtain b1 where "makeSpace A (length d) b = Inr b1" "write_index b1 = length (content b)"
      using makeSpace_move [OF inv _ True, of A] by blast
    then have "write_index b' = size_add (length (content b)) (length d)"
      using b'(1) less by (auto simp: buffer_put_def checkBuffer_def res_iff)
    also have "\<dots> \<le> length (content b) + length d" by (simp add: size_add_def)
    finally show ?thesis using length_content [OF inv] by simp
  qed
  then show ?thesis using b' by blast
next
  case False
  have "new_capacity A (vsize b) (write_index b + length d) = write_index b + length d"
    using A max by (metis exact_alloc_def max.orderE min.absorb2 new_capacity_def)
  moreover have "survivors b = content b"
    using survivors_same [OF inv] full buf_invD [OF inv] by simp
  ultimately show ?thesis
    using buffer_put_grows [OF inv False max, of A] by force
qed

section \<open>Properties\<close>

text \<open>C10. Within its capacity the buffer is a FIFO queue of bytes: for every allocator, any sequence
  of \<open>put\<close> and \<open>get\<close> calls that keeps the stored bytes within \<open>capacity()\<close> and never asks for more
  than is stored succeeds, returns exactly what the abstract queue returns, leaves the same content
  and never reallocates, however often the data has to be moved to the front.\<close>

theorem buffer_refines_queue:
  assumes "buf_inv b" and "spec_within (length (mem b)) ops (content b)"
  shows "\<exists>b'. run_ops (buffer_put A) buffer_get ops b = Inr (fst (spec_ops ops (content b)), b')
    \<and> content b' = snd (spec_ops ops (content b)) \<and> buf_inv b' \<and> length (mem b') = length (mem b)"
  using assms by (rule buf.run_refines_spec)

text \<open>A small buffer for the witnesses: six bytes of storage, all free.\<close>

definition six :: buffer where
  "six = \<lparr>mem = replicate 6 0, vsize = 6, read_index = 0, write_index = 0\<rparr>"

lemma six_inv: "buf_inv six" and six_content: "content six = []" and six_cap: "length (mem six) = 6"
  by (simp_all add: six_def buf_inv_def content_def vec_max_def)

theorem buffer_refines_queue_witness:
  "\<exists>b'. run_ops (buffer_put libstdcxx) buffer_get
        [PutOp [1, 2, 3, 4, 5], GetOp 2, PutOp [6, 7, 8], GetOp 6] six
      = Inr ([[1, 2], [3, 4, 5, 6, 7, 8]], b') \<and> content b' = []"
  using buffer_refines_queue [of six "[PutOp [1, 2, 3, 4, 5], GetOp 2, PutOp [6, 7, 8], GetOp 6]"
      libstdcxx]
  by (auto simp: six_inv six_content six_cap)

text \<open>C22. A \<open>put\<close> that has to reallocate keeps only the bytes below \<open>size()\<close>: the content afterwards
  is the old content with every byte at or above \<open>size()\<close> replaced by zero, followed by the new
  data; it is the old content followed by the data exactly when those bytes were zero.\<close>

theorem put_reallocation_content:
  assumes "buf_inv b" and "\<not> fits (length d) b" and "write_index b + length d \<le> vec_max"
  shows "\<exists>b'. buffer_put A d b = Inr b' \<and> buf_inv b' \<and> vsize b' = write_index b'
    \<and> content b' = take (vsize b - read_index b) (content b)
        @ replicate (length (content b) - (vsize b - read_index b)) 0 @ d
    \<and> (content b' = content b @ d \<longleftrightarrow>
        (\<forall>i < length (content b). vsize b \<le> read_index b + i \<longrightarrow> content b ! i = 0))"
proof -
  let ?c = "content b" and ?k = "vsize b - read_index b"
  have min_eq: "min (write_index b - vsize b) (length ?c) = length ?c - ?k"
    using length_content [OF assms(1)] buf_invD [OF assms(1)] by simp
  have "take ?k ?c @ replicate (length ?c - ?k) 0 = ?c
      \<longleftrightarrow> (\<forall>i < length ?c. vsize b \<le> read_index b + i \<longrightarrow> ?c ! i = 0)"
    by (auto simp: list_eq_iff_nth_eq nth_append min_def split: if_splits)
  then show ?thesis
    using buffer_put_grows [OF assms, of A] by (auto simp: survivors_def min_eq)
qed

text \<open>A buffer whose vector is over-allocated: five elements in eight bytes of storage.\<close>

definition five_of_eight :: buffer where
  "five_of_eight = \<lparr>mem = [1, 2, 3, 4, 5, 6, 7, 0], vsize = 5, read_index = 0, write_index = 7\<rparr>"

lemma five_of_eight_inv: "buf_inv five_of_eight"
  and five_of_eight_content: "content five_of_eight = [1, 2, 3, 4, 5, 6, 7]"
  by (simp_all add: five_of_eight_def buf_inv_def content_def vec_max_def)

theorem put_reallocation_content_witness:
  "\<exists>b'. buffer_put libstdcxx [8, 9, 10] five_of_eight = Inr b'
    \<and> content b' = [1, 2, 3, 4, 5, 0, 0, 8, 9, 10]"
  using put_reallocation_content [of five_of_eight "[8, 9, 10]" libstdcxx]
  by (simp add: five_of_eight_inv five_of_eight_content fits_def)
     (auto simp: five_of_eight_def vec_max_def)

text \<open>With the growth policy of GCC's library the loss happens on an ordinary sequence of calls:
  a buffer of initial size 4, three puts of 5, 2 and 3 bytes, one \<open>getAll\<close> that returns the ten
  bytes with the sixth and the seventh replaced by zero.\<close>

theorem put_loses_bytes:
  "bind_res (buffer_new libstdcxx 4) (\<lambda>b.
     bind_res (fold_res (buffer_put libstdcxx) [[1, 2, 3, 4, 5], [6, 7], [8, 9, 10]] b)
       (\<lambda>b. bind_res (buffer_getAll b) (\<lambda>(d, _). Inr d)))
   = Inr [1, 2, 3, 4, 5, 0, 0, 8, 9, 10]"
  by (simp add: buffer_new_def buffer_getAll_def buffer_get_def bytes_read_def buffer_put_def
      checkBuffer_def makeSpace_def writableBytes_def prependableBytes_def readableBytes_def
      vec_resize_def new_capacity_def libstdcxx_def bytes_write_def size_add_def size_sub_def
      size_mod_def vec_max_def KCheapPrepend_def)

text \<open>C23. Every \<open>put\<close> on a well-formed buffer either returns a well-formed buffer whose content ends
  in the data, or throws \<open>std::length_error\<close>; it throws exactly when the data does not fit and would
  end beyond \<open>max_size()\<close>. It never touches memory outside the storage.\<close>

theorem put_outcome:
  assumes "buf_inv b" and "length d \<le> vec_max"
  shows "(if fits (length d) b \<or> write_index b + length d \<le> vec_max
      then \<exists>b' c. buffer_put A d b = Inr b' \<and> buf_inv b' \<and> content b' = c @ d
             \<and> length c = length (content b)
      else buffer_put A d b = Inl LengthError)"
proof (cases "fits (length d) b")
  case True
  then show ?thesis using buffer_put_fits [OF assms(1) True, of A] by auto
next
  case False
  have "length (survivors b) = length (content b)"
    using length_content [OF assms(1)] buf_invD [OF assms(1)] by (simp add: survivors_def)
  then show ?thesis
    using False buffer_put_grows [OF assms(1) False, of A]
      buffer_put_too_long [OF assms(1) False assms(2), of A] by force
qed

theorem put_outcome_witness:
  "\<exists>b' c. buffer_put libstdcxx [8, 9, 10] five_of_eight = Inr b' \<and> buf_inv b'
    \<and> content b' = c @ [8, 9, 10] \<and> length c = length (content five_of_eight)"
proof -
  have "write_index five_of_eight + length [8 :: byte, 9, 10] \<le> vec_max"
    and len: "length [8 :: byte, 9, 10] \<le> vec_max"
    by (simp_all add: five_of_eight_def vec_max_def)
  then show ?thesis
    using put_outcome [OF five_of_eight_inv len, of libstdcxx] by metis
qed

text \<open>\<open>get\<close> returns the first bytes and keeps the rest when it is asked for no more than is
  stored. Asked for more it does not fail: it returns the content followed by whatever the storage
  holds after the write index, and empties the buffer; only past the end of the storage is the
  behaviour undefined.\<close>

theorem get_outcome:
  assumes "buf_inv b"
  shows "buffer_get n b =
    (if n \<le> length (content b) then Inr (take n (content b), pushState n b)
     else if read_index b + n \<le> length (mem b) then
       Inr (content b @ take (n - length (content b)) (drop (write_index b) (mem b)),
            b\<lparr>read_index := 0, write_index := 0\<rparr>)
     else Inl OutOfBounds)
    \<and> content (pushState n b) = drop n (content b) \<and> buf_inv (pushState n b)"
proof -
  note D = buf_invD [OF assms] and L = length_content [OF assms]
  have "take n (drop (read_index b) (mem b))
      = content b @ take (n - length (content b)) (drop (write_index b) (mem b))"
    if "length (content b) < n"
  proof -
    have "drop (read_index b) (mem b) = content b @ drop (write_index b) (mem b)"
      using D by (metis append_take_drop_id content_def drop_drop le_add_diff_inverse2)
    then show ?thesis using that by simp
  qed
  then show ?thesis
    using buffer_get_ok [OF assms, of n] readable_content [OF assms]
    by (simp add: assms pushState_content pushState_inv)
       (simp add: buffer_get_def bytes_read_def pushState_def KCheapPrepend_def)
qed

theorem get_outcome_witness:
  "buffer_get 8 five_of_eight
     = Inr ([1, 2, 3, 4, 5, 6, 7, 0], five_of_eight\<lparr>read_index := 0, write_index := 0\<rparr>)"
  using get_outcome [OF five_of_eight_inv, of 8]
  by (simp add: five_of_eight_content) (simp add: five_of_eight_def)

definition read_safe :: "byte list \<Rightarrow> buffer \<Rightarrow> bool" where
  "read_safe d b \<longleftrightarrow> length d \<le> writableBytes b
     \<or> vsize b = length (mem b) \<and> length d \<le> sum_list (buffer_iov b)
       \<and> length (mem b) + length d \<le> vec_max"

lemma buffer_absorb_safe:
  "buf_inv b \<Longrightarrow> read_safe d b \<Longrightarrow>
    \<exists>b'. buffer_absorb A d b = Inr b' \<and> buf_inv b' \<and> content b' = content b @ d"
  using buffer_absorb_small [of b d A] buffer_absorb_exact [of b d A] by (auto simp: read_safe_def)

text \<open>C24. \<open>Buffer::read\<close>. A failing \<open>readv\<close> leaves the buffer as it was and reports the error
  number. A successful one appends exactly the bytes received and returns their number, when they
  fit into the free storage, or, beyond it, when the vector is not over-allocated.\<close>

theorem read_outcome:
  assumes "buf_inv b" and "readv (buffer_iov b) k = (r, k')"
    and "\<And>d. r = Inr d \<Longrightarrow> read_safe d b"
  shows "case r of
      Inl errno \<Rightarrow> buffer_read A readv k b = Inr (Inl errno, k', b)
    | Inr d \<Rightarrow> \<exists>b'. buffer_read A readv k b = Inr (Inr (length d), k', b') \<and> buf_inv b'
        \<and> content b' = content b @ d"
  using assms buffer_absorb_safe [OF assms(1), of _ A]
  by (cases r) (fastforce simp: buffer_read_def)+

theorem read_outcome_witness:
  "\<exists>b'. buffer_read libstdcxx (\<lambda>_ k. (Inr [1, 2, 3, 4, 5, 6, 7, 8], k)) () six
        = Inr (Inr 8, (), b') \<and> content b' = [1, 2, 3, 4, 5, 6, 7, 8]"
proof -
  have "read_safe [1, 2, 3, 4, 5, 6, 7, 8] six"
    by (simp add: read_safe_def six_def buffer_iov_def writableBytes_def size_sub_def
        extrabuf_size_def vec_max_def)
  then show ?thesis
    using read_outcome [of six "\<lambda>_ k. (Inr [1, 2, 3, 4, 5, 6, 7, 8], k)" "()"
        "Inr [1, 2, 3, 4, 5, 6, 7, 8]" "()" libstdcxx]
    by (auto simp: six_inv six_content)
qed

text \<open>With an over-allocated vector a \<open>read\<close> larger than the free storage loses bytes: it sets
  the write index to \<open>size()\<close> instead of the end of the free storage. Here ten bytes are received
  into the buffer above, which holds seven; the call reports ten, but only the first five old bytes
  and the last nine received remain.\<close>

theorem read_loses_bytes:
  "bind_res (buffer_read libstdcxx (\<lambda>_ k. (Inr [11, 12, 13, 14, 15, 16, 17, 18, 19, 20], k)) ()
        five_of_eight) (\<lambda>(n, _, b'). Inr (n, content b'))
   = Inr (Inr 10, [1, 2, 3, 4, 5, 12, 13, 14, 15, 16, 17, 18, 19, 20])"
  by (simp add: buffer_read_def buffer_absorb_def buffer_iov_def extrabuf_size_def Let_def
      five_of_eight_def buffer_put_def content_def
      checkBuffer_def makeSpace_def writableBytes_def prependableBytes_def
      vec_resize_def new_capacity_def libstdcxx_def bytes_write_def size_add_def size_sub_def
      size_mod_def vec_max_def KCheapPrepend_def)


text \<open>If the allocator never over-allocates, a \<open>put\<close> appends without exception: no sequence of
  puts loses a byte, as long as the indices stay below \<open>max_size()\<close>.\<close>

theorem exact_alloc_puts:
  assumes "exact_alloc A" and "buf_inv b" and "vsize b = length (mem b)"
    and "write_index b + length (concat ds) \<le> vec_max"
  shows "\<exists>b'. fold_res (buffer_put A) ds b = Inr b' \<and> buf_inv b'
    \<and> content b' = content b @ concat ds \<and> vsize b' = length (mem b')"
  using assms(2-4)
proof (induction ds arbitrary: b)
  case (Cons d ds)
  then obtain b1 where "buffer_put A d b = Inr b1" "buf_inv b1" "content b1 = content b @ d"
      "vsize b1 = length (mem b1)" "write_index b1 \<le> write_index b + length d"
    using exact_put [OF Cons.prems(1,2) assms(1), of d] by auto
  then show ?case using Cons.IH [of b1] Cons.prems by auto
qed auto

theorem exact_alloc_puts_witness:
  "\<exists>b'. fold_res (buffer_put \<lparr>grow = (\<lambda>_ n. n), junk = (\<lambda>_. 0)\<rparr>)
      [[1, 2, 3, 4, 5], [6, 7], [8, 9, 10]] six = Inr b'
    \<and> content b' = [1, 2, 3, 4, 5, 6, 7, 8, 9, 10]"
  using exact_alloc_puts [of "\<lparr>grow = (\<lambda>_ n. n), junk = (\<lambda>_. 0)\<rparr>" six
      "[[1, 2, 3, 4, 5], [6, 7], [8, 9, 10]]"] six_inv
  by (simp add: exact_alloc_def six_content) (auto simp: six_def vec_max_def)

end
