(* ===== verification/InetAddress.thy ===== *)
theory InetAddress
  imports Format
begin

text \<open>
  The class \<open>InetAddress\<close> (\<open>src/inet_address.h\<close>, \<open>src/inet_address.cc\<close>), a wrapper of
  \<open>sockaddr_in\<close>. The port and the address are kept as their bytes in memory order, which is network
  order whatever the endianness of the host. \<open>inet_addr\<close> is a parameter, a function from strings to
  four bytes; \<open>inet_ntop\<close> for \<open>AF_INET\<close> is its documented output, four decimal numbers and dots.
\<close>

record sockaddr_in =
  sin_family :: nat
  sin_port :: "byte \<times> byte"
  s_addr :: "byte \<times> byte \<times> byte \<times> byte"

definition AF_INET :: nat where
  "AF_INET = 2"

definition zero_sockaddr :: sockaddr_in where
  "zero_sockaddr = \<lparr>sin_family = 0, sin_port = (0, 0), s_addr = (0, 0, 0, 0)\<rparr>"

definition htons :: "16 word \<Rightarrow> byte \<times> byte" where
  "htons w = (ucast (drop_bit 8 w), ucast w)"

definition ntohs :: "byte \<times> byte \<Rightarrow> 16 word" where
  "ntohs p = (case p of (hi, lo) \<Rightarrow> push_bit 8 (ucast hi) OR ucast lo)"

definition inet_ntop4 :: "byte \<times> byte \<times> byte \<times> byte \<Rightarrow> string" where
  "inet_ntop4 x = (case x of (a, b, c, d) \<Rightarrow>
     show_nat (unat a) @ ''.'' @ show_nat (unat b) @ ''.'' @ show_nat (unat c) @ ''.''
       @ show_nat (unat d))"

section \<open>The class\<close>

definition InetAddress_new ::
  "(string \<Rightarrow> byte \<times> byte \<times> byte \<times> byte) \<Rightarrow> 16 word \<Rightarrow> string \<Rightarrow> sockaddr_in" where
  "InetAddress_new inet_addr port ip =
     zero_sockaddr\<lparr>sin_family := AF_INET, sin_port := htons port, s_addr := inet_addr ip\<rparr>"

definition getNumberAndDotIp :: "sockaddr_in \<Rightarrow> string" where
  "getNumberAndDotIp addr = inet_ntop4 (s_addr addr)"

definition getShortIntPort :: "sockaddr_in \<Rightarrow> 16 word" where
  "getShortIntPort addr = ntohs (sin_port addr)"

definition getIpAndPort :: "sockaddr_in \<Rightarrow> string res" where
  "getIpAndPort addr =
     (let buf = inet_ntop4 (s_addr addr);
          port = ntohs (sin_port addr)
      in sprintf_at 64 buf ('':'' @ show_nat (unat port)))"

definition setSockAddr :: "sockaddr_in \<Rightarrow> sockaddr_in \<Rightarrow> sockaddr_in" where
  "setSockAddr addr self = addr"

section \<open>Lemmas\<close>

lemma ntohs_htons [simp]: "ntohs (htons w) = w"
  unfolding ntohs_def htons_def
  by (auto intro!: bit_word_eqI simp: bit_simps)

lemma ntohs_inject: "ntohs p = ntohs q \<longleftrightarrow> p = q"
proof
  assume eq: "ntohs p = ntohs q"
  have high [simp]: "\<not> bit (b :: byte) (8 + n)" for b n
    using bit_imp_le_length [of b "8 + n"] by auto
  have inv: "htons (ntohs r) = r" for r
    by (cases r) (auto simp: ntohs_def htons_def bit_simps intro!: bit_word_eqI)
  from eq show "p = q" by (metis inv)
qed simp

lemma byte_decimal_length: "length (show_nat (unat (b :: byte))) \<le> 3"
proof (rule show_nat_length)
  show "unat b < 10 ^ 3" using unsigned_less [of b, where ?'a = nat] by simp
qed simp

lemma port_decimal_length: "length (show_nat (unat (w :: 16 word))) \<le> 5"
proof (rule show_nat_length)
  show "unat w < 10 ^ 5" using unsigned_less [of w, where ?'a = nat] by simp
qed simp

lemma inet_ntop4_length: "length (inet_ntop4 x) \<le> 15"
  using byte_decimal_length [of "fst x"] byte_decimal_length [of "fst (snd x)"]
    byte_decimal_length [of "fst (snd (snd x))"] byte_decimal_length [of "snd (snd (snd x))"]
  by (cases x) (simp add: inet_ntop4_def)

lemma inet_ntop4_inject: "inet_ntop4 x = inet_ntop4 y \<longleftrightarrow> x = y"
  by (cases x; cases y)
     (auto simp: inet_ntop4_def append_sep_inject show_nat_not_in word_unat_eq_iff)

lemma getIpAndPort_text:
  "getIpAndPort addr
    = Inr (inet_ntop4 (s_addr addr) @ '':'' @ show_nat (unat (ntohs (sin_port addr))))"
  using inet_ntop4_length [of "s_addr addr"] port_decimal_length [of "ntohs (sin_port addr)"]
  by (simp add: getIpAndPort_def sprintf_at_def Let_def)

lemma getIpAndPort_length:
  "getIpAndPort addr = Inr s \<Longrightarrow> length s \<le> 21"
  using inet_ntop4_length [of "s_addr addr"] port_decimal_length [of "ntohs (sin_port addr)"]
  by (auto simp: getIpAndPort_text)

section \<open>Properties\<close>

text \<open>C40. An address keeps the port it was made from, whatever the byte order, and its text is the four
  decimal numbers of the address, a colon and the port in decimal. The text never overflows the
  buffer it is built in, and two addresses have the same text only if address and port are the same.\<close>

theorem address_text:
  "getShortIntPort (InetAddress_new inet_addr port ip) = port
   \<and> getIpAndPort (InetAddress_new inet_addr port ip)
       = Inr (inet_ntop4 (inet_addr ip) @ '':'' @ show_nat (unat port))
   \<and> (\<exists>s. getIpAndPort a = Inr s \<and> length s \<le> 21)
   \<and> (getIpAndPort a = getIpAndPort b \<longleftrightarrow> s_addr a = s_addr b \<and> sin_port a = sin_port b)"
proof -
  have "getIpAndPort a = getIpAndPort b \<longleftrightarrow> s_addr a = s_addr b \<and> sin_port a = sin_port b"
    by (simp add: getIpAndPort_text append_sep_inject_last [where c = "CHR '':''", simplified]
        show_nat_not_in inet_ntop4_inject word_unat_eq_iff [symmetric] ntohs_inject)
  then show ?thesis
    using getIpAndPort_length [of a]
    by (simp add: getIpAndPort_text getShortIntPort_def InetAddress_new_def)
qed

end
