(* ===== verification/Os.thy ===== *)
theory Os
  imports InetAddress
begin

text \<open>
  The operating system is not part of the repository: it is the parameter \<open>os\<close> of every definition
  that makes a system call, a record with one function per call over an arbitrary state \<open>'k\<close> of the
  system. A call returns \<open>Inl errno\<close> where the C function returns -1, and \<open>Inr\<close> its result
  otherwise. What the code relies on is stated as predicates on this record
  (\<open>epoll_ok\<close>, \<open>write_ok\<close>, \<open>wait_ok\<close>), which follow the manual pages; \<open>toy_os\<close> is one system that
  satisfies them.

  Channels are owned by a loop (its wakeup channel), by the acceptor or by a connection, and the code
  stores raw pointers to them in the poller and in the kernel: \<open>chan_ptr\<close> names the three kinds.
\<close>

datatype chan_ptr = WakeupCh nat | AcceptCh | ConnCh nat

datatype ctl_op = EPOLL_CTL_ADD | EPOLL_CTL_MOD | EPOLL_CTL_DEL

datatype sockopt = SO_REUSEADDR | SO_REUSEPORT | SO_KEEPALIVE | TCP_NODELAY

record 'k os =
  sys_epoll_create :: "'k \<Rightarrow> (int + int) \<times> 'k"
  sys_epoll_ctl :: "int \<Rightarrow> ctl_op \<Rightarrow> int \<Rightarrow> 32 word \<Rightarrow> chan_ptr \<Rightarrow> 'k \<Rightarrow> (int + unit) \<times> 'k"
  sys_epoll_wait :: "int \<Rightarrow> nat \<Rightarrow> int \<Rightarrow> 'k \<Rightarrow> (int + (32 word \<times> chan_ptr) list) \<times> 'k"
  sys_eventfd :: "'k \<Rightarrow> (int + int) \<times> 'k"
  sys_read :: "int \<Rightarrow> nat \<Rightarrow> 'k \<Rightarrow> (int + byte list) \<times> 'k"
  sys_readv :: "int \<Rightarrow> nat list \<Rightarrow> 'k \<Rightarrow> (int + byte list) \<times> 'k"
  sys_write :: "int \<Rightarrow> byte list \<Rightarrow> 'k \<Rightarrow> (int + nat) \<times> 'k"
  sys_shutdown_wr :: "int \<Rightarrow> 'k \<Rightarrow> (int + unit) \<times> 'k"
  sys_close :: "int \<Rightarrow> 'k \<Rightarrow> (int + unit) \<times> 'k"
  sys_socket :: "'k \<Rightarrow> (int + int) \<times> 'k"
  sys_bind :: "int \<Rightarrow> sockaddr_in \<Rightarrow> 'k \<Rightarrow> (int + unit) \<times> 'k"
  sys_listen :: "int \<Rightarrow> nat \<Rightarrow> 'k \<Rightarrow> (int + unit) \<times> 'k"
  sys_accept4 :: "int \<Rightarrow> 'k \<Rightarrow> (int + int \<times> sockaddr_in) \<times> 'k"
  sys_setsockopt :: "int \<Rightarrow> sockopt \<Rightarrow> int \<Rightarrow> 'k \<Rightarrow> (int + unit) \<times> 'k"
  sys_so_error :: "int \<Rightarrow> 'k \<Rightarrow> (int + int) \<times> 'k"
  sys_getsockname :: "int \<Rightarrow> 'k \<Rightarrow> (int + sockaddr_in) \<times> 'k"
  sys_time :: "'k \<Rightarrow> int \<times> 'k"

section \<open>Error numbers\<close>

definition EINTR :: int where "EINTR = 4"
definition EWOULDBLOCK :: int where "EWOULDBLOCK = 11"
definition EMFILE :: int where "EMFILE = 24"
definition EPIPE :: int where "EPIPE = 32"
definition ECONNRESET :: int where "ECONNRESET = 104"

section \<open>Documented behaviour\<close>

text \<open>
  \<open>epoll_ctl\<close>. The view \<open>v k ep\<close> is the interest list of the instance \<open>ep\<close>: which descriptors are
  registered, with which mask and pointer. A successful ADD needs an unregistered descriptor, MOD and
  DEL a registered one; DEL of a registered descriptor succeeds; a failed call changes nothing, and
  no call touches another descriptor or another instance.
\<close>

definition epoll_ok ::
  "'k os \<Rightarrow> ('k \<Rightarrow> int \<Rightarrow> int \<Rightarrow> (32 word \<times> chan_ptr) option) \<Rightarrow> bool" where
  "epoll_ok os v \<longleftrightarrow> (\<forall>ep op fd ev p k r k'. sys_epoll_ctl os ep op fd ev p k = (r, k') \<longrightarrow>
     (\<forall>ep' fd'. (ep', fd') \<noteq> (ep, fd) \<longrightarrow> v k' ep' fd' = v k ep' fd') \<and>
     (case r of Inl _ \<Rightarrow> v k' ep fd = v k ep fd \<and> (op = EPOLL_CTL_DEL \<longrightarrow> v k ep fd = None)
      | Inr _ \<Rightarrow>
         (case op of
            EPOLL_CTL_ADD \<Rightarrow> v k ep fd = None \<and> v k' ep fd = Some (ev, p)
          | EPOLL_CTL_MOD \<Rightarrow> v k ep fd \<noteq> None \<and> v k' ep fd = Some (ev, p)
          | EPOLL_CTL_DEL \<Rightarrow> v k ep fd \<noteq> None \<and> v k' ep fd = None)))"

text \<open>\<open>write\<close> accepts a prefix of the bytes; \<open>q k fd\<close> is everything accepted on \<open>fd\<close> so far. It does
  not touch the interest lists.\<close>

definition write_ok :: "'k os \<Rightarrow> ('k \<Rightarrow> int \<Rightarrow> byte list) \<Rightarrow> bool" where
  "write_ok os q \<longleftrightarrow> (\<forall>fd d k r k'. sys_write os fd d k = (r, k') \<longrightarrow>
     (\<forall>fd'. fd' \<noteq> fd \<longrightarrow> q k' fd' = q k fd') \<and>
     (case r of Inl _ \<Rightarrow> q k' fd = q k fd
      | Inr n \<Rightarrow> n \<le> length d \<and> q k' fd = q k fd @ take n d))"

text \<open>Calls that leave an aspect of the system state (an interest list, the accepted bytes) alone.\<close>

definition ctl_keeps :: "'k os \<Rightarrow> ('k \<Rightarrow> 'a) \<Rightarrow> bool" where
  "ctl_keeps os f \<longleftrightarrow> (\<forall>ep op fd ev p k. f (snd (sys_epoll_ctl os ep op fd ev p k)) = f k)"

definition write_keeps :: "'k os \<Rightarrow> ('k \<Rightarrow> 'a) \<Rightarrow> bool" where
  "write_keeps os f \<longleftrightarrow> (\<forall>fd d k. f (snd (sys_write os fd d k)) = f k)"

text \<open>\<open>epoll_wait\<close> returns at most as many events as the array offered has room for.\<close>

definition wait_ok :: "'k os \<Rightarrow> bool" where
  "wait_ok os \<longleftrightarrow> (\<forall>ep n t k es k'. sys_epoll_wait os ep n t k = (Inr es, k') \<longrightarrow> length es \<le> n)"

lemma epoll_okD:
  assumes "epoll_ok os v" and "sys_epoll_ctl os ep op fd ev p k = (r, k')"
  shows "(ep', fd') \<noteq> (ep, fd) \<Longrightarrow> v k' ep' fd' = v k ep' fd'"
    and "r = Inl e \<Longrightarrow> v k' ep fd = v k ep fd"
    and "r = Inl e \<Longrightarrow> op = EPOLL_CTL_DEL \<Longrightarrow> v k ep fd = None"
    and "r = Inr u \<Longrightarrow> op = EPOLL_CTL_ADD \<Longrightarrow> v k ep fd = None \<and> v k' ep fd = Some (ev, p)"
    and "r = Inr u \<Longrightarrow> op = EPOLL_CTL_MOD \<Longrightarrow> v k ep fd \<noteq> None \<and> v k' ep fd = Some (ev, p)"
    and "r = Inr u \<Longrightarrow> op = EPOLL_CTL_DEL \<Longrightarrow> v k ep fd \<noteq> None \<and> v k' ep fd = None"
  using assms(1)[unfolded epoll_ok_def, rule_format, OF assms(2)] by auto

lemma wait_okD: "wait_ok os \<Longrightarrow> sys_epoll_wait os ep n t k = (Inr es, k') \<Longrightarrow> length es \<le> n"
  unfolding wait_ok_def by blast

lemma write_okD:
  assumes "write_ok os q" and "sys_write os fd d k = (r, k')"
  shows "fd' \<noteq> fd \<Longrightarrow> q k' fd' = q k fd'"
    and "r = Inl e \<Longrightarrow> q k' fd = q k fd"
    and "r = Inr n \<Longrightarrow> n \<le> length d"
    and "r = Inr n \<Longrightarrow> q k' fd = q k fd @ take n d"
  using assms(1)[unfolded write_ok_def, rule_format, OF assms(2)] by auto

section \<open>A system that behaves so\<close>

text \<open>
  \<open>toy_os\<close> is used in witnesses only. Its state holds the interest lists, the bytes accepted per
  descriptor, how many bytes the next write accepts, the input to deliver, the next events and the
  next new descriptor.
\<close>

record toy =
  interest :: "int \<Rightarrow> int \<Rightarrow> (32 word \<times> chan_ptr) option"
  accepted :: "int \<Rightarrow> byte list"
  window :: nat
  input :: "int \<Rightarrow> byte list"
  happening :: "(32 word \<times> chan_ptr) list"
  next_fd :: int

definition toy_ctl ::
  "int \<Rightarrow> ctl_op \<Rightarrow> int \<Rightarrow> 32 word \<Rightarrow> chan_ptr \<Rightarrow> toy \<Rightarrow> (int + unit) \<times> toy" where
  "toy_ctl ep op fd ev p k =
     (let set = (\<lambda>x. k\<lparr>interest := (interest k)(ep := (interest k ep)(fd := x))\<rparr>) in
      case (op, interest k ep fd) of
        (EPOLL_CTL_ADD, None) \<Rightarrow> (Inr (), set (Some (ev, p)))
      | (EPOLL_CTL_ADD, Some _) \<Rightarrow> (Inl 17, k)
      | (EPOLL_CTL_MOD, Some _) \<Rightarrow> (Inr (), set (Some (ev, p)))
      | (EPOLL_CTL_MOD, None) \<Rightarrow> (Inl 2, k)
      | (EPOLL_CTL_DEL, Some _) \<Rightarrow> (Inr (), set None)
      | (EPOLL_CTL_DEL, None) \<Rightarrow> (Inl 2, k))"

definition toy_write :: "int \<Rightarrow> byte list \<Rightarrow> toy \<Rightarrow> (int + nat) \<times> toy" where
  "toy_write fd d k =
     (if window k = 0 \<and> d \<noteq> [] then (Inl EWOULDBLOCK, k)
      else let n = min (window k) (length d) in
        (Inr n, k\<lparr>accepted := (accepted k)(fd := accepted k fd @ take n d)\<rparr>))"

definition toy_readv :: "int \<Rightarrow> nat list \<Rightarrow> toy \<Rightarrow> (int + byte list) \<times> toy" where
  "toy_readv fd lens k =
     (let n = sum_list lens in
      (Inr (take n (input k fd)), k\<lparr>input := (input k)(fd := drop n (input k fd))\<rparr>))"

definition toy_os :: "toy os" where
  "toy_os = \<lparr>
     sys_epoll_create = (\<lambda>k. (Inr (next_fd k), k\<lparr>next_fd := next_fd k + 1\<rparr>)),
     sys_epoll_ctl = toy_ctl,
     sys_epoll_wait = (\<lambda>ep n t k. (Inr (take n (happening k)), k\<lparr>happening := drop n (happening k)\<rparr>)),
     sys_eventfd = (\<lambda>k. (Inr (next_fd k), k\<lparr>next_fd := next_fd k + 1\<rparr>)),
     sys_read = (\<lambda>fd n k. (Inr (replicate n 0), k)),
     sys_readv = toy_readv,
     sys_write = toy_write,
     sys_shutdown_wr = (\<lambda>fd k. (Inr (), k)),
     sys_close = (\<lambda>fd k. (Inr (), k)),
     sys_socket = (\<lambda>k. (Inr (next_fd k), k\<lparr>next_fd := next_fd k + 1\<rparr>)),
     sys_bind = (\<lambda>fd a k. (Inr (), k)),
     sys_listen = (\<lambda>fd n k. (Inr (), k)),
     sys_accept4 = (\<lambda>fd k. (Inr (next_fd k, zero_sockaddr), k\<lparr>next_fd := next_fd k + 1\<rparr>)),
     sys_setsockopt = (\<lambda>fd opt x k. (Inr (), k)),
     sys_so_error = (\<lambda>fd k. (Inr 0, k)),
     sys_getsockname = (\<lambda>fd k. (Inr zero_sockaddr, k)),
     sys_time = (\<lambda>k. (0, k)) \<rparr>"

definition toy_start :: toy where
  "toy_start = \<lparr>interest = (\<lambda>_ _. None), accepted = (\<lambda>_. []), window = 3, input = (\<lambda>_. []),
     happening = [], next_fd = 100\<rparr>"

lemma toy_os_calls [simp]:
  "sys_epoll_ctl toy_os = toy_ctl" "sys_write toy_os = toy_write" "sys_readv toy_os = toy_readv"
  "sys_epoll_wait toy_os ep n t k = (Inr (take n (happening k)), k\<lparr>happening := drop n (happening k)\<rparr>)"
  "sys_time toy_os k = (0, k)" "sys_shutdown_wr toy_os fd k = (Inr (), k)"
  "sys_read toy_os fd n k = (Inr (replicate n 0), k)" "sys_close toy_os fd k = (Inr (), k)"
  by (simp_all add: toy_os_def)

lemma toy_epoll_ok: "epoll_ok toy_os interest"
  by (auto simp: epoll_ok_def toy_os_def toy_ctl_def Let_def split: ctl_op.splits option.splits)

lemma toy_write_ok: "write_ok toy_os accepted"
  by (auto simp: write_ok_def toy_os_def toy_write_def Let_def split: if_splits)

lemma toy_wait_ok: "wait_ok toy_os"
  by (auto simp: wait_ok_def toy_os_def)

lemma toy_ctl_keeps: "ctl_keeps toy_os accepted"
  by (auto simp: ctl_keeps_def toy_os_def toy_ctl_def Let_def split: ctl_op.splits option.splits)

lemma toy_write_keeps: "write_keeps toy_os interest"
  by (auto simp: write_keeps_def toy_os_def toy_write_def Let_def)

end
