(* ===== verification/Channel.thy ===== *)
theory Channel
  imports Os
begin

text \<open>
  The class \<open>Channel\<close> (\<open>src/channel.h\<close>, \<open>src/channel.cc\<close>): a descriptor with the events it is
  interested in, the events that happened, its state in the poller, and four callbacks. The event
  masks are 32-bit words with Linux's values. A callback is an optional value of an arbitrary type
  \<open>'cb\<close> (\<open>None\<close> for an empty \<open>std::function\<close>), and calling it is the parameter \<open>run\<close>; the calls into
  the loop are parameters too, so that the class can be stated before the poller is. \<open>tie_\<close> is the
  \<open>weak_ptr\<close> to the owner, given by a number; locking it is the parameter \<open>alive\<close>.
\<close>

section \<open>Event masks and poller states\<close>

definition EPOLLIN :: "32 word" where "EPOLLIN = 1"
definition EPOLLPRI :: "32 word" where "EPOLLPRI = 2"
definition EPOLLOUT :: "32 word" where "EPOLLOUT = 4"
definition EPOLLERR :: "32 word" where "EPOLLERR = 8"
definition EPOLLHUP :: "32 word" where "EPOLLHUP = 16"

definition kReadable :: "32 word" where "kReadable = EPOLLIN OR EPOLLPRI"
definition kWritable :: "32 word" where "kWritable = EPOLLOUT"
definition kNoneEvent :: "32 word" where "kNoneEvent = 0"

definition kChannelInitialized :: int where "kChannelInitialized = -1"
definition kChannelAdded :: int where "kChannelAdded = 1"
definition kChannelRemoved :: int where "kChannelRemoved = 2"

lemmas event_masks = EPOLLIN_def EPOLLPRI_def EPOLLOUT_def EPOLLERR_def EPOLLHUP_def
  kReadable_def kWritable_def kNoneEvent_def

lemmas chan_states = kChannelInitialized_def kChannelAdded_def kChannelRemoved_def

section \<open>The class\<close>

record 'cb channel =
  ch_loop :: nat
  ch_fd :: int
  ch_events :: "32 word"
  ch_revents :: "32 word"
  ch_state :: int
  ch_tie :: "nat option"
  ch_tied :: bool
  read_callback :: "'cb option"
  write_callback :: "'cb option"
  ch_close_callback :: "'cb option"
  error_callback :: "'cb option"

definition Channel_new :: "nat \<Rightarrow> int \<Rightarrow> 'cb channel" where
  "Channel_new loop fd =
     \<lparr>ch_loop = loop, ch_fd = fd, ch_events = 0, ch_revents = 0, ch_state = -1,
      ch_tie = None, ch_tied = False,
      read_callback = None, write_callback = None, ch_close_callback = None,
      error_callback = None\<rparr>"

definition setReadCallback :: "'cb \<Rightarrow> 'cb channel \<Rightarrow> 'cb channel" where
  "setReadCallback cb ch = ch\<lparr>read_callback := Some cb\<rparr>"

definition setWriteCallback :: "'cb \<Rightarrow> 'cb channel \<Rightarrow> 'cb channel" where
  "setWriteCallback cb ch = ch\<lparr>write_callback := Some cb\<rparr>"

definition setCloseCallback :: "'cb \<Rightarrow> 'cb channel \<Rightarrow> 'cb channel" where
  "setCloseCallback cb ch = ch\<lparr>ch_close_callback := Some cb\<rparr>"

definition setErrorCallback :: "'cb \<Rightarrow> 'cb channel \<Rightarrow> 'cb channel" where
  "setErrorCallback cb ch = ch\<lparr>error_callback := Some cb\<rparr>"

definition tie :: "nat \<Rightarrow> 'cb channel \<Rightarrow> 'cb channel" where
  "tie obj ch = ch\<lparr>ch_tie := Some obj, ch_tied := True\<rparr>"

definition setRevents :: "32 word \<Rightarrow> 'cb channel \<Rightarrow> 'cb channel" where
  "setRevents revents ch = ch\<lparr>ch_revents := revents\<rparr>"

definition isWriteSet :: "'cb channel \<Rightarrow> bool" where
  "isWriteSet ch \<longleftrightarrow> ch_events ch AND kWritable \<noteq> 0"

definition isReadSet :: "'cb channel \<Rightarrow> bool" where
  "isReadSet ch \<longleftrightarrow> ch_events ch AND kReadable \<noteq> 0"

definition isSilent :: "'cb channel \<Rightarrow> bool" where
  "isSilent ch \<longleftrightarrow> ch_events ch = kNoneEvent"

definition setState :: "int \<Rightarrow> 'cb channel \<Rightarrow> 'cb channel" where
  "setState st ch = ch\<lparr>ch_state := st\<rparr>"

text \<open>The interest setters; \<open>update\<close> is \<open>loop_->updateChannel(this)\<close>.\<close>

definition enableReadEvent :: "('cb channel \<Rightarrow> 'r) \<Rightarrow> 'cb channel \<Rightarrow> 'r" where
  "enableReadEvent update ch = update (ch\<lparr>ch_events := ch_events ch OR kReadable\<rparr>)"

definition disableReadEvent :: "('cb channel \<Rightarrow> 'r) \<Rightarrow> 'cb channel \<Rightarrow> 'r" where
  "disableReadEvent update ch = update (ch\<lparr>ch_events := ch_events ch AND NOT kReadable\<rparr>)"

definition enableWriteEvent :: "('cb channel \<Rightarrow> 'r) \<Rightarrow> 'cb channel \<Rightarrow> 'r" where
  "enableWriteEvent update ch = update (ch\<lparr>ch_events := ch_events ch OR kWritable\<rparr>)"

definition disableWriteEvent :: "('cb channel \<Rightarrow> 'r) \<Rightarrow> 'cb channel \<Rightarrow> 'r" where
  "disableWriteEvent update ch = update (ch\<lparr>ch_events := ch_events ch AND NOT kWritable\<rparr>)"

definition disableAllEvent :: "('cb channel \<Rightarrow> 'r) \<Rightarrow> 'cb channel \<Rightarrow> 'r" where
  "disableAllEvent update ch = update (ch\<lparr>ch_events := kNoneEvent\<rparr>)"

text \<open>
  \<open>handleEventWithGuard\<close>. In the third test the source reads \<open>revents_ & EPOLLIN | EPOLLPRI\<close>, which
  C++ parses as \<open>(revents_ & EPOLLIN) | EPOLLPRI\<close>.
\<close>

definition call_if :: "('cb \<Rightarrow> 'w \<Rightarrow> 'w res) \<Rightarrow> 'cb option \<Rightarrow> 'w \<Rightarrow> 'w res" where
  "call_if run cb w = (case cb of None \<Rightarrow> Inr w | Some f \<Rightarrow> run f w)"

definition handleEventWithGuard :: "('cb \<Rightarrow> 'w \<Rightarrow> 'w res) \<Rightarrow> 'cb channel \<Rightarrow> 'w \<Rightarrow> 'w res" where
  "handleEventWithGuard run ch w =
     (let revents = ch_revents ch in
      bind_res
        (if revents AND EPOLLHUP \<noteq> 0 \<and> \<not> (revents AND EPOLLIN \<noteq> 0)
         then call_if run (ch_close_callback ch) w else Inr w) (\<lambda>w.
      bind_res
        (if revents AND EPOLLERR \<noteq> 0 then call_if run (error_callback ch) w else Inr w) (\<lambda>w.
      bind_res
        (if (revents AND EPOLLIN) OR EPOLLPRI \<noteq> 0
         then call_if run (read_callback ch) w else Inr w) (\<lambda>w.
        (if revents AND EPOLLOUT \<noteq> 0 then call_if run (write_callback ch) w else Inr w)))))"

definition handleEvent ::
  "('w \<Rightarrow> nat \<Rightarrow> bool) \<Rightarrow> ('cb \<Rightarrow> 'w \<Rightarrow> 'w res) \<Rightarrow> 'cb channel \<Rightarrow> 'w \<Rightarrow> 'w res" where
  "handleEvent alive run ch w =
     (if ch_tied ch
      then (case ch_tie ch of
              None \<Rightarrow> Inr w
            | Some obj \<Rightarrow> if alive w obj then handleEventWithGuard run ch w else Inr w)
      else handleEventWithGuard run ch w)"

section \<open>Lemmas\<close>

text \<open>The callbacks an event mask calls, in their order.\<close>

definition dispatch :: "'cb channel \<Rightarrow> 'cb list" where
  "dispatch ch =
     (if ch_revents ch AND EPOLLHUP \<noteq> 0 \<and> ch_revents ch AND EPOLLIN = 0
      then case_option [] (\<lambda>f. [f]) (ch_close_callback ch) else [])
     @ (if ch_revents ch AND EPOLLERR \<noteq> 0 then case_option [] (\<lambda>f. [f]) (error_callback ch) else [])
     @ case_option [] (\<lambda>f. [f]) (read_callback ch)
     @ (if ch_revents ch AND EPOLLOUT \<noteq> 0 then case_option [] (\<lambda>f. [f]) (write_callback ch) else [])"

lemma read_test_always: "(x AND EPOLLIN) OR EPOLLPRI \<noteq> 0"
proof
  assume "(x AND EPOLLIN) OR EPOLLPRI = 0"
  then have "bit ((x AND EPOLLIN) OR EPOLLPRI) 1 = bit (0 :: 32 word) 1" by simp
  then show False by (simp add: event_masks bit_simps)
qed

lemma set_case_option_list: "set (case_option [] (\<lambda>f. [f]) cb) = set_option cb"
  by (cases cb) simp_all

lemma call_if_fold: "call_if run cb w = fold_res run (case_option [] (\<lambda>f. [f]) cb) w"
  by (simp add: call_if_def split: option.splits)

lemma handleEventWithGuard_dispatch:
  "handleEventWithGuard run ch w = fold_res run (dispatch ch) w"
  unfolding handleEventWithGuard_def dispatch_def Let_def
  by (simp add: read_test_always fold_res_append call_if_fold cong: bind_res_cong)

lemma masks_power:
  "EPOLLIN = 2 ^ 0" "EPOLLPRI = 2 ^ 1" "EPOLLOUT = 2 ^ 2" "EPOLLERR = 2 ^ 3" "EPOLLHUP = 2 ^ 4"
  by (simp_all add: event_masks)

lemma mask_test:
  "x AND EPOLLIN = 0 \<longleftrightarrow> \<not> bit x 0" "x AND EPOLLPRI = 0 \<longleftrightarrow> \<not> bit x 1"
  "x AND EPOLLOUT = 0 \<longleftrightarrow> \<not> bit x 2" "x AND EPOLLERR = 0 \<longleftrightarrow> \<not> bit x 3"
  "x AND EPOLLHUP = 0 \<longleftrightarrow> \<not> bit x 4"
  unfolding masks_power by (simp_all only: and_exp_eq_0_iff_not_bit)

lemma bit_mask_iff: "m < 32 \<Longrightarrow> bit (2 ^ m :: 32 word) n \<longleftrightarrow> n = m"
  by (auto simp: bit_exp_iff)

lemma bit_kWritable [simp]: "bit kWritable n \<longleftrightarrow> n = 2"
  unfolding kWritable_def masks_power by (rule bit_mask_iff) simp

lemma bit_kReadable [simp]: "bit kReadable n \<longleftrightarrow> n = 0 \<or> n = 1"
proof -
  have "bit (2 ^ 0 :: 32 word) n \<longleftrightarrow> n = 0" and "bit (2 ^ 1 :: 32 word) n \<longleftrightarrow> n = 1"
    by (rule bit_mask_iff, simp)+
  then show ?thesis
    unfolding kReadable_def masks_power bit_or_iff by blast
qed

lemma bit_kNoneEvent [simp]: "\<not> bit kNoneEvent n"
  by (simp add: kNoneEvent_def)

lemma isWriteSet_bit: "isWriteSet ch \<longleftrightarrow> bit (ch_events ch) 2"
  by (simp add: isWriteSet_def kWritable_def mask_test)

lemma isReadSet_bit: "isReadSet ch \<longleftrightarrow> bit (ch_events ch) 0 \<or> bit (ch_events ch) 1"
proof -
  have "ch_events ch AND kReadable = 0 \<longleftrightarrow> ch_events ch AND EPOLLIN = 0 \<and> ch_events ch AND EPOLLPRI = 0"
    by (simp add: kReadable_def bit.conj_disj_distrib or_eq_0_iff)
  then show ?thesis by (auto simp: isReadSet_def mask_test)
qed

lemma isSilent_not_set: "isSilent ch \<Longrightarrow> \<not> isWriteSet ch \<and> \<not> isReadSet ch"
  by (simp add: isSilent_def isWriteSet_bit isReadSet_bit)

lemma set_dispatch:
  "set (dispatch ch) =
       set_option (read_callback ch)
       \<union> (if bit (ch_revents ch) 4 \<and> \<not> bit (ch_revents ch) 0
           then set_option (ch_close_callback ch) else {})
       \<union> (if bit (ch_revents ch) 3 then set_option (error_callback ch) else {})
       \<union> (if bit (ch_revents ch) 2 then set_option (write_callback ch) else {})"
proof -
  have set_if: "set (if b then xs else []) = (if b then set xs else {})" for b and xs :: "'a list"
    by simp
  show ?thesis
    unfolding dispatch_def set_append set_if set_case_option_list mask_test not_not
    by (simp only: Un_ac)
qed

section \<open>Properties\<close>

text \<open>C37. \<open>handleEvent\<close> calls the callbacks of \<open>dispatch\<close>, in that order and stopping at the first
  that fails: close on a hang-up without input, then error, then read, then write; and it calls
  none of them when the channel is tied to an owner that no longer exists. The read callback is
  called for every event mask whatever, because the test of the source is constantly true.\<close>

theorem handleEvent_dispatches:
  "handleEvent alive run ch w =
     (if ch_tied ch \<and> (case ch_tie ch of None \<Rightarrow> True | Some obj \<Rightarrow> \<not> alive w obj) then Inr w
      else fold_res run (dispatch ch) w)
   \<and> set (dispatch ch) =
       set_option (read_callback ch)
       \<union> (if bit (ch_revents ch) 4 \<and> \<not> bit (ch_revents ch) 0
           then set_option (ch_close_callback ch) else {})
       \<union> (if bit (ch_revents ch) 3 then set_option (error_callback ch) else {})
       \<union> (if bit (ch_revents ch) 2 then set_option (write_callback ch) else {})"
proof (intro conjI)
  show "handleEvent alive run ch w =
     (if ch_tied ch \<and> (case ch_tie ch of None \<Rightarrow> True | Some obj \<Rightarrow> \<not> alive w obj) then Inr w
      else fold_res run (dispatch ch) w)"
    by (simp add: handleEvent_def handleEventWithGuard_dispatch split: option.splits)
  show "set (dispatch ch) =
       set_option (read_callback ch)
       \<union> (if bit (ch_revents ch) 4 \<and> \<not> bit (ch_revents ch) 0
           then set_option (ch_close_callback ch) else {})
       \<union> (if bit (ch_revents ch) 3 then set_option (error_callback ch) else {})
       \<union> (if bit (ch_revents ch) 2 then set_option (write_callback ch) else {})"
    by (rule set_dispatch)
qed

text \<open>A pure write event, which is what \<open>EPOLLOUT\<close> interest waits for, runs the read callback
  before the write callback; a hang-up runs close and then read.\<close>

theorem write_event_reads_first:
  "handleEvent alive run
     (setRevents EPOLLOUT (setReadCallback r (setWriteCallback wr (Channel_new l fd)))) w
     = bind_res (run r w) (run wr)
   \<and> handleEvent alive run
     (setRevents EPOLLHUP (setReadCallback r (setCloseCallback c (Channel_new l fd)))) w
     = bind_res (run c w) (run r)"
  by (simp add: handleEvent_def handleEventWithGuard_dispatch dispatch_def setRevents_def
      setReadCallback_def setWriteCallback_def setCloseCallback_def Channel_new_def event_masks)

text \<open>The interest setters: enabling and disabling one direction changes that direction only, and
  disabling everything makes the channel silent; each hands the changed channel to the loop.\<close>

theorem interest_setters:
  "isWriteSet (enableWriteEvent id ch) \<and> (isReadSet (enableWriteEvent id ch) \<longleftrightarrow> isReadSet ch)
   \<and> \<not> isWriteSet (disableWriteEvent id ch) \<and> (isReadSet (disableWriteEvent id ch) \<longleftrightarrow> isReadSet ch)
   \<and> isReadSet (enableReadEvent id ch) \<and> (isWriteSet (enableReadEvent id ch) \<longleftrightarrow> isWriteSet ch)
   \<and> \<not> isReadSet (disableReadEvent id ch) \<and> (isWriteSet (disableReadEvent id ch) \<longleftrightarrow> isWriteSet ch)
   \<and> isSilent (disableAllEvent id ch)
   \<and> enableWriteEvent update ch = update (enableWriteEvent id ch)
   \<and> disableWriteEvent update ch = update (disableWriteEvent id ch)"
  by (auto simp: isWriteSet_bit isReadSet_bit isSilent_def enableWriteEvent_def
      disableWriteEvent_def enableReadEvent_def disableReadEvent_def disableAllEvent_def bit_simps)

end
