(* ===== verification/EpollPoller.thy ===== *)
theory EpollPoller
  imports Channel
begin

text \<open>
  The classes \<open>Poller\<close> and \<open>EpollPoller\<close> (\<open>src/poller.h\<close>, \<open>src/poller.cc\<close>, \<open>src/default_poller.h\<close>,
  \<open>src/epoll_poller.h\<close>, \<open>src/epoll_poller.cc\<close>): the map from descriptors to channels, the size of
  the event array, and the epoll instance. The interest list itself lives in the system; a state of
  this theory is therefore a triple of the system, the poller and the channel an operation is
  called on.
\<close>

section \<open>The class\<close>

text \<open>The base class has the map; its pointer to the owner is never read and left out.\<close>

record base_poller =
  channels :: "int \<Rightarrow> chan_ptr option"

record epoll_poller = base_poller +
  epollfd :: int
  events_size :: nat

definition kDefaultChannelListSize :: nat where
  "kDefaultChannelListSize = 16"

definition EpollPoller_new :: "'k os \<Rightarrow> 'k \<Rightarrow> ('k \<times> epoll_poller) res" where
  "EpollPoller_new os k =
     (case sys_epoll_create os k of
        (Inl _, k') \<Rightarrow> Inl FatalExit
      | (Inr fd, k') \<Rightarrow>
          Inr (k', \<lparr>channels = Map.empty, epollfd = fd, events_size = kDefaultChannelListSize\<rparr>))"

definition EpollPoller_destroy :: "'k os \<Rightarrow> 'k \<times> epoll_poller \<Rightarrow> 'k" where
  "EpollPoller_destroy os s = (case s of (k, po) \<Rightarrow> snd (sys_close os (epollfd po) k))"

text \<open>\<open>Poller::newDefaultPoller\<close>: the environment variables select pollers that do not exist.\<close>

definition newDefaultPoller ::
  "'k os \<Rightarrow> (string \<Rightarrow> string option) \<Rightarrow> 'k \<Rightarrow> ('k \<times> epoll_poller option) res" where
  "newDefaultPoller os getenv k =
     (if getenv ''USE_POLL'' \<noteq> None then Inr (k, None)
      else if getenv ''USE_SELECT'' \<noteq> None then Inr (k, None)
      else if getenv ''USE_KQUEUE'' \<noteq> None then Inr (k, None)
      else bind_res (EpollPoller_new os k) (\<lambda>(k', po). Inr (k', Some po)))"

definition poller_isChannelExist :: "epoll_poller \<Rightarrow> chan_ptr \<Rightarrow> 'cb channel \<Rightarrow> bool" where
  "poller_isChannelExist po p ch \<longleftrightarrow> channels po (ch_fd ch) = Some p"

type_synonym ('k, 'cb) poll_state = "'k \<times> epoll_poller \<times> 'cb channel"

definition epoll_update ::
  "'k os \<Rightarrow> ctl_op \<Rightarrow> chan_ptr \<Rightarrow> ('k, 'cb) poll_state \<Rightarrow> ('k, 'cb) poll_state res" where
  "epoll_update os operation p s =
     (case s of (k, po, ch) \<Rightarrow>
        (case sys_epoll_ctl os (epollfd po) operation (ch_fd ch) (ch_events ch) p k of
           (Inl _, k') \<Rightarrow>
             if operation = EPOLL_CTL_DEL then Inr (k', po, ch) else Inl FatalExit
         | (Inr _, k') \<Rightarrow> Inr (k', po, ch)))"

definition updateChannel ::
  "'k os \<Rightarrow> chan_ptr \<Rightarrow> ('k, 'cb) poll_state \<Rightarrow> ('k, 'cb) poll_state res" where
  "updateChannel os p s =
     (case s of (k, po, ch) \<Rightarrow>
      let st = ch_state ch in
      if st = kChannelInitialized \<or> st = kChannelRemoved then
        let po = (if st = kChannelInitialized
                  then po\<lparr>channels := (channels po)(ch_fd ch \<mapsto> p)\<rparr> else po)
        in epoll_update os EPOLL_CTL_ADD p (k, po, setState kChannelAdded ch)
      else if isSilent ch then
        bind_res (epoll_update os EPOLL_CTL_DEL p (k, po, ch)) (\<lambda>(k, po, ch).
          Inr (k, po, setState kChannelRemoved ch))
      else epoll_update os EPOLL_CTL_MOD p (k, po, ch))"

definition removeChannel ::
  "'k os \<Rightarrow> chan_ptr \<Rightarrow> ('k, 'cb) poll_state \<Rightarrow> ('k, 'cb) poll_state res" where
  "removeChannel os p s =
     (case s of (k, po, ch) \<Rightarrow>
      let po = po\<lparr>channels := (channels po)(ch_fd ch := None)\<rparr>; st = ch_state ch in
      bind_res
        (if st = kChannelAdded then epoll_update os EPOLL_CTL_DEL p (k, po, ch)
         else Inr (k, po, ch)) (\<lambda>(k, po, ch).
        Inr (k, po, setState kChannelInitialized ch)))"

text \<open>
  \<open>poll\<close>: the events reported (in order), the time, and the growth of the event array when it came
  back full. \<open>triggerChannels\<close> dereferences the pointers: \<open>set_revents\<close> is the store of the caller.
\<close>

definition poller_poll ::
  "'k os \<Rightarrow> int \<Rightarrow> 'k \<times> epoll_poller \<Rightarrow>
   ('k \<times> epoll_poller \<times> (32 word \<times> chan_ptr) list \<times> int) res" where
  "poller_poll os timeout s =
     (case s of (k, po) \<Rightarrow>
      case sys_epoll_wait os (epollfd po) (events_size po) timeout k of (r, k1) \<Rightarrow>
      case sys_time os k1 of (now_state, k2) \<Rightarrow>
      (case r of
         Inl _ \<Rightarrow> Inr (k2, po, [], now_state)
       | Inr events \<Rightarrow>
           if events_size po < length events then Inl OutOfBounds
           else if 0 < length events \<and> length events = events_size po
           then Inr (k2, po\<lparr>events_size := events_size po * 2\<rparr>, events, now_state)
           else Inr (k2, po, events, now_state)))"

fun triggerChannels ::
  "(chan_ptr \<Rightarrow> 32 word \<Rightarrow> 'w \<Rightarrow> 'w res) \<Rightarrow> (32 word \<times> chan_ptr) list \<Rightarrow> chan_ptr list \<Rightarrow> 'w \<Rightarrow>
   ('w \<times> chan_ptr list) res" where
  "triggerChannels set_revents [] active w = Inr (w, active)"
| "triggerChannels set_revents ((ev, p) # es) active w =
     bind_res (set_revents p ev w) (triggerChannels set_revents es (active @ [p]))"

section \<open>Agreement of the poller, the kernel and the channel\<close>

text \<open>
  \<open>chan_reg\<close>: the state of the channel says what the channel map and the interest list hold for its
  descriptor. \<open>chan_sync\<close>: moreover the kernel waits for exactly the events of the channel.
\<close>

definition chan_reg ::
  "('k \<Rightarrow> int \<Rightarrow> int \<Rightarrow> (32 word \<times> chan_ptr) option) \<Rightarrow> chan_ptr \<Rightarrow> ('k, 'cb) poll_state \<Rightarrow> bool" where
  "chan_reg v p s \<longleftrightarrow> (case s of (k, po, ch) \<Rightarrow>
     let reg = channels po (ch_fd ch); seen = v k (epollfd po) (ch_fd ch) in
       ch_state ch = kChannelInitialized \<and> reg = None \<and> seen = None
     \<or> ch_state ch = kChannelRemoved \<and> reg = Some p \<and> seen = None
     \<or> ch_state ch = kChannelAdded \<and> reg = Some p \<and> (\<exists>ev. seen = Some (ev, p)))"

definition chan_sync ::
  "('k \<Rightarrow> int \<Rightarrow> int \<Rightarrow> (32 word \<times> chan_ptr) option) \<Rightarrow> chan_ptr \<Rightarrow> ('k, 'cb) poll_state \<Rightarrow> bool" where
  "chan_sync v p s \<longleftrightarrow> chan_reg v p s \<and> (case s of (k, po, ch) \<Rightarrow>
     ch_state ch = kChannelAdded \<longrightarrow> v k (epollfd po) (ch_fd ch) = Some (ch_events ch, p))"

text \<open>The registration calls that may legitimately be made do succeed.\<close>

definition epoll_total ::
  "'k os \<Rightarrow> ('k \<Rightarrow> int \<Rightarrow> int \<Rightarrow> (32 word \<times> chan_ptr) option) \<Rightarrow> bool" where
  "epoll_total os v \<longleftrightarrow> (\<forall>ep fd ev p k.
     (v k ep fd = None \<longrightarrow> (\<exists>k'. sys_epoll_ctl os ep EPOLL_CTL_ADD fd ev p k = (Inr (), k'))) \<and>
     (v k ep fd \<noteq> None \<longrightarrow> (\<exists>k'. sys_epoll_ctl os ep EPOLL_CTL_MOD fd ev p k = (Inr (), k'))))"

definition next_state :: "'cb channel \<Rightarrow> int" where
  "next_state ch = (if ch_state ch = kChannelAdded \<and> isSilent ch then kChannelRemoved else kChannelAdded)"

text \<open>What an operation on one channel leaves alone: every other descriptor and epoll instance.\<close>

definition poll_frame ::
  "('k \<Rightarrow> int \<Rightarrow> int \<Rightarrow> (32 word \<times> chan_ptr) option) \<Rightarrow>
   ('k, 'cb) poll_state \<Rightarrow> ('k, 'cb) poll_state \<Rightarrow> bool" where
  "poll_frame v s s' \<longleftrightarrow> (case (s, s') of ((k, po, ch), (k', po', ch')) \<Rightarrow>
     epollfd po' = epollfd po \<and> events_size po' = events_size po \<and> ch_fd ch' = ch_fd ch
     \<and> (\<forall>fd. fd \<noteq> ch_fd ch \<longrightarrow> channels po' fd = channels po fd)
     \<and> (\<forall>ep fd. (ep, fd) \<noteq> (epollfd po, ch_fd ch) \<longrightarrow> v k' ep fd = v k ep fd))"

lemma setState_simps [simp]:
  "ch_state (setState st ch) = st" "ch_fd (setState st ch) = ch_fd ch"
  "ch_events (setState st ch) = ch_events ch"
  "isSilent (setState st ch) = isSilent ch" "isWriteSet (setState st ch) = isWriteSet ch"
  "isReadSet (setState st ch) = isReadSet ch"
  by (simp_all add: setState_def isSilent_def isWriteSet_def isReadSet_def)

lemma chan_states_distinct [simp]:
  "kChannelInitialized \<noteq> kChannelAdded" "kChannelAdded \<noteq> kChannelInitialized"
  "kChannelRemoved \<noteq> kChannelAdded" "kChannelAdded \<noteq> kChannelRemoved"
  "kChannelInitialized \<noteq> kChannelRemoved" "kChannelRemoved \<noteq> kChannelInitialized"
  by (simp_all add: chan_states)

lemma chan_reg_simp:
  "chan_reg v p (k, po, ch) \<longleftrightarrow>
     (ch_state ch = kChannelInitialized \<and> channels po (ch_fd ch) = None
        \<and> v k (epollfd po) (ch_fd ch) = None
     \<or> ch_state ch = kChannelRemoved \<and> channels po (ch_fd ch) = Some p
        \<and> v k (epollfd po) (ch_fd ch) = None
     \<or> ch_state ch = kChannelAdded \<and> channels po (ch_fd ch) = Some p
        \<and> (\<exists>ev. v k (epollfd po) (ch_fd ch) = Some (ev, p)))"
  by (simp add: chan_reg_def Let_def)

lemma chan_reg_events: "chan_reg v p (k, po, ch\<lparr>ch_events := ev\<rparr>) \<longleftrightarrow> chan_reg v p (k, po, ch)"
  by (simp add: chan_reg_simp)

lemma epoll_update_add:
  assumes "epoll_ok os v" and "epoll_total os v" and "v k (epollfd po) (ch_fd ch) = None"
  shows "\<exists>k'. epoll_update os EPOLL_CTL_ADD p (k, po, ch) = Inr (k', po, ch)
    \<and> v k' (epollfd po) (ch_fd ch) = Some (ch_events ch, p)
    \<and> (\<forall>ep fd. (ep, fd) \<noteq> (epollfd po, ch_fd ch) \<longrightarrow> v k' ep fd = v k ep fd)"
proof -
  obtain k' where k': "sys_epoll_ctl os (epollfd po) EPOLL_CTL_ADD (ch_fd ch) (ch_events ch) p k
      = (Inr (), k')"
    using assms(2,3) unfolding epoll_total_def by blast
  show ?thesis
    using epoll_okD(1) [OF assms(1) k'] epoll_okD(4) [OF assms(1) k'] k'
    by (auto simp: epoll_update_def)
qed

lemma epoll_update_mod:
  assumes "epoll_ok os v" and "epoll_total os v" and "v k (epollfd po) (ch_fd ch) \<noteq> None"
  shows "\<exists>k'. epoll_update os EPOLL_CTL_MOD p (k, po, ch) = Inr (k', po, ch)
    \<and> v k' (epollfd po) (ch_fd ch) = Some (ch_events ch, p)
    \<and> (\<forall>ep fd. (ep, fd) \<noteq> (epollfd po, ch_fd ch) \<longrightarrow> v k' ep fd = v k ep fd)"
proof -
  obtain k' where k': "sys_epoll_ctl os (epollfd po) EPOLL_CTL_MOD (ch_fd ch) (ch_events ch) p k
      = (Inr (), k')"
    using assms(2,3) unfolding epoll_total_def by blast
  show ?thesis
    using epoll_okD(1) [OF assms(1) k'] epoll_okD(5) [OF assms(1) k'] k'
    by (auto simp: epoll_update_def)
qed

lemma epoll_update_del:
  assumes "epoll_ok os v"
  shows "\<exists>k'. epoll_update os EPOLL_CTL_DEL p (k, po, ch) = Inr (k', po, ch)
    \<and> v k' (epollfd po) (ch_fd ch) = None
    \<and> (\<forall>ep fd. (ep, fd) \<noteq> (epollfd po, ch_fd ch) \<longrightarrow> v k' ep fd = v k ep fd)"
proof -
  obtain r k' where k': "sys_epoll_ctl os (epollfd po) EPOLL_CTL_DEL (ch_fd ch) (ch_events ch) p k
      = (r, k')" by fastforce
  note D = epoll_okD [OF assms k']
  show ?thesis
    using D(1) D(2) D(3) D(6) k' by (cases r) (auto simp: epoll_update_def)
qed

lemma updateChannel_sync:
  assumes ok: "epoll_ok os v" "epoll_total os v" and reg: "chan_reg v p (k, po, ch)"
  shows "\<exists>k' po'. updateChannel os p (k, po, ch) = Inr (k', po', setState (next_state ch) ch)
    \<and> chan_sync v p (k', po', setState (next_state ch) ch)
    \<and> poll_frame v (k, po, ch) (k', po', setState (next_state ch) ch)"
proof -
  let ?po = "po\<lparr>channels := (channels po)(ch_fd ch \<mapsto> p)\<rparr>"
  let ?added = "setState kChannelAdded ch"
  from reg consider
      (init) "ch_state ch = kChannelInitialized" "channels po (ch_fd ch) = None"
        "v k (epollfd po) (ch_fd ch) = None"
    | (removed) "ch_state ch = kChannelRemoved" "channels po (ch_fd ch) = Some p"
        "v k (epollfd po) (ch_fd ch) = None"
    | (added) ev where "ch_state ch = kChannelAdded" "channels po (ch_fd ch) = Some p"
        "v k (epollfd po) (ch_fd ch) = Some (ev, p)"
    by (auto simp: chan_reg_simp)
  then show ?thesis
  proof cases
    case init
    then show ?thesis
      using epoll_update_add [OF ok, of k ?po ?added p]
      by (auto simp: updateChannel_def next_state_def chan_sync_def chan_reg_simp poll_frame_def)
  next
    case removed
    then show ?thesis
      using epoll_update_add [OF ok, of k po ?added p]
      by (auto simp: updateChannel_def next_state_def chan_sync_def chan_reg_simp poll_frame_def)
  next
    case added
    then have same: "ch\<lparr>ch_state := kChannelAdded\<rparr> = ch" by simp
    show ?thesis
      using added epoll_update_del [OF ok(1), of p k po ch]
        epoll_update_mod [OF ok, of k po ch p]
      by (cases "isSilent ch")
         (auto simp: updateChannel_def next_state_def chan_sync_def chan_reg_simp poll_frame_def
            setState_def same)
  qed
qed

lemma removeChannel_sync:
  assumes ok: "epoll_ok os v" and reg: "chan_reg v p (k, po, ch)"
  shows "\<exists>k' po'. removeChannel os p (k, po, ch) = Inr (k', po', setState kChannelInitialized ch)
    \<and> chan_sync v p (k', po', setState kChannelInitialized ch)
    \<and> poll_frame v (k, po, ch) (k', po', setState kChannelInitialized ch)"
  using reg epoll_update_del [OF ok, of p k "po\<lparr>channels := (channels po)(ch_fd ch := None)\<rparr>" ch]
  by (auto simp: removeChannel_def chan_sync_def chan_reg_simp poll_frame_def)

section \<open>Sequences of channel operations\<close>

datatype chan_op = EnableRead | DisableRead | EnableWrite | DisableWrite | DisableAll | Remove

fun chan_step ::
  "'k os \<Rightarrow> chan_ptr \<Rightarrow> chan_op \<Rightarrow> ('k, 'cb) poll_state \<Rightarrow> ('k, 'cb) poll_state res" where
  "chan_step os p EnableRead (k, po, ch) = enableReadEvent (\<lambda>ch. updateChannel os p (k, po, ch)) ch"
| "chan_step os p DisableRead (k, po, ch) = disableReadEvent (\<lambda>ch. updateChannel os p (k, po, ch)) ch"
| "chan_step os p EnableWrite (k, po, ch) = enableWriteEvent (\<lambda>ch. updateChannel os p (k, po, ch)) ch"
| "chan_step os p DisableWrite (k, po, ch) = disableWriteEvent (\<lambda>ch. updateChannel os p (k, po, ch)) ch"
| "chan_step os p DisableAll (k, po, ch) = disableAllEvent (\<lambda>ch. updateChannel os p (k, po, ch)) ch"
| "chan_step os p Remove (k, po, ch) = removeChannel os p (k, po, ch)"

fun op_mask :: "chan_op \<Rightarrow> 32 word \<Rightarrow> 32 word" where
  "op_mask EnableRead m = m OR kReadable"
| "op_mask DisableRead m = m AND NOT kReadable"
| "op_mask EnableWrite m = m OR kWritable"
| "op_mask DisableWrite m = m AND NOT kWritable"
| "op_mask DisableAll m = kNoneEvent"
| "op_mask Remove m = m"

definition mask_of :: "('k, 'cb) poll_state \<Rightarrow> 32 word" where
  "mask_of s = ch_events (snd (snd s))"

text \<open>
  What the users of a channel rely on: whatever they call, the registration follows. \<open>reg\<close> is the
  weak agreement that holds at all times, \<open>sync\<close> the strong one after an operation, \<open>frame\<close> says
  that other channels are not disturbed.
\<close>

locale channel_registry =
  fixes step :: "'op \<Rightarrow> 's \<Rightarrow> 's res"
    and effect :: "'op \<Rightarrow> 32 word \<Rightarrow> 32 word"
    and mask :: "'s \<Rightarrow> 32 word"
    and reg :: "'s \<Rightarrow> bool"
    and sync :: "'s \<Rightarrow> bool"
    and frame :: "'s \<Rightarrow> 's \<Rightarrow> bool"
  assumes step_law: "reg s \<Longrightarrow>
      \<exists>s'. step x s = Inr s' \<and> reg s' \<and> sync s' \<and> frame s s' \<and> mask s' = effect x (mask s)"
    and frame_refl: "frame s s"
    and frame_trans: "frame s s' \<Longrightarrow> frame s' s'' \<Longrightarrow> frame s s''"

context channel_registry begin

lemma run_ops_sync:
  "reg s \<Longrightarrow> \<exists>s'. fold_res step ops s = Inr s' \<and> reg s' \<and> (ops \<noteq> [] \<longrightarrow> sync s')
     \<and> frame s s' \<and> mask s' = fold effect ops (mask s)"
proof (induction ops arbitrary: s)
  case (Cons x ops)
  then obtain s1 where s1: "step x s = Inr s1" "reg s1" "sync s1" "frame s s1"
      "mask s1 = effect x (mask s)"
    using step_law by blast
  show ?case
    using Cons.IH [OF s1(2)] s1 frame_trans [OF s1(4)]
    by (cases "ops = []") (auto simp: frame_refl)
qed (simp add: frame_refl)

end

lemma poll_frame_refl: "poll_frame v s s"
  by (auto simp: poll_frame_def split: prod.splits)

lemma poll_frame_trans: "poll_frame v s s' \<Longrightarrow> poll_frame v s' s'' \<Longrightarrow> poll_frame v s s''"
  by (auto simp: poll_frame_def split: prod.splits)

lemma poll_frame_events:
  "poll_frame v (k, po, ch\<lparr>ch_events := ev\<rparr>) s' \<longleftrightarrow> poll_frame v (k, po, ch) s'"
  by (simp add: poll_frame_def)

lemma chan_sync_reg: "chan_sync v p s \<Longrightarrow> chan_reg v p s"
  by (simp add: chan_sync_def)

lemma chan_step_law:
  assumes "epoll_ok os v" and "epoll_total os v" and reg: "chan_reg v p s"
  shows "\<exists>s'. chan_step os p x s = Inr s' \<and> chan_reg v p s' \<and> chan_sync v p s'
    \<and> poll_frame v s s' \<and> mask_of s' = op_mask x (mask_of s)"
proof -
  obtain k po ch where s: "s = (k, po, ch)" by (cases s)
  have up: "\<exists>s'. updateChannel os p (k, po, ch\<lparr>ch_events := ev\<rparr>) = Inr s' \<and> chan_reg v p s'
      \<and> chan_sync v p s' \<and> poll_frame v (k, po, ch) s' \<and> mask_of s' = ev" for ev
    using updateChannel_sync [OF assms(1,2), of p k po "ch\<lparr>ch_events := ev\<rparr>"] reg
    by (force simp: s chan_reg_events poll_frame_events chan_sync_reg mask_of_def)
  show ?thesis
  proof (cases x)
    case Remove
    then show ?thesis
      using removeChannel_sync [OF assms(1), of p k po ch] reg
      by (force simp: s chan_sync_reg mask_of_def)
  qed (use up in \<open>auto simp: s mask_of_def enableReadEvent_def disableReadEvent_def
         enableWriteEvent_def disableWriteEvent_def disableAllEvent_def\<close>)
qed

interpretation poller: channel_registry "chan_step os p" op_mask mask_of
    "\<lambda>s. epoll_ok os v \<and> epoll_total os v \<and> chan_reg v p s" "chan_sync v p" "poll_frame v"
  for os :: "'k os" and p and v
  by unfold_locales (use chan_step_law in \<open>auto intro: poll_frame_refl poll_frame_trans\<close>)

section \<open>Properties\<close>


lemma toy_epoll_total: "epoll_total toy_os interest"
  by (auto simp: epoll_total_def toy_os_def toy_ctl_def Let_def split: option.splits)

definition toy_poller :: epoll_poller where
  "toy_poller = \<lparr>channels = Map.empty, epollfd = 3, events_size = 16\<rparr>"

lemma toy_chan_reg: "chan_reg interest p (toy_start, toy_poller, Channel_new l fd)"
  by (simp add: chan_reg_simp toy_start_def toy_poller_def Channel_new_def chan_states)


text \<open>A channel that was taken out of the interest list because it had gone silent is put back by
  the next interest change even if that change leaves it silent: disabling all events a second time
  registers the descriptor again, with an empty mask.\<close>

theorem second_disable_registers_again:
  assumes "epoll_ok os v" and "epoll_total os v" and "chan_reg v p (k, po, ch)"
    and "ch_state ch = kChannelAdded"
  shows "\<exists>k1 po1 ch1 k2 po2 ch2.
      chan_step os p DisableAll (k, po, ch) = Inr (k1, po1, ch1)
    \<and> v k1 (epollfd po) (ch_fd ch) = None \<and> ch_state ch1 = kChannelRemoved
    \<and> chan_step os p DisableAll (k1, po1, ch1) = Inr (k2, po2, ch2)
    \<and> v k2 (epollfd po) (ch_fd ch) = Some (0, p) \<and> ch_state ch2 = kChannelAdded"
proof -
  let ?ch = "ch\<lparr>ch_events := kNoneEvent\<rparr>"
  have n1: "next_state ?ch = kChannelRemoved"
    using assms(4) by (simp add: next_state_def isSilent_def)
  obtain k1 po1 where s1: "updateChannel os p (k, po, ?ch) = Inr (k1, po1, setState kChannelRemoved ?ch)"
      "chan_sync v p (k1, po1, setState kChannelRemoved ?ch)"
      "poll_frame v (k, po, ?ch) (k1, po1, setState kChannelRemoved ?ch)"
    using updateChannel_sync [OF assms(1,2), of p k po ?ch] assms(3)
    by (auto simp: chan_reg_events n1)
  let ?ch1 = "setState kChannelRemoved ?ch"
  have same: "?ch1\<lparr>ch_events := kNoneEvent\<rparr> = ?ch1" by (simp add: setState_def)
  have n2: "next_state ?ch1 = kChannelAdded" by (simp add: next_state_def)
  obtain k2 po2 where s2: "updateChannel os p (k1, po1, ?ch1) = Inr (k2, po2, setState kChannelAdded ?ch1)"
      "chan_sync v p (k2, po2, setState kChannelAdded ?ch1)"
      "poll_frame v (k1, po1, ?ch1) (k2, po2, setState kChannelAdded ?ch1)"
    using updateChannel_sync [OF assms(1,2) chan_sync_reg [OF s1(2)]] by (auto simp: n2)
  have again: "updateChannel os p (k1, po1, ?ch1\<lparr>ch_events := kNoneEvent\<rparr>)
      = Inr (k2, po2, setState kChannelAdded ?ch1)"
    unfolding same by (rule s2(1))
  show ?thesis
    using s1 s2(2,3) again
    by (auto simp: disableAllEvent_def chan_sync_def chan_reg_simp poll_frame_def kNoneEvent_def)
qed

lemma toy_added:
  "chan_reg interest AcceptCh (toy_start\<lparr>interest := (\<lambda>_. [7 \<mapsto> (3, AcceptCh)])\<rparr>,
     toy_poller\<lparr>channels := [7 \<mapsto> AcceptCh]\<rparr>,
     (Channel_new 0 7 :: nat channel)\<lparr>ch_events := 3, ch_state := kChannelAdded\<rparr>)"
  by (simp add: chan_reg_simp Channel_new_def)

theorem second_disable_registers_again_witness:
  "\<exists>k1 po1 ch1 k2 po2 ch2.
      chan_step toy_os AcceptCh DisableAll (toy_start\<lparr>interest := (\<lambda>_. [7 \<mapsto> (3, AcceptCh)])\<rparr>,
        toy_poller\<lparr>channels := [7 \<mapsto> AcceptCh]\<rparr>,
        (Channel_new 0 7 :: nat channel)\<lparr>ch_events := 3, ch_state := kChannelAdded\<rparr>)
        = Inr (k1, po1, ch1)
    \<and> interest k1 3 7 = None
    \<and> chan_step toy_os AcceptCh DisableAll (k1, po1, ch1) = Inr (k2, po2, ch2)
    \<and> interest k2 3 7 = Some (0, AcceptCh)"
  using second_disable_registers_again [OF toy_epoll_ok toy_epoll_total toy_added]
  by (auto simp: toy_poller_def Channel_new_def)

lemma triggerChannels_fold:
  "triggerChannels set_revents es active w
     = bind_res (fold_res (\<lambda>(ev, p). set_revents p ev) es w) (\<lambda>w'. Inr (w', active @ map snd es))"
proof (induction es arbitrary: active w)
  case (Cons x es)
  then show ?case by (cases x; cases "set_revents (snd x) (fst x) w") auto
qed simp

text \<open>C31. One \<open>poll\<close> delivers exactly the events the kernel reports, in their order, with each
  reported channel dereferenced once; the event array doubles exactly when it came back full and
  is never written beyond its end; an error of \<open>epoll_wait\<close> delivers nothing.\<close>

theorem poll_delivers:
  assumes "wait_ok os" and "sys_epoll_wait os (epollfd po) (events_size po) timeout k = (r, k1)"
    and "sys_time os k1 = (now, k2)" and "0 < events_size po"
  shows "\<exists>po' es. poller_poll os timeout (k, po) = Inr (k2, po', es, now)
    \<and> es = (case r of Inl _ \<Rightarrow> [] | Inr es \<Rightarrow> es)
    \<and> length es \<le> events_size po
    \<and> events_size po' = (if length es = events_size po then 2 * events_size po else events_size po)
    \<and> epollfd po' = epollfd po \<and> channels po' = channels po
    \<and> triggerChannels set_revents es [] w
        = bind_res (fold_res (\<lambda>(ev, p). set_revents p ev) es w) (\<lambda>w'. Inr (w', map snd es))"
  using assms wait_okD [OF assms(1), of "epollfd po" "events_size po" timeout k _ k1]
  by (cases r) (auto simp: poller_poll_def triggerChannels_fold)

theorem poll_delivers_witness:
  "\<exists>po' es. poller_poll toy_os 10000 (toy_start\<lparr>happening := [(1, AcceptCh), (4, ConnCh 0)]\<rparr>,
      toy_poller\<lparr>events_size := 2\<rparr>)
      = Inr (toy_start, po', es, 0)
    \<and> es = [(1, AcceptCh), (4, ConnCh 0)] \<and> events_size po' = 4"
  using poll_delivers [OF toy_wait_ok, of "toy_poller\<lparr>events_size := 2\<rparr>" 10000
      "toy_start\<lparr>happening := [(1, AcceptCh), (4, ConnCh 0)]\<rparr>"
      "Inr [(1, AcceptCh), (4, ConnCh 0)]" toy_start 0 toy_start "\<lambda>_ _ w. Inr w" "()"]
  by (auto simp: toy_start_def toy_poller_def)

end
