(* ===== verification/EventLoop.thy ===== *)
theory EventLoop
  imports EpollPoller
begin

text \<open>
  The class \<open>EventLoop\<close> (\<open>src/eventloop.h\<close>, \<open>src/eventloop.cc\<close>): one object and the operations on
  it. The functions made with \<open>std::bind\<close> are values of two datatypes: \<open>handler\<close> for the callbacks
  of channels, \<open>Functor\<close> for what is queued on a loop. Loops, connections, callbacks and strings are
  named by numbers. \<open>tls\<close> is the thread-local \<open>t_loop_in_this_thread\<close>, one value per thread.

  A state here is the system and the loop. \<open>executePendingFunctors\<close> runs functors that may change
  anything, so it works on an arbitrary state \<open>'w\<close> in which \<open>getl\<close> reads and \<open>updl\<close> changes the loop.
\<close>

section \<open>Bound functions\<close>

datatype handler =
    HAwake nat
  | HAcceptRead
  | HConnRead nat
  | HConnWrite nat
  | HConnClose nat
  | HConnError nat

datatype Functor =
    FSendInLoop nat nat nat       \<comment> \<open>connection, address of the characters, length\<close>
  | FShutdownInLoop nat
  | FConnEstablish nat
  | FConnDestory nat
  | FWriteComplete nat nat        \<comment> \<open>user callback, connection\<close>
  | FHighWater nat nat nat        \<comment> \<open>user callback, connection, size\<close>
  | FListen
  | FRemoveConnection nat
  | FUser nat

section \<open>The class\<close>

record event_loop =
  looping :: bool
  quit_flag :: bool
  thread_id :: int
  poll_return_time :: int
  poller :: "epoll_poller option"
  wakeup_fd :: int
  wakeup_channel :: "handler channel"
  active_channels :: "chan_ptr list"
  calling_pending :: bool
  pending :: "Functor list"

definition kPollWaitTime :: int where
  "kPollWaitTime = 10000"

definition isInLoopThread :: "int \<Rightarrow> event_loop \<Rightarrow> bool" where
  "isInLoopThread tid lp \<longleftrightarrow> thread_id lp = tid"

definition loop_updateChannel ::
  "'k os \<Rightarrow> chan_ptr \<Rightarrow> 'k \<times> event_loop \<times> 'cb channel \<Rightarrow> ('k \<times> event_loop \<times> 'cb channel) res" where
  "loop_updateChannel os p s =
     (case s of (k, lp, ch) \<Rightarrow>
      case poller lp of
        None \<Rightarrow> Inl NullPointer
      | Some po \<Rightarrow> bind_res (updateChannel os p (k, po, ch)) (\<lambda>(k, po, ch).
          Inr (k, lp\<lparr>poller := Some po\<rparr>, ch)))"

definition loop_removeChannel ::
  "'k os \<Rightarrow> chan_ptr \<Rightarrow> 'k \<times> event_loop \<times> 'cb channel \<Rightarrow> ('k \<times> event_loop \<times> 'cb channel) res" where
  "loop_removeChannel os p s =
     (case s of (k, lp, ch) \<Rightarrow>
      case poller lp of
        None \<Rightarrow> Inl NullPointer
      | Some po \<Rightarrow> bind_res (removeChannel os p (k, po, ch)) (\<lambda>(k, po, ch).
          Inr (k, lp\<lparr>poller := Some po\<rparr>, ch)))"

text \<open>\<open>isChannelExist\<close> calls the poller and then flows off its end without returning a value.\<close>

definition loop_isChannelExist :: "chan_ptr \<Rightarrow> event_loop \<times> 'cb channel \<Rightarrow> bool res" where
  "loop_isChannelExist p s =
     (case s of (lp, ch) \<Rightarrow>
      case poller lp of None \<Rightarrow> Inl NullPointer | Some po \<Rightarrow> Inl MissingReturn)"

definition createEventFd :: "'k os \<Rightarrow> 'k \<Rightarrow> ('k \<times> int) res" where
  "createEventFd os k =
     (case sys_eventfd os k of (Inl _, k') \<Rightarrow> Inl FatalExit | (Inr fd, k') \<Rightarrow> Inr (k', fd))"

definition EventLoop_new ::
  "'k os \<Rightarrow> (string \<Rightarrow> string option) \<Rightarrow> nat \<Rightarrow> int \<Rightarrow> 'k \<times> (int \<Rightarrow> nat option) \<Rightarrow>
   ('k \<times> (int \<Rightarrow> nat option) \<times> event_loop) res" where
  "EventLoop_new os getenv self tid s =
     (case s of (k, tls) \<Rightarrow>
      bind_res (newDefaultPoller os getenv k) (\<lambda>(k, po).
      bind_res (createEventFd os k) (\<lambda>(k, fd).
        let lp = \<lparr>looping = False, quit_flag = False, thread_id = tid, poll_return_time = 0,
                  poller = po, wakeup_fd = fd, wakeup_channel = Channel_new self fd,
                  active_channels = [], calling_pending = False, pending = []\<rparr> in
        if tls tid \<noteq> None then Inl FatalExit
        else bind_res
          (enableReadEvent (\<lambda>ch. loop_updateChannel os (WakeupCh self) (k, lp, ch))
             (setReadCallback (HAwake self) (wakeup_channel lp))) (\<lambda>(k, lp, ch).
          Inr (k, tls(tid \<mapsto> self), lp\<lparr>wakeup_channel := ch\<rparr>)))))"

text \<open>The last statement of the destructor compares \<open>t_loop_in_this_thread\<close> with null and drops the
  result, so the thread-local stays; then the members are destroyed, the poller among them.\<close>

definition EventLoop_destroy_body ::
  "'k os \<Rightarrow> nat \<Rightarrow> 'k \<times> (int \<Rightarrow> nat option) \<times> event_loop \<Rightarrow>
   ('k \<times> (int \<Rightarrow> nat option) \<times> event_loop) res" where
  "EventLoop_destroy_body os self s =
     (case s of (k, tls, lp) \<Rightarrow>
      bind_res
        (disableAllEvent (\<lambda>ch. loop_updateChannel os (WakeupCh self) (k, lp, ch)) (wakeup_channel lp))
        (\<lambda>(k, lp, ch).
      bind_res (loop_removeChannel os (WakeupCh self) (k, lp, ch)) (\<lambda>(k, lp, ch).
        Inr (snd (sys_close os (wakeup_fd lp) k), tls, lp\<lparr>wakeup_channel := ch\<rparr>))))"

definition EventLoop_destroy ::
  "'k os \<Rightarrow> nat \<Rightarrow> 'k \<times> (int \<Rightarrow> nat option) \<times> event_loop \<Rightarrow> ('k \<times> (int \<Rightarrow> nat option)) res" where
  "EventLoop_destroy os self s =
     bind_res (EventLoop_destroy_body os self s) (\<lambda>(k, tls, lp).
       Inr (case poller lp of None \<Rightarrow> k | Some po \<Rightarrow> EpollPoller_destroy os (k, po), tls))"

definition eventfd_one :: "byte list" where
  "eventfd_one = [1, 0, 0, 0, 0, 0, 0, 0]"

definition wakeup :: "'k os \<Rightarrow> 'k \<times> event_loop \<Rightarrow> 'k \<times> event_loop" where
  "wakeup os s = (case s of (k, lp) \<Rightarrow> (snd (sys_write os (wakeup_fd lp) eventfd_one k), lp))"

definition awake :: "'k os \<Rightarrow> 'k \<times> event_loop \<Rightarrow> 'k \<times> event_loop" where
  "awake os s = (case s of (k, lp) \<Rightarrow> (snd (sys_read os (wakeup_fd lp) 8 k), lp))"

definition loop_quit :: "'k os \<Rightarrow> int \<Rightarrow> 'k \<times> event_loop \<Rightarrow> 'k \<times> event_loop" where
  "loop_quit os tid s =
     (case s of (k, lp) \<Rightarrow>
      let lp = lp\<lparr>quit_flag := True\<rparr> in
      if \<not> isInLoopThread tid lp then wakeup os (k, lp) else (k, lp))"

definition pushLoopCallback :: "'k os \<Rightarrow> int \<Rightarrow> Functor \<Rightarrow> 'k \<times> event_loop \<Rightarrow> 'k \<times> event_loop" where
  "pushLoopCallback os tid callback s =
     (case s of (k, lp) \<Rightarrow>
      let lp = lp\<lparr>pending := pending lp @ [callback]\<rparr> in
      if \<not> isInLoopThread tid lp \<or> calling_pending lp then wakeup os (k, lp) else (k, lp))"

text \<open>\<open>runLoopCallback\<close>: \<open>run\<close> calls the Functor, \<open>push\<close> is \<open>pushLoopCallback\<close> on this loop.\<close>

definition runLoopCallback ::
  "int \<Rightarrow> event_loop \<Rightarrow> (Functor \<Rightarrow> 'w \<Rightarrow> 'w res) \<Rightarrow> (Functor \<Rightarrow> 'w \<Rightarrow> 'w) \<Rightarrow> Functor \<Rightarrow> 'w \<Rightarrow> 'w res" where
  "runLoopCallback tid lp run push callback w =
     (if isInLoopThread tid lp then run callback w else Inr (push callback w))"

definition executePendingFunctors ::
  "('w \<Rightarrow> event_loop) \<Rightarrow> ((event_loop \<Rightarrow> event_loop) \<Rightarrow> 'w \<Rightarrow> 'w) \<Rightarrow> (Functor \<Rightarrow> 'w \<Rightarrow> 'w res) \<Rightarrow>
   'w \<Rightarrow> 'w res" where
  "executePendingFunctors getl updl run w =
     (let w = updl (\<lambda>l. l\<lparr>calling_pending := True\<rparr>) w;
          functors = pending (getl w);
          w = updl (\<lambda>l. l\<lparr>pending := []\<rparr>) w
      in bind_res (fold_res run functors w) (\<lambda>w.
         Inr (updl (\<lambda>l. l\<lparr>calling_pending := False\<rparr>) w)))"

section \<open>Lemmas\<close>

lemma wakeup_loop [simp]: "snd (wakeup os (k, lp)) = lp"
  by (simp add: wakeup_def)

lemma pushLoopCallback_loop:
  "snd (pushLoopCallback os tid f (k, lp)) = lp\<lparr>pending := pending lp @ [f]\<rparr>"
  by (simp add: pushLoopCallback_def Let_def)

lemma loop_quit_loop: "snd (loop_quit os tid (k, lp)) = lp\<lparr>quit_flag := True\<rparr>"
  by (simp add: loop_quit_def Let_def)

text \<open>A push by another thread, or while functors run, is followed by a write to the eventfd.\<close>

lemma pushLoopCallback_wakes:
  "fst (pushLoopCallback os tid f (k, lp)) =
     (if thread_id lp \<noteq> tid \<or> calling_pending lp
      then snd (sys_write os (wakeup_fd lp) eventfd_one k) else k)"
  by (simp add: pushLoopCallback_def Let_def isInLoopThread_def wakeup_def)

text \<open>
  The queue of functors. A host of a loop gives the loop inside a bigger state and runs functors
  that may queue more of them but never take one out. Then no Functor is lost: each one queued
  before is run once, in order, and those queued meanwhile wait for the next turn.
\<close>

locale functor_host =
  fixes getl :: "'w \<Rightarrow> event_loop"
    and updl :: "(event_loop \<Rightarrow> event_loop) \<Rightarrow> 'w \<Rightarrow> 'w"
    and run :: "Functor \<Rightarrow> 'w \<Rightarrow> 'w res"
  assumes get_upd: "getl (updl g w) = g (getl w)"
    and run_queues: "run f w = Inr w' \<Longrightarrow>
      (\<exists>fs. pending (getl w') = pending (getl w) @ fs)
      \<and> calling_pending (getl w') = calling_pending (getl w)"

context functor_host begin

lemma fold_run_queues:
  "fold_res run fs w = Inr w' \<Longrightarrow>
    (\<exists>gs. pending (getl w') = pending (getl w) @ gs)
    \<and> calling_pending (getl w') = calling_pending (getl w)"
proof (induction fs arbitrary: w)
  case (Cons f fs)
  then obtain w1 where w1: "run f w = Inr w1" "fold_res run fs w1 = Inr w'"
    by (auto simp: res_iff)
  show ?case using run_queues [OF w1(1)] Cons.IH [OF w1(2)] by auto
qed simp

lemma executePendingFunctors_runs_all:
  assumes "executePendingFunctors getl updl run w = Inr w'"
  shows "\<exists>w1 w2. fold_res run (pending (getl w)) w1 = Inr w2
    \<and> getl w1 = (getl w)\<lparr>calling_pending := True, pending := []\<rparr>
    \<and> calling_pending (getl w2)
    \<and> getl w' = (getl w2)\<lparr>calling_pending := False\<rparr>"
proof -
  let ?w1 = "updl (\<lambda>l. l\<lparr>pending := []\<rparr>) (updl (\<lambda>l. l\<lparr>calling_pending := True\<rparr>) w)"
  obtain w2 where w2: "fold_res run (pending (getl w)) ?w1 = Inr w2"
      "w' = updl (\<lambda>l. l\<lparr>calling_pending := False\<rparr>) w2"
    using assms by (auto simp: executePendingFunctors_def Let_def res_iff get_upd)
  have "calling_pending (getl w2)"
    using fold_run_queues [OF w2(1)] by (simp add: get_upd)
  then show ?thesis
    using w2 by (intro exI [of _ ?w1] exI [of _ w2]) (simp add: get_upd)
qed

end

end
