(* ===== verification/Socket.thy ===== *)
theory Socket
  imports Os
begin

text \<open>
  The class \<open>Socket\<close> (\<open>src/socket_wrapper.h\<close>, \<open>src/socket_wrapper.cc\<close>), a descriptor and the system
  calls on it. \<open>bindAddress\<close> and \<open>listen\<close> end the process when the call fails; the options and
  \<open>shutdownWrite\<close> go on.
\<close>

definition kSocketDefaultBacklog :: nat where
  "kSocketDefaultBacklog = 1024"

definition Socket_destroy :: "'k os \<Rightarrow> int \<Rightarrow> 'k \<Rightarrow> 'k" where
  "Socket_destroy os sockfd k = snd (sys_close os sockfd k)"

definition bindAddress :: "'k os \<Rightarrow> int \<Rightarrow> sockaddr_in \<Rightarrow> 'k \<Rightarrow> 'k res" where
  "bindAddress os sockfd local_addr k =
     (case sys_bind os sockfd local_addr k of (Inl _, k') \<Rightarrow> Inl FatalExit | (Inr _, k') \<Rightarrow> Inr k')"

definition socket_listen :: "'k os \<Rightarrow> int \<Rightarrow> 'k \<Rightarrow> 'k res" where
  "socket_listen os sockfd k =
     (case sys_listen os sockfd kSocketDefaultBacklog k of
        (Inl _, k') \<Rightarrow> Inl FatalExit | (Inr _, k') \<Rightarrow> Inr k')"

text \<open>\<open>accept\<close> stores the address of the peer only when it returns a descriptor.\<close>

definition socket_accept ::
  "'k os \<Rightarrow> int \<Rightarrow> sockaddr_in \<Rightarrow> 'k \<Rightarrow> (int + int) \<times> sockaddr_in \<times> 'k" where
  "socket_accept os sockfd peer_addr k =
     (case sys_accept4 os sockfd k of
        (Inl errno, k') \<Rightarrow> (Inl errno, peer_addr, k')
      | (Inr (conn_fd, addr), k') \<Rightarrow> (Inr conn_fd, setSockAddr addr peer_addr, k'))"

definition shutdownWrite :: "'k os \<Rightarrow> int \<Rightarrow> 'k \<Rightarrow> 'k" where
  "shutdownWrite os sockfd k = snd (sys_shutdown_wr os sockfd k)"

definition setTcpNoDelay :: "'k os \<Rightarrow> int \<Rightarrow> bool \<Rightarrow> 'k \<Rightarrow> 'k" where
  "setTcpNoDelay os sockfd on k = snd (sys_setsockopt os sockfd TCP_NODELAY (if on then 1 else 0) k)"

definition setReuseAddr :: "'k os \<Rightarrow> int \<Rightarrow> bool \<Rightarrow> 'k \<Rightarrow> 'k" where
  "setReuseAddr os sockfd on k = snd (sys_setsockopt os sockfd SO_REUSEADDR (if on then 1 else 0) k)"

definition setReusePort :: "'k os \<Rightarrow> int \<Rightarrow> bool \<Rightarrow> 'k \<Rightarrow> 'k" where
  "setReusePort os sockfd on k = snd (sys_setsockopt os sockfd SO_REUSEPORT (if on then 1 else 0) k)"

definition setKeepAlive :: "'k os \<Rightarrow> int \<Rightarrow> bool \<Rightarrow> 'k \<Rightarrow> 'k" where
  "setKeepAlive os sockfd on k = snd (sys_setsockopt os sockfd SO_KEEPALIVE (if on then 1 else 0) k)"

end
