(* ===== verification/TcpConnection.thy ===== *)
theory TcpConnection
  imports Buffer Socket EventLoop
begin

text \<open>
  The class \<open>TcpConnection\<close> (\<open>src/tcp_connection.h\<close>, \<open>src/tcp_connection.cc\<close>).

  The operations that run in the loop thread and call no user code (\<open>sendInLoop\<close>,
  \<open>shutdownInLoop\<close>, \<open>handleWrite\<close>, \<open>handleError\<close>) work on a context: the connection with the system,
  its loop and the number of the running thread. The others work on a \<open>net\<close>, which holds all loops
  and connections, the strings owned by user code, and the calls of user callbacks so far; its record
  is extensible, so that the server can add its own state.

  A user callback is a number stored in the connection (\<open>None\<close> for an empty \<open>std::function\<close>, which
  throws when called). What user code does is the parameter \<open>app\<close>: from the callback, the whole state
  and its arguments it gives the calls it makes into the library, a list of \<open>action\<close>s.
\<close>

section \<open>The class\<close>

datatype conn_state = kDisconnected | kConnecting | kConnected | kDisconnecting

record tcp_connection =
  tc_loop :: nat
  tc_name :: string
  tc_state :: conn_state
  reading :: bool
  tc_sockfd :: int
  tc_channel :: "handler channel"
  local_addr :: sockaddr_in
  peer_addr :: sockaddr_in
  conn_callback :: "nat option"
  msg_callback :: "nat option"
  write_complete_callback :: "nat option"
  highwater_mark_callback :: "nat option"
  close_callback :: "nat option"
  high_water_mark :: nat
  input_buffer :: buffer
  output_buffer :: buffer

definition CheckLoopNotNull :: "nat option \<Rightarrow> nat res" where
  "CheckLoopNotNull loop = (case loop of None \<Rightarrow> Inl FatalExit | Some l \<Rightarrow> Inr l)"

definition TcpConnection_new ::
  "'k os \<Rightarrow> alloc \<Rightarrow> nat \<Rightarrow> nat option \<Rightarrow> string \<Rightarrow> int \<Rightarrow> sockaddr_in \<Rightarrow> sockaddr_in \<Rightarrow> 'k \<Rightarrow>
   ('k \<times> tcp_connection) res" where
  "TcpConnection_new os A self loop name sockfd laddr paddr k =
     bind_res (CheckLoopNotNull loop) (\<lambda>l.
     bind_res (buffer_new A kInitialSize) (\<lambda>ibuf.
     bind_res (buffer_new A kInitialSize) (\<lambda>obuf.
       let ch = setErrorCallback (HConnError self)
                 (setCloseCallback (HConnClose self)
                 (setWriteCallback (HConnWrite self)
                 (setReadCallback (HConnRead self) (Channel_new l sockfd))))
       in Inr (setKeepAlive os sockfd True k,
          \<lparr>tc_loop = l, tc_name = name, tc_state = kConnecting, reading = True, tc_sockfd = sockfd,
           tc_channel = ch, local_addr = laddr, peer_addr = paddr, conn_callback = None,
           msg_callback = None, write_complete_callback = None, highwater_mark_callback = None,
           close_callback = None, high_water_mark = 64 * 1024 * 1024,
           input_buffer = ibuf, output_buffer = obuf\<rparr>))))"

definition isConnected :: "tcp_connection \<Rightarrow> bool" where
  "isConnected cn \<longleftrightarrow> tc_state cn = kConnected"

definition setConnectionCallback :: "nat option \<Rightarrow> tcp_connection \<Rightarrow> tcp_connection" where
  "setConnectionCallback cb cn = cn\<lparr>conn_callback := cb\<rparr>"

definition setMessageCallback :: "nat option \<Rightarrow> tcp_connection \<Rightarrow> tcp_connection" where
  "setMessageCallback cb cn = cn\<lparr>msg_callback := cb\<rparr>"

definition setWriteCompleteCallback :: "nat option \<Rightarrow> tcp_connection \<Rightarrow> tcp_connection" where
  "setWriteCompleteCallback cb cn = cn\<lparr>write_complete_callback := cb\<rparr>"

definition conn_setCloseCallback :: "nat option \<Rightarrow> tcp_connection \<Rightarrow> tcp_connection" where
  "conn_setCloseCallback cb cn = cn\<lparr>close_callback := cb\<rparr>"

definition setHighWaterCallback :: "nat option \<Rightarrow> tcp_connection \<Rightarrow> tcp_connection" where
  "setHighWaterCallback cb cn = cn\<lparr>highwater_mark_callback := cb\<rparr>"

section \<open>Operations in the loop\<close>

record 'k cctx =
  cx_kern :: 'k
  cx_tid :: int
  cx_loop :: event_loop
  cx_conn :: tcp_connection

definition cx_push :: "'k os \<Rightarrow> Functor \<Rightarrow> 'k cctx \<Rightarrow> 'k cctx" where
  "cx_push os f x =
     (case pushLoopCallback os (cx_tid x) f (cx_kern x, cx_loop x) of
        (k, lp) \<Rightarrow> x\<lparr>cx_kern := k, cx_loop := lp\<rparr>)"

definition cx_push_opt :: "'k os \<Rightarrow> (nat \<Rightarrow> Functor) \<Rightarrow> nat option \<Rightarrow> 'k cctx \<Rightarrow> 'k cctx" where
  "cx_push_opt os mk cb x = (case cb of None \<Rightarrow> x | Some i \<Rightarrow> cx_push os (mk i) x)"

definition cx_update :: "'k os \<Rightarrow> nat \<Rightarrow> 'k cctx \<Rightarrow> handler channel \<Rightarrow> 'k cctx res" where
  "cx_update os self x ch =
     bind_res (loop_updateChannel os (ConnCh self) (cx_kern x, cx_loop x, ch)) (\<lambda>(k, lp, ch).
       Inr (x\<lparr>cx_kern := k, cx_loop := lp, cx_conn := (cx_conn x)\<lparr>tc_channel := ch\<rparr>\<rparr>))"

definition cx_remove :: "'k os \<Rightarrow> nat \<Rightarrow> 'k cctx \<Rightarrow> 'k cctx res" where
  "cx_remove os self x =
     bind_res (loop_removeChannel os (ConnCh self) (cx_kern x, cx_loop x, tc_channel (cx_conn x)))
       (\<lambda>(k, lp, ch).
       Inr (x\<lparr>cx_kern := k, cx_loop := lp, cx_conn := (cx_conn x)\<lparr>tc_channel := ch\<rparr>\<rparr>))"

definition cx_setState :: "conn_state \<Rightarrow> 'k cctx \<Rightarrow> 'k cctx" where
  "cx_setState st x = x\<lparr>cx_conn := (cx_conn x)\<lparr>tc_state := st\<rparr>\<rparr>"

text \<open>
  \<open>sendInLoop\<close>. Its first test is \<open>if (state_ = kDisconnected)\<close>: an assignment, whose value is zero,
  so the branch is never taken and the state is \<open>kDisconnected\<close> from there on. The direct write and
  the queueing of the rest are the two halves below; between them go \<open>wrote_len\<close>,
  \<open>remained_len\<close> and \<open>faultError\<close>.
\<close>

definition sendInLoop_write ::
  "'k os \<Rightarrow> nat \<Rightarrow> byte list \<Rightarrow> 'k cctx \<Rightarrow> 'k cctx \<times> nat \<times> nat \<times> bool" where
  "sendInLoop_write os self data x =
     (let cn = cx_conn x; len = length data in
      if \<not> isWriteSet (tc_channel cn) \<and> readableBytes (output_buffer cn) = 0 then
        (case sys_write os (ch_fd (tc_channel cn)) data (cx_kern x) of
           (Inr wrote_len, k) \<Rightarrow>
             let x = x\<lparr>cx_kern := k\<rparr>; remained_len = size_sub len wrote_len in
             (if remained_len = 0
              then cx_push_opt os (\<lambda>cb. FWriteComplete cb self) (write_complete_callback cn) x
              else x, wrote_len, remained_len, False)
         | (Inl errno, k) \<Rightarrow>
             (x\<lparr>cx_kern := k\<rparr>, 0, len,
              errno \<noteq> EWOULDBLOCK \<and> (errno = EPIPE \<or> errno = ECONNRESET)))
      else (x, 0, len, False))"

definition sendInLoop_queue ::
  "'k os \<Rightarrow> alloc \<Rightarrow> nat \<Rightarrow> byte list \<Rightarrow> 'k cctx \<times> nat \<times> nat \<times> bool \<Rightarrow> 'k cctx res" where
  "sendInLoop_queue os A self data s =
     (case s of (x, wrote_len, remained_len, faultError) \<Rightarrow>
      if \<not> faultError \<and> 0 < remained_len then
        let cn = cx_conn x;
            remain_len_in_buffer = readableBytes (output_buffer cn);
            total = size_add remain_len_in_buffer remained_len;
            x = (if high_water_mark cn \<le> total \<and> remain_len_in_buffer < high_water_mark cn
                 then cx_push_opt os (\<lambda>cb. FHighWater cb self total) (highwater_mark_callback cn) x
                 else x)
        in bind_res (bytes_read wrote_len remained_len data) (\<lambda>rest.
           bind_res (buffer_put A rest (output_buffer cn)) (\<lambda>b.
           let x = x\<lparr>cx_conn := cn\<lparr>output_buffer := b\<rparr>\<rparr> in
           if \<not> isWriteSet (tc_channel cn)
           then enableWriteEvent (cx_update os self x) (tc_channel cn)
           else Inr x))
      else Inr x)"

definition sendInLoop :: "'k os \<Rightarrow> alloc \<Rightarrow> nat \<Rightarrow> byte list \<Rightarrow> 'k cctx \<Rightarrow> 'k cctx res" where
  "sendInLoop os A self data x =
     sendInLoop_queue os A self data (sendInLoop_write os self data (cx_setState kDisconnected x))"

definition shutdownInLoop :: "'k os \<Rightarrow> 'k cctx \<Rightarrow> 'k cctx" where
  "shutdownInLoop os x =
     (if \<not> isWriteSet (tc_channel (cx_conn x))
      then x\<lparr>cx_kern := shutdownWrite os (tc_sockfd (cx_conn x)) (cx_kern x)\<rparr>
      else x)"

definition handleWrite :: "'k os \<Rightarrow> nat \<Rightarrow> 'k cctx \<Rightarrow> 'k cctx res" where
  "handleWrite os self x =
     (let cn = cx_conn x in
      if isWriteSet (tc_channel cn) then
        bind_res (buffer_write (sys_write os (ch_fd (tc_channel cn))) (cx_kern x) (output_buffer cn))
          (\<lambda>(r, k).
          let x = x\<lparr>cx_kern := k\<rparr> in
          case r of
            Inl _ \<Rightarrow> Inr x
          | Inr n \<Rightarrow>
              if 0 < n then
                let b = pushState n (output_buffer cn); x = x\<lparr>cx_conn := cn\<lparr>output_buffer := b\<rparr>\<rparr> in
                if readableBytes b = 0 then
                  bind_res (disableWriteEvent (cx_update os self x) (tc_channel cn)) (\<lambda>x.
                    let x = cx_push_opt os (\<lambda>cb. FWriteComplete cb self)
                              (write_complete_callback (cx_conn x)) x
                    in Inr (if tc_state (cx_conn x) = kDisconnecting then shutdownInLoop os x else x))
                else Inr x
              else Inr x)
      else Inr x)"

definition handleError :: "'k os \<Rightarrow> 'k cctx \<Rightarrow> 'k cctx" where
  "handleError os x =
     x\<lparr>cx_kern := snd (sys_so_error os (ch_fd (tc_channel (cx_conn x))) (cx_kern x))\<rparr>"

section \<open>The state shared by loops, connections and user code\<close>

datatype obs =
    CalledConnection nat nat bool
  | CalledMessage nat nat
  | CalledWriteComplete nat nat
  | CalledHighWater nat nat nat
  | CalledUser nat
  | CalledInit nat nat

record 'k net =
  kern :: 'k
  cur_tid :: int
  loops :: "nat \<Rightarrow> event_loop"
  conns :: "nat \<Rightarrow> tcp_connection option"
  strs :: "nat \<Rightarrow> byte list option"
  trace :: "obs list"

definition in_conn ::
  "nat \<Rightarrow> ('k cctx \<Rightarrow> 'k cctx res) \<Rightarrow> ('k, 'z) net_scheme \<Rightarrow> ('k, 'z) net_scheme res" where
  "in_conn c f w =
     (case conns w c of
        None \<Rightarrow> Inl DanglingPointer
      | Some cn \<Rightarrow>
          bind_res (f \<lparr>cx_kern = kern w, cx_tid = cur_tid w, cx_loop = loops w (tc_loop cn), cx_conn = cn\<rparr>)
            (\<lambda>x. Inr (w\<lparr>kern := cx_kern x, loops := (loops w)(tc_loop cn := cx_loop x),
                       conns := (conns w)(c := Some (cx_conn x))\<rparr>)))"

definition on_loop ::
  "nat \<Rightarrow> ('k \<times> event_loop \<Rightarrow> 'k \<times> event_loop) \<Rightarrow> ('k, 'z) net_scheme \<Rightarrow> ('k, 'z) net_scheme" where
  "on_loop l f w =
     (case f (kern w, loops w l) of (k, lp) \<Rightarrow> w\<lparr>kern := k, loops := (loops w)(l := lp)\<rparr>)"

definition net_push ::
  "'k os \<Rightarrow> nat \<Rightarrow> Functor \<Rightarrow> ('k, 'z) net_scheme \<Rightarrow> ('k, 'z) net_scheme" where
  "net_push os l f w = on_loop l (pushLoopCallback os (cur_tid w) f) w"

text \<open>The functors that \<open>send\<close> and \<open>shutdown\<close> bind; they hold a raw pointer to the connection, and the
  former a raw pointer to the characters of the caller's string.\<close>

definition run_conn_functor ::
  "'k os \<Rightarrow> alloc \<Rightarrow> Functor \<Rightarrow> ('k, 'z) net_scheme \<Rightarrow> ('k, 'z) net_scheme res" where
  "run_conn_functor os A f w =
     (case f of
        FSendInLoop c s n \<Rightarrow>
          (case strs w s of
             None \<Rightarrow> Inl DanglingPointer
           | Some str \<Rightarrow> bind_res (bytes_read 0 n str) (\<lambda>data. in_conn c (sendInLoop os A c data) w))
      | FShutdownInLoop c \<Rightarrow> in_conn c (\<lambda>x. Inr (shutdownInLoop os x)) w
      | _ \<Rightarrow> Inr w)"

definition tcp_send ::
  "'k os \<Rightarrow> alloc \<Rightarrow> nat \<Rightarrow> nat \<Rightarrow> ('k, 'z) net_scheme \<Rightarrow> ('k, 'z) net_scheme res" where
  "tcp_send os A c s w =
     (case conns w c of
        None \<Rightarrow> Inl DanglingPointer
      | Some cn \<Rightarrow>
          if tc_state cn = kConnected then
            (case strs w s of
               None \<Rightarrow> Inl DanglingPointer
             | Some buf \<Rightarrow>
                 if isInLoopThread (cur_tid w) (loops w (tc_loop cn))
                 then in_conn c (sendInLoop os A c buf) w
                 else runLoopCallback (cur_tid w) (loops w (tc_loop cn)) (run_conn_functor os A)
                        (net_push os (tc_loop cn)) (FSendInLoop c s (length buf)) w)
          else Inr w)"

definition tcp_shutdown ::
  "'k os \<Rightarrow> alloc \<Rightarrow> nat \<Rightarrow> ('k, 'z) net_scheme \<Rightarrow> ('k, 'z) net_scheme res" where
  "tcp_shutdown os A c w =
     (case conns w c of
        None \<Rightarrow> Inl DanglingPointer
      | Some cn \<Rightarrow>
          if tc_state cn = kConnected then
            runLoopCallback (cur_tid w) (loops w (tc_loop cn)) (run_conn_functor os A)
              (net_push os (tc_loop cn)) (FShutdownInLoop c)
              (w\<lparr>conns := (conns w)(c := Some (cn\<lparr>tc_state := kDisconnecting\<rparr>))\<rparr>)
          else Inr w)"

section \<open>User code\<close>

text \<open>
  The calls user code can make: sending a string it owns, shutting down, reading the input buffer,
  creating and destroying strings, queueing a function of its own on a loop, stopping a loop,
  installing a high-water callback.
\<close>

datatype action =
    ASend nat nat
  | AShutdown nat
  | AGet nat nat
  | AGetAll nat
  | ANewString nat "byte list"
  | AFreeString nat
  | APush nat nat
  | AQuit nat
  | ASetHighWater nat nat

record 'w app =
  on_connection :: "nat \<Rightarrow> 'w \<Rightarrow> nat \<Rightarrow> action list"
  on_message :: "nat \<Rightarrow> 'w \<Rightarrow> nat \<Rightarrow> int \<Rightarrow> action list"
  on_write_complete :: "nat \<Rightarrow> 'w \<Rightarrow> nat \<Rightarrow> action list"
  on_high_water :: "nat \<Rightarrow> 'w \<Rightarrow> nat \<Rightarrow> nat \<Rightarrow> action list"
  on_user :: "nat \<Rightarrow> 'w \<Rightarrow> action list"
  on_init :: "nat \<Rightarrow> 'w \<Rightarrow> nat \<Rightarrow> action list"

definition upd_conn ::
  "nat \<Rightarrow> (tcp_connection \<Rightarrow> tcp_connection res) \<Rightarrow> ('k, 'z) net_scheme \<Rightarrow> ('k, 'z) net_scheme res" where
  "upd_conn c f w =
     (case conns w c of
        None \<Rightarrow> Inl DanglingPointer
      | Some cn \<Rightarrow> bind_res (f cn) (\<lambda>cn. Inr (w\<lparr>conns := (conns w)(c := Some cn)\<rparr>)))"

fun perform ::
  "'k os \<Rightarrow> alloc \<Rightarrow> action \<Rightarrow> ('k, 'z) net_scheme \<Rightarrow> ('k, 'z) net_scheme res" where
  "perform os A (ASend c s) w = tcp_send os A c s w"
| "perform os A (AShutdown c) w = tcp_shutdown os A c w"
| "perform os A (AGet c n) w =
     upd_conn c (\<lambda>cn. bind_res (buffer_get n (input_buffer cn)) (\<lambda>(_, b). Inr (cn\<lparr>input_buffer := b\<rparr>))) w"
| "perform os A (AGetAll c) w =
     upd_conn c (\<lambda>cn. bind_res (buffer_getAll (input_buffer cn)) (\<lambda>(_, b). Inr (cn\<lparr>input_buffer := b\<rparr>))) w"
| "perform os A (ANewString s d) w = Inr (w\<lparr>strs := (strs w)(s := Some d)\<rparr>)"
| "perform os A (AFreeString s) w = Inr (w\<lparr>strs := (strs w)(s := None)\<rparr>)"
| "perform os A (APush l u) w = Inr (net_push os l (FUser u) w)"
| "perform os A (AQuit l) w = Inr (on_loop l (loop_quit os (cur_tid w)) w)"
| "perform os A (ASetHighWater c cb) w = upd_conn c (\<lambda>cn. Inr (setHighWaterCallback (Some cb) cn)) w"

definition run_actions ::
  "'k os \<Rightarrow> alloc \<Rightarrow> action list \<Rightarrow> ('k, 'z) net_scheme \<Rightarrow> ('k, 'z) net_scheme res" where
  "run_actions os A acts w = fold_res (perform os A) acts w"

definition note_call :: "obs \<Rightarrow> ('k, 'z) net_scheme \<Rightarrow> ('k, 'z) net_scheme" where
  "note_call ob w = w\<lparr>trace := trace w @ [ob]\<rparr>"

definition call_connection ::
  "'k os \<Rightarrow> alloc \<Rightarrow> ('k, 'z) net_scheme app \<Rightarrow> nat \<Rightarrow> ('k, 'z) net_scheme \<Rightarrow> ('k, 'z) net_scheme res" where
  "call_connection os A app c w =
     (case conns w c of
        None \<Rightarrow> Inl DanglingPointer
      | Some cn \<Rightarrow>
          (case conn_callback cn of
             None \<Rightarrow> Inl BadFunctionCall
           | Some cb \<Rightarrow>
               run_actions os A (on_connection app cb w c)
                 (note_call (CalledConnection cb c (isConnected cn)) w)))"

definition call_message ::
  "'k os \<Rightarrow> alloc \<Rightarrow> ('k, 'z) net_scheme app \<Rightarrow> nat \<Rightarrow> int \<Rightarrow> ('k, 'z) net_scheme \<Rightarrow>
   ('k, 'z) net_scheme res" where
  "call_message os A app c time w =
     (case conns w c of
        None \<Rightarrow> Inl DanglingPointer
      | Some cn \<Rightarrow>
          (case msg_callback cn of
             None \<Rightarrow> Inl BadFunctionCall
           | Some cb \<Rightarrow>
               run_actions os A (on_message app cb w c time) (note_call (CalledMessage cb c) w)))"

section \<open>Operations that call user code\<close>

definition connEstablish ::
  "'k os \<Rightarrow> alloc \<Rightarrow> ('k, 'z) net_scheme app \<Rightarrow> nat \<Rightarrow> ('k, 'z) net_scheme \<Rightarrow> ('k, 'z) net_scheme res" where
  "connEstablish os A app c w =
     bind_res
       (in_conn c (\<lambda>x. let x = cx_setState kConnected x in
          enableReadEvent (cx_update os c x) (tie c (tc_channel (cx_conn x)))) w)
       (call_connection os A app c)"

definition connDestory ::
  "'k os \<Rightarrow> alloc \<Rightarrow> ('k, 'z) net_scheme app \<Rightarrow> nat \<Rightarrow> ('k, 'z) net_scheme \<Rightarrow> ('k, 'z) net_scheme res" where
  "connDestory os A app c w =
     (case conns w c of
        None \<Rightarrow> Inl DanglingPointer
      | Some cn \<Rightarrow>
          bind_res
            (if tc_state cn = kConnected then
               bind_res
                 (in_conn c (\<lambda>x. let x = cx_setState kDisconnected x in
                    disableAllEvent (cx_update os c x) (tc_channel (cx_conn x))) w)
                 (call_connection os A app c)
             else Inr w)
            (in_conn c (cx_remove os c)))"

text \<open>\<open>closer\<close> calls a close callback; for the connections of a server it is \<open>removeConnection\<close>.\<close>

definition handleClose ::
  "'k os \<Rightarrow> alloc \<Rightarrow> ('k, 'z) net_scheme app \<Rightarrow>
   (nat \<Rightarrow> nat \<Rightarrow> ('k, 'z) net_scheme \<Rightarrow> ('k, 'z) net_scheme res) \<Rightarrow>
   nat \<Rightarrow> ('k, 'z) net_scheme \<Rightarrow> ('k, 'z) net_scheme res" where
  "handleClose os A app closer c w =
     bind_res
       (in_conn c (\<lambda>x. let x = cx_setState kDisconnected x in
          disableAllEvent (cx_update os c x) (tc_channel (cx_conn x))) w) (\<lambda>w.
     bind_res (call_connection os A app c w) (\<lambda>w.
       case conns w c of
         None \<Rightarrow> Inl DanglingPointer
       | Some cn \<Rightarrow>
           (case close_callback cn of None \<Rightarrow> Inl BadFunctionCall | Some cb \<Rightarrow> closer cb c w)))"

definition handleRead ::
  "'k os \<Rightarrow> alloc \<Rightarrow> ('k, 'z) net_scheme app \<Rightarrow>
   (nat \<Rightarrow> nat \<Rightarrow> ('k, 'z) net_scheme \<Rightarrow> ('k, 'z) net_scheme res) \<Rightarrow>
   nat \<Rightarrow> int \<Rightarrow> ('k, 'z) net_scheme \<Rightarrow> ('k, 'z) net_scheme res" where
  "handleRead os A app closer c receive_time w =
     (case conns w c of
        None \<Rightarrow> Inl DanglingPointer
      | Some cn \<Rightarrow>
          bind_res (buffer_read A (sys_readv os (ch_fd (tc_channel cn))) (kern w) (input_buffer cn))
            (\<lambda>(r, k, b).
            let w = w\<lparr>kern := k, conns := (conns w)(c := Some (cn\<lparr>input_buffer := b\<rparr>))\<rparr> in
            case r of
              Inr n \<Rightarrow>
                if 0 < n then call_message os A app c receive_time w
                else handleClose os A app closer c w
            | Inl _ \<Rightarrow> in_conn c (\<lambda>x. Inr (handleError os x)) w))"

end
