(* ===== verification/ConnectionFacts.thy ===== *)
theory ConnectionFacts
  imports TcpConnection
begin

text \<open>
  Lemmas on the operations of \<open>TcpConnection\<close> that run in the loop thread, and the properties of the
  byte stream they produce. \<open>env_ok\<close> collects what a connection needs of the system; \<open>conn_inv\<close> is the
  invariant of a connection in its context: its channel is registered as its state says, the output
  buffer is well formed, and the socket is not the eventfd of the loop.
\<close>

section \<open>The invariant\<close>

definition env_ok ::
  "'k os \<Rightarrow> ('k \<Rightarrow> int \<Rightarrow> int \<Rightarrow> (32 word \<times> chan_ptr) option) \<Rightarrow> ('k \<Rightarrow> int \<Rightarrow> byte list) \<Rightarrow> bool" where
  "env_ok os v q \<longleftrightarrow> epoll_ok os v \<and> epoll_total os v \<and> write_ok os q \<and> ctl_keeps os q \<and> write_keeps os v"

lemma env_okD:
  assumes "env_ok os v q"
  shows "epoll_ok os v" "epoll_total os v" "write_ok os q" "ctl_keeps os q" "write_keeps os v"
  using assms by (simp_all add: env_ok_def)

lemma toy_env_ok: "env_ok toy_os interest accepted"
  by (simp add: env_ok_def toy_epoll_ok toy_epoll_total toy_write_ok toy_ctl_keeps toy_write_keeps)

definition cx_reg ::
  "('k \<Rightarrow> int \<Rightarrow> int \<Rightarrow> (32 word \<times> chan_ptr) option) \<Rightarrow> nat \<Rightarrow> 'k cctx \<Rightarrow> bool" where
  "cx_reg v self x \<longleftrightarrow> (case poller (cx_loop x) of None \<Rightarrow> False
     | Some po \<Rightarrow> chan_reg v (ConnCh self) (cx_kern x, po, tc_channel (cx_conn x)))"

definition conn_inv ::
  "('k \<Rightarrow> int \<Rightarrow> int \<Rightarrow> (32 word \<times> chan_ptr) option) \<Rightarrow> nat \<Rightarrow> 'k cctx \<Rightarrow> bool" where
  "conn_inv v self x \<longleftrightarrow> cx_reg v self x \<and> buf_inv (output_buffer (cx_conn x))
     \<and> ch_fd (tc_channel (cx_conn x)) \<noteq> wakeup_fd (cx_loop x)"

text \<open>Write interest is on exactly when there are bytes to send.\<close>

definition write_interest :: "'k cctx \<Rightarrow> bool" where
  "write_interest x \<longleftrightarrow>
     (isWriteSet (tc_channel (cx_conn x)) \<longleftrightarrow> content (output_buffer (cx_conn x)) \<noteq> [])"

text \<open>All bytes of the connection so far: those the system accepted, then those buffered.\<close>

definition stream :: "('k \<Rightarrow> int \<Rightarrow> byte list) \<Rightarrow> 'k cctx \<Rightarrow> byte list" where
  "stream q x = q (cx_kern x) (ch_fd (tc_channel (cx_conn x))) @ content (output_buffer (cx_conn x))"

text \<open>A put into this buffer loses nothing.\<close>

definition put_safe :: "byte list \<Rightarrow> buffer \<Rightarrow> bool" where
  "put_safe d b \<longleftrightarrow> fits (length d) b \<or> write_index b \<le> vsize b \<and> write_index b + length d \<le> vec_max"

lemma put_safe_drop: "put_safe d b \<Longrightarrow> put_safe (drop n d) b"
  by (auto simp: put_safe_def fits_def)

lemma buffer_put_safe:
  assumes "buf_inv b" and "put_safe d b"
  shows "\<exists>b'. buffer_put A d b = Inr b' \<and> buf_inv b' \<and> content b' = content b @ d
    \<and> (fits (length d) b \<longrightarrow> length (mem b') = length (mem b))"
proof (cases "fits (length d) b")
  case True
  then show ?thesis using buffer_put_fits [OF assms(1) True, of A] by blast
next
  case False
  then show ?thesis
    using assms buffer_put_grows [OF assms(1) False, of A] survivors_same [OF assms(1)]
    by (auto simp: put_safe_def)
qed

section \<open>The building blocks\<close>

lemma cx_push_frame [simp]:
  "cx_conn (cx_push os f x) = cx_conn x" "cx_tid (cx_push os f x) = cx_tid x"
  "cx_loop (cx_push os f x) = (cx_loop x)\<lparr>pending := pending (cx_loop x) @ [f]\<rparr>"
  by (simp_all add: cx_push_def pushLoopCallback_def Let_def wakeup_def split: prod.splits)

lemma cx_push_kern:
  "cx_kern (cx_push os f x) = cx_kern x
   \<or> cx_kern (cx_push os f x) = snd (sys_write os (wakeup_fd (cx_loop x)) eventfd_one (cx_kern x))"
  by (auto simp: cx_push_def pushLoopCallback_def Let_def wakeup_def)

lemma cx_push_env:
  assumes "env_ok os v q"
  shows "v (cx_kern (cx_push os f x)) = v (cx_kern x)"
    and "fd \<noteq> wakeup_fd (cx_loop x) \<Longrightarrow> q (cx_kern (cx_push os f x)) fd = q (cx_kern x) fd"
proof -
  obtain r k where w: "sys_write os (wakeup_fd (cx_loop x)) eventfd_one (cx_kern x) = (r, k)"
    by fastforce
  show "v (cx_kern (cx_push os f x)) = v (cx_kern x)"
    using cx_push_kern [of os f x] env_okD(5) [OF assms] by (auto simp: write_keeps_def)
  show "q (cx_kern (cx_push os f x)) fd = q (cx_kern x) fd" if "fd \<noteq> wakeup_fd (cx_loop x)"
    using cx_push_kern [of os f x] write_okD(1) [OF env_okD(3) [OF assms] w] that w by auto
qed

text \<open>What a push changes: the queue of the loop, and nothing the invariants look at.\<close>

definition pushed :: "Functor list \<Rightarrow> 'k cctx \<Rightarrow> 'k cctx \<Rightarrow> bool" where
  "pushed fs x x' \<longleftrightarrow> cx_conn x' = cx_conn x \<and> cx_tid x' = cx_tid x
     \<and> cx_loop x' = (cx_loop x)\<lparr>pending := pending (cx_loop x) @ fs\<rparr>"

lemma pushed_push_opt:
  "pushed (case cb of None \<Rightarrow> [] | Some i \<Rightarrow> [mk i]) x (cx_push_opt os mk cb x)"
  by (simp add: pushed_def cx_push_opt_def split: option.splits)

lemma cx_push_opt_env:
  assumes "env_ok os v q"
  shows "v (cx_kern (cx_push_opt os mk cb x)) = v (cx_kern x)"
    and "fd \<noteq> wakeup_fd (cx_loop x) \<Longrightarrow> q (cx_kern (cx_push_opt os mk cb x)) fd = q (cx_kern x) fd"
  using cx_push_env [OF assms] by (simp_all add: cx_push_opt_def split: option.splits)

lemma conn_inv_cong:
  assumes "cx_conn x' = cx_conn x" and "poller (cx_loop x') = poller (cx_loop x)"
    and "wakeup_fd (cx_loop x') = wakeup_fd (cx_loop x)" and "v (cx_kern x') = v (cx_kern x)"
  shows "conn_inv v self x' \<longleftrightarrow> conn_inv v self x"
  using assms by (simp add: conn_inv_def cx_reg_def chan_reg_def split: option.splits)

lemma conn_inv_push_opt:
  assumes "env_ok os v q"
  shows "conn_inv v self (cx_push_opt os mk cb x) \<longleftrightarrow> conn_inv v self x"
  by (rule conn_inv_cong)
     (use pushed_push_opt [of mk cb x os] cx_push_opt_env [OF assms] in \<open>simp_all add: pushed_def\<close>)

lemma conn_inv_output:
  assumes "buf_inv (output_buffer (cx_conn x))"
  shows "conn_inv v self (x\<lparr>cx_conn := (cx_conn x)\<lparr>output_buffer := b\<rparr>\<rparr>)
    \<longleftrightarrow> conn_inv v self x \<and> buf_inv b"
  using assms by (auto simp: conn_inv_def cx_reg_def split: option.splits)

lemma conn_inv_state: "conn_inv v self (cx_setState st x) \<longleftrightarrow> conn_inv v self x"
  by (auto simp: conn_inv_def cx_reg_def cx_setState_def split: option.splits)

text \<open>An interest change of the connection's channel succeeds, keeps the invariant and leaves
  everything else as it was.\<close>

lemma cx_update_ok:
  assumes env: "env_ok os v q" and inv: "conn_inv v self x"
    and ch: "ch_fd ch = ch_fd (tc_channel (cx_conn x))" "ch_state ch = ch_state (tc_channel (cx_conn x))"
  shows "\<exists>x'. cx_update os self x ch = Inr x' \<and> conn_inv v self x'
    \<and> cx_conn x' = (cx_conn x)\<lparr>tc_channel := setState (next_state ch) ch\<rparr>
    \<and> q (cx_kern x') = q (cx_kern x) \<and> cx_tid x' = cx_tid x
    \<and> (\<exists>po. cx_loop x' = (cx_loop x)\<lparr>poller := Some po\<rparr>
         \<and> chan_sync v (ConnCh self) (cx_kern x', po, tc_channel (cx_conn x')))"
proof -
  obtain po where po: "poller (cx_loop x) = Some po"
      "chan_reg v (ConnCh self) (cx_kern x, po, tc_channel (cx_conn x))"
    using inv by (auto simp: conn_inv_def cx_reg_def split: option.splits)
  have "chan_reg v (ConnCh self) (cx_kern x, po, ch)"
    using po(2) ch by (simp add: chan_reg_simp)
  then obtain k' po' where u: "updateChannel os (ConnCh self) (cx_kern x, po, ch)
        = Inr (k', po', setState (next_state ch) ch)"
      "chan_sync v (ConnCh self) (k', po', setState (next_state ch) ch)"
    using updateChannel_sync [OF env_okD(1,2) [OF env], of "ConnCh self" "cx_kern x" po ch] by auto
  have "q k' = q (cx_kern x)"
  proof -
    have keep: "q (snd (sys_epoll_ctl os ep op fd ev p k)) = q k" for ep op fd ev p k
      using env_okD(4) [OF env] by (simp add: ctl_keeps_def)
    have pu: "epoll_update os op p (k, po, ch) = Inr (k', po', ch') \<Longrightarrow> q k' = q k"
      for op p k po ch k' po' and ch' :: "handler channel"
      using keep [of "epollfd po" op "ch_fd ch" "ch_events ch" p k]
      by (auto simp: epoll_update_def split: prod.splits sum.splits if_splits)
    show ?thesis
      using u(1) by (auto simp: updateChannel_def Let_def res_iff split: if_splits prod.splits dest: pu)
  qed
  then show ?thesis
    using u po inv ch by (auto simp: cx_update_def loop_updateChannel_def conn_inv_def cx_reg_def
        chan_sync_reg)
qed

lemma push_opt_ok:
  assumes env: "env_ok os v q" and inv: "conn_inv v self x"
  shows "conn_inv v self (cx_push_opt os mk cb x)" and "cx_conn (cx_push_opt os mk cb x) = cx_conn x"
    and "cx_tid (cx_push_opt os mk cb x) = cx_tid x"
    and "q (cx_kern (cx_push_opt os mk cb x)) (ch_fd (tc_channel (cx_conn x))) = q (cx_kern x) (ch_fd (tc_channel (cx_conn x)))"
proof -
  show "conn_inv v self (cx_push_opt os mk cb x)" using inv conn_inv_push_opt [OF env] by blast
  show "cx_conn (cx_push_opt os mk cb x) = cx_conn x" "cx_tid (cx_push_opt os mk cb x) = cx_tid x"
    using pushed_push_opt [of mk cb x os] by (simp_all add: pushed_def)
  show "q (cx_kern (cx_push_opt os mk cb x)) (ch_fd (tc_channel (cx_conn x))) = q (cx_kern x) (ch_fd (tc_channel (cx_conn x)))"
    by (rule cx_push_opt_env(2) [OF env]) (use inv in \<open>simp add: conn_inv_def\<close>)
qed

lemma kern_write_ok:
  assumes env: "env_ok os v q" and inv: "conn_inv v self x" and rk: "sys_write os fd d (cx_kern x) = (r, k)"
  shows "conn_inv v self (x\<lparr>cx_kern := k\<rparr>)"
proof -
  have "v k = v (cx_kern x)"
    using env_okD(5) [OF env] rk unfolding write_keeps_def by (metis snd_conv)
  then show ?thesis using inv conn_inv_cong [of "x\<lparr>cx_kern := k\<rparr>" x v self] by simp
qed

section \<open>The parts of sendInLoop and handleWrite\<close>

text \<open>The high-water test of a send that leaves \<open>n\<close> bytes, and what follows a write that drained the buffer.\<close>

definition crossed_mark :: "'k os \<Rightarrow> nat \<Rightarrow> nat \<Rightarrow> 'k cctx \<Rightarrow> 'k cctx" where
  "crossed_mark os self n x =
     (let cn = cx_conn x; total = size_add (readableBytes (output_buffer cn)) n in
      if high_water_mark cn \<le> total \<and> readableBytes (output_buffer cn) < high_water_mark cn
      then cx_push_opt os (\<lambda>cb. FHighWater cb self total) (highwater_mark_callback cn) x else x)"

definition all_written :: "'k os \<Rightarrow> nat \<Rightarrow> 'k cctx \<Rightarrow> 'k cctx" where
  "all_written os self x =
     (let x = cx_push_opt os (\<lambda>cb. FWriteComplete cb self) (write_complete_callback (cx_conn x)) x
      in if tc_state (cx_conn x) = kDisconnecting then shutdownInLoop os x else x)"

lemma sendInLoop_queue_run:
  assumes "wrote < length d"
  shows "sendInLoop_queue os A self d (x, wrote, length d - wrote, False) =
    bind_res (buffer_put A (drop wrote d) (output_buffer (cx_conn x))) (\<lambda>b.
      let x2 = (crossed_mark os self (length d - wrote) x)\<lparr>cx_conn := (cx_conn x)\<lparr>output_buffer := b\<rparr>\<rparr> in
      if \<not> isWriteSet (tc_channel (cx_conn x)) then enableWriteEvent (cx_update os self x2) (tc_channel (cx_conn x))
      else Inr x2)"
proof -
  have "bytes_read wrote (length d - wrote) d = Inr (drop wrote d)" using assms by (simp add: bytes_read_ok)
  then show ?thesis using assms by (simp add: sendInLoop_queue_def crossed_mark_def Let_def)
qed

lemma handleWrite_run:
  assumes "isWriteSet (tc_channel (cx_conn x))"
    and "buffer_write (sys_write os (ch_fd (tc_channel (cx_conn x)))) (cx_kern x) (output_buffer (cx_conn x)) = Inr (r, k)"
  shows "\<And>e. r = Inl e \<Longrightarrow> handleWrite os self x = Inr (x\<lparr>cx_kern := k\<rparr>)"
    and "r = Inr 0 \<Longrightarrow> handleWrite os self x = Inr (x\<lparr>cx_kern := k\<rparr>)"
    and "\<And>n. r = Inr n \<Longrightarrow> 0 < n \<Longrightarrow> handleWrite os self x =
      (let b = pushState n (output_buffer (cx_conn x)); x2 = x\<lparr>cx_kern := k, cx_conn := (cx_conn x)\<lparr>output_buffer := b\<rparr>\<rparr> in
       if readableBytes b = 0
       then bind_res (disableWriteEvent (cx_update os self x2) (tc_channel (cx_conn x))) (\<lambda>x. Inr (all_written os self x))
       else Inr x2)"
  using assms by (simp_all add: handleWrite_def all_written_def Let_def)

lemma crossed_mark_ok:
  assumes env: "env_ok os v q" and inv: "conn_inv v self x"
  shows "conn_inv v self (crossed_mark os self n x)" and "cx_conn (crossed_mark os self n x) = cx_conn x"
    and "q (cx_kern (crossed_mark os self n x)) (ch_fd (tc_channel (cx_conn x))) = q (cx_kern x) (ch_fd (tc_channel (cx_conn x)))"
  using push_opt_ok [OF env inv] inv by (simp_all add: crossed_mark_def Let_def)

lemma all_written_ok:
  assumes env: "env_ok os v q" and inv: "conn_inv v self x"
    and shut: "\<And>fd k. v (snd (sys_shutdown_wr os fd k)) = v k \<and> q (snd (sys_shutdown_wr os fd k)) = q k"
  shows "conn_inv v self (all_written os self x)" and "cx_conn (all_written os self x) = cx_conn x"
    and "q (cx_kern (all_written os self x)) (ch_fd (tc_channel (cx_conn x))) = q (cx_kern x) (ch_fd (tc_channel (cx_conn x)))"
proof -
  let ?y = "cx_push_opt os (\<lambda>cb. FWriteComplete cb self) (write_complete_callback (cx_conn x)) x"
  note P = push_opt_ok [OF env inv, of "\<lambda>cb. FWriteComplete cb self" "write_complete_callback (cx_conn x)"]
  have "cx_conn (shutdownInLoop os ?y) = cx_conn ?y" "cx_loop (shutdownInLoop os ?y) = cx_loop ?y"
      "v (cx_kern (shutdownInLoop os ?y)) = v (cx_kern ?y)" "q (cx_kern (shutdownInLoop os ?y)) = q (cx_kern ?y)"
    using shut by (simp_all add: shutdownInLoop_def shutdownWrite_def)
  then have "conn_inv v self (shutdownInLoop os ?y)" "cx_conn (shutdownInLoop os ?y) = cx_conn x"
      "q (cx_kern (shutdownInLoop os ?y)) = q (cx_kern ?y)"
    using P conn_inv_cong [of "shutdownInLoop os ?y" ?y v self] by simp_all
  then show "conn_inv v self (all_written os self x)" and "cx_conn (all_written os self x) = cx_conn x"
    and "q (cx_kern (all_written os self x)) (ch_fd (tc_channel (cx_conn x))) = q (cx_kern x) (ch_fd (tc_channel (cx_conn x)))"
    using P by (simp_all add: all_written_def Let_def)
qed

section \<open>sendInLoop\<close>

text \<open>The direct write of this send hits a broken connection.\<close>

definition send_fault :: "'k os \<Rightarrow> byte list \<Rightarrow> 'k cctx \<Rightarrow> bool" where
  "send_fault os d x \<longleftrightarrow> \<not> isWriteSet (tc_channel (cx_conn x))
     \<and> content (output_buffer (cx_conn x)) = []
     \<and> (\<exists>e. fst (sys_write os (ch_fd (tc_channel (cx_conn x))) d (cx_kern x)) = Inl e
          \<and> (e = EPIPE \<or> e = ECONNRESET))"

lemma fault_errno: "e \<noteq> EWOULDBLOCK \<and> (e = EPIPE \<or> e = ECONNRESET) \<longleftrightarrow> e = EPIPE \<or> e = ECONNRESET"
  by (auto simp: EWOULDBLOCK_def EPIPE_def ECONNRESET_def)

lemma sendInLoop_write_spec:
  assumes env: "env_ok os v q" and inv: "conn_inv v self x"
    and w: "sendInLoop_write os self d x = (x1, wrote, remained, fault)"
  shows "conn_inv v self x1" "cx_conn x1 = cx_conn x" "cx_tid x1 = cx_tid x"
    "wrote \<le> length d" "remained = length d - wrote" "fault \<longleftrightarrow> send_fault os d x"
    "q (cx_kern x1) (ch_fd (tc_channel (cx_conn x)))
       = q (cx_kern x) (ch_fd (tc_channel (cx_conn x))) @ take wrote d"
    "0 < wrote \<Longrightarrow> content (output_buffer (cx_conn x)) = []" "fault \<Longrightarrow> wrote = 0"
proof -
  let ?cn = "cx_conn x" and ?fd = "ch_fd (tc_channel (cx_conn x))"
  have empty: "readableBytes (output_buffer ?cn) = 0 \<longleftrightarrow> content (output_buffer ?cn) = []"
    using inv content_nil_iff [of "output_buffer ?cn"] by (simp add: conn_inv_def)
  obtain r k where rk: "sys_write os ?fd d (cx_kern x) = (r, k)" by fastforce
  note W = write_okD [OF env_okD(3) [OF env] rk]
  have inv': "conn_inv v self (x\<lparr>cx_kern := k\<rparr>)" by (rule kern_write_ok [OF env inv rk])
  note push = push_opt_ok [OF env inv', simplified]
  have all: "conn_inv v self x1 \<and> cx_conn x1 = ?cn \<and> cx_tid x1 = cx_tid x
      \<and> wrote \<le> length d \<and> remained = length d - wrote \<and> (fault \<longleftrightarrow> send_fault os d x)
      \<and> q (cx_kern x1) ?fd = q (cx_kern x) ?fd @ take wrote d
      \<and> (0 < wrote \<longrightarrow> content (output_buffer ?cn) = []) \<and> (fault \<longrightarrow> wrote = 0)"
  proof (cases "\<not> isWriteSet (tc_channel ?cn) \<and> content (output_buffer ?cn) = []")
    case direct: True
    show ?thesis
    proof (cases r)
      case (Inl e)
      then show ?thesis
        using w rk direct empty inv' W(2)
        by (auto simp: sendInLoop_write_def Let_def send_fault_def fault_errno)
    next
      case (Inr n)
      have "n \<le> length d" "q k ?fd = q (cx_kern x) ?fd @ take n d"
        using W(3,4) Inr by auto
      then show ?thesis
        using w rk Inr direct empty inv' push
        by (auto simp: sendInLoop_write_def Let_def send_fault_def size_sub_exact split: if_splits)
    qed
  next
    case False
    then show ?thesis
      using w empty inv by (auto simp: sendInLoop_write_def Let_def send_fault_def)
  qed
  then show "conn_inv v self x1" "cx_conn x1 = cx_conn x" "cx_tid x1 = cx_tid x"
    "wrote \<le> length d" "remained = length d - wrote" "fault \<longleftrightarrow> send_fault os d x"
    "q (cx_kern x1) ?fd = q (cx_kern x) ?fd @ take wrote d"
    "0 < wrote \<Longrightarrow> content (output_buffer (cx_conn x)) = []" "fault \<Longrightarrow> wrote = 0"
    by blast+
qed

lemma sendInLoop_queue_spec:
  assumes env: "env_ok os v q" and inv: "conn_inv v self x"
    and len: "wrote \<le> length d" and safe: "put_safe (drop wrote d) (output_buffer (cx_conn x))"
  shows "\<exists>x'. sendInLoop_queue os A self d (x, wrote, length d - wrote, False) = Inr x'
    \<and> conn_inv v self x' \<and> tc_state (cx_conn x') = tc_state (cx_conn x)
    \<and> content (output_buffer (cx_conn x')) = content (output_buffer (cx_conn x)) @ drop wrote d
    \<and> (isWriteSet (tc_channel (cx_conn x')) \<longleftrightarrow>
         isWriteSet (tc_channel (cx_conn x)) \<or> drop wrote d \<noteq> [])
    \<and> ch_fd (tc_channel (cx_conn x')) = ch_fd (tc_channel (cx_conn x))
    \<and> q (cx_kern x') (ch_fd (tc_channel (cx_conn x))) = q (cx_kern x) (ch_fd (tc_channel (cx_conn x)))
    \<and> (fits (length (drop wrote d)) (output_buffer (cx_conn x)) \<longrightarrow>
         length (mem (output_buffer (cx_conn x'))) = length (mem (output_buffer (cx_conn x))))"
proof (cases "wrote < length d")
  case False
  then show ?thesis using inv len by (simp add: sendInLoop_queue_def)
next
  case True
  let ?cn = "cx_conn x" and ?x1 = "crossed_mark os self (length d - wrote) x"
  have b: "buf_inv (output_buffer ?cn)" using inv by (simp add: conn_inv_def)
  note x1 = crossed_mark_ok [OF env inv, of "length d - wrote"]
  obtain b' where b': "buffer_put A (drop wrote d) (output_buffer ?cn) = Inr b'" "buf_inv b'"
      "content b' = content (output_buffer ?cn) @ drop wrote d"
      "fits (length (drop wrote d)) (output_buffer ?cn) \<longrightarrow>
         length (mem b') = length (mem (output_buffer ?cn))"
    using buffer_put_safe [OF b safe, of A] by blast
  define x2 where "x2 = ?x1\<lparr>cx_conn := ?cn\<lparr>output_buffer := b'\<rparr>\<rparr>"
  have x2: "conn_inv v self x2" "cx_conn x2 = ?cn\<lparr>output_buffer := b'\<rparr>" "cx_kern x2 = cx_kern ?x1"
    using conn_inv_output [of ?x1 v self b'] x1 b b'(2) by (simp_all add: x2_def)
  note step = sendInLoop_queue_run [OF True, of os A self x, unfolded b'(1) bind_res_simps Let_def, folded x2_def]
  show ?thesis
  proof (cases "isWriteSet (tc_channel ?cn)")
    case True
    then show ?thesis using step x2 x1 b' by simp
  next
    case False
    let ?ch = "(tc_channel ?cn)\<lparr>ch_events := ch_events (tc_channel ?cn) OR kWritable\<rparr>"
    obtain x' where x': "cx_update os self x2 ?ch = Inr x'" "conn_inv v self x'"
        "cx_conn x' = (cx_conn x2)\<lparr>tc_channel := setState (next_state ?ch) ?ch\<rparr>"
        "q (cx_kern x') = q (cx_kern x2)"
      using cx_update_ok [OF env x2(1), of ?ch] x2(2) by auto
    have "isWriteSet ?ch" by (simp add: isWriteSet_bit bit_or_iff)
    then show ?thesis
      using step False x' x2 x1 b' \<open>wrote < length d\<close> by (simp add: enableWriteEvent_def)
  qed
qed

text \<open>The whole of \<open>sendInLoop\<close>.\<close>

lemma sendInLoop_spec:
  assumes env: "env_ok os v q" and inv: "conn_inv v self x"
    and safe: "put_safe d (output_buffer (cx_conn x))"
  shows "\<exists>x'. sendInLoop os A self d x = Inr x' \<and> conn_inv v self x'
    \<and> tc_state (cx_conn x') = kDisconnected
    \<and> (if send_fault os d x then stream q x' = stream q x else stream q x' = stream q x @ d)
    \<and> (write_interest x \<longrightarrow> write_interest x')
    \<and> (fits (length d) (output_buffer (cx_conn x)) \<longrightarrow>
         length (mem (output_buffer (cx_conn x'))) = length (mem (output_buffer (cx_conn x))))
    \<and> length (content (output_buffer (cx_conn x')))
        \<le> length (content (output_buffer (cx_conn x))) + length d"
proof -
  let ?x = "cx_setState kDisconnected x"
  have same: "tc_channel (cx_conn ?x) = tc_channel (cx_conn x)"
      "output_buffer (cx_conn ?x) = output_buffer (cx_conn x)" "cx_kern ?x = cx_kern x"
      "tc_state (cx_conn ?x) = kDisconnected"
    by (simp_all add: cx_setState_def)
  have b: "buf_inv (output_buffer (cx_conn x))"
    using inv by (simp add: conn_inv_def)
  have inv0: "conn_inv v self ?x"
    using inv by (simp add: conn_inv_state)
  obtain x1 wrote remained fault
    where w: "sendInLoop_write os self d ?x = (x1, wrote, remained, fault)"
    by (cases "sendInLoop_write os self d ?x") auto
  note W = sendInLoop_write_spec [OF env inv0 w]
  have fault_same: "send_fault os d ?x \<longleftrightarrow> send_fault os d x"
    by (simp add: send_fault_def same)
  show ?thesis
  proof (cases fault)
    case True
    then show ?thesis
      using W w fault_same same
      by (simp add: sendInLoop_def sendInLoop_queue_def stream_def write_interest_def)
  next
    case False
    have "put_safe (drop wrote d) (output_buffer (cx_conn x1))"
      using put_safe_drop [OF safe] W(2) same by simp
    from sendInLoop_queue_spec [OF env W(1) W(4) this, of A]
    obtain x' where x': "sendInLoop_queue os A self d (x1, wrote, length d - wrote, False) = Inr x'"
        "conn_inv v self x'" "tc_state (cx_conn x') = tc_state (cx_conn x1)"
        "content (output_buffer (cx_conn x')) = content (output_buffer (cx_conn x1)) @ drop wrote d"
        "isWriteSet (tc_channel (cx_conn x')) \<longleftrightarrow>
           isWriteSet (tc_channel (cx_conn x1)) \<or> drop wrote d \<noteq> []"
        "ch_fd (tc_channel (cx_conn x')) = ch_fd (tc_channel (cx_conn x1))"
        "q (cx_kern x') (ch_fd (tc_channel (cx_conn x1))) = q (cx_kern x1) (ch_fd (tc_channel (cx_conn x1)))"
        "fits (length (drop wrote d)) (output_buffer (cx_conn x1)) \<longrightarrow>
           length (mem (output_buffer (cx_conn x'))) = length (mem (output_buffer (cx_conn x1)))"
      by blast
    have send: "sendInLoop os A self d x = Inr x'"
      using w W(5) False x'(1) by (simp add: sendInLoop_def)
    have "stream q x' = stream q x @ d"
    proof (cases "wrote = 0")
      case True
      then show ?thesis using x' W(2,7) same by (simp add: stream_def)
    next
      case False
      then have "content (output_buffer (cx_conn x)) = []" using W(8) same by simp
      then show ?thesis using x' W(2,7) same by (simp add: stream_def)
    qed
    moreover have "write_interest x \<longrightarrow> write_interest x'"
      using x' W(2) same by (auto simp: write_interest_def)
    moreover have "fits (length d) (output_buffer (cx_conn x)) \<longrightarrow>
        length (mem (output_buffer (cx_conn x'))) = length (mem (output_buffer (cx_conn x)))"
      using x'(8) W(2) same by (auto simp: fits_def)
    ultimately show ?thesis
      using send x' W(2,6) same False fault_same by simp
  qed
qed

section \<open>handleWrite\<close>

lemma handleWrite_spec:
  assumes env: "env_ok os v q" and inv: "conn_inv v self x" and wi: "write_interest x"
    and shut: "\<And>fd k. v (snd (sys_shutdown_wr os fd k)) = v k \<and> q (snd (sys_shutdown_wr os fd k)) = q k"
  shows "\<exists>x'. handleWrite os self x = Inr x' \<and> conn_inv v self x' \<and> stream q x' = stream q x
    \<and> write_interest x' \<and> tc_state (cx_conn x') = tc_state (cx_conn x)
    \<and> length (mem (output_buffer (cx_conn x'))) = length (mem (output_buffer (cx_conn x)))
    \<and> length (content (output_buffer (cx_conn x'))) \<le> length (content (output_buffer (cx_conn x)))"
proof (cases "isWriteSet (tc_channel (cx_conn x))")
  case False
  then show ?thesis using inv wi by (simp add: handleWrite_def Let_def)
next
  case set: True
  let ?cn = "cx_conn x" and ?b = "output_buffer (cx_conn x)" and ?ch = "tc_channel (cx_conn x)"
  let ?fd = "ch_fd ?ch"
  have b: "buf_inv ?b" using inv by (simp add: conn_inv_def)
  obtain r k where rk: "sys_write os ?fd (content ?b) (cx_kern x) = (r, k)" by fastforce
  note W = write_okD [OF env_okD(3) [OF env] rk]
  let ?x1 = "x\<lparr>cx_kern := k\<rparr>"
  have inv1: "conn_inv v self ?x1" by (rule kern_write_ok [OF env inv rk])
  have "bytes_read (read_index ?b) (readableBytes ?b) (mem ?b) = Inr (content ?b)"
    using b buf_invD [OF b] by (simp add: bytes_read_ok readable_content length_content content_def)
  then have wr: "buffer_write (sys_write os ?fd) (cx_kern x) ?b = Inr (r, k)"
    by (simp add: buffer_write_def rk)
  note run = handleWrite_run [OF set wr, where self = self]
  show ?thesis
  proof (cases "\<exists>n. r = Inr n \<and> 0 < n")
    case False
    then have "handleWrite os self x = Inr ?x1" using run(1,2) by (cases r) auto
    moreover have "q k ?fd = q (cx_kern x) ?fd" using False W(2,4) by (cases r) auto
    ultimately show ?thesis using inv1 wi by (simp add: stream_def write_interest_def)
  next
    case True
    then obtain n where n: "r = Inr n" "0 < n" by blast
    let ?b' = "pushState n ?b"
    let ?x2 = "x\<lparr>cx_kern := k, cx_conn := ?cn\<lparr>output_buffer := ?b'\<rparr>\<rparr>"
    have b': "buf_inv ?b'" "content ?b' = drop n (content ?b)"
      by (simp_all add: b pushState_inv pushState_content)
    have nil: "readableBytes ?b' = 0 \<longleftrightarrow> content ?b' = []" using content_nil_iff [OF b'(1)] by simp
    have q2: "q k ?fd @ content ?b' = q (cx_kern x) ?fd @ content ?b" using W(4) n b'(2) by simp
    have inv2: "conn_inv v self ?x2" using conn_inv_output [of ?x1 v self ?b'] inv1 b b'(1) by simp
    let ?ch' = "?ch\<lparr>ch_events := ch_events ?ch AND NOT kWritable\<rparr>"
    obtain x3 where x3: "cx_update os self ?x2 ?ch' = Inr x3" "conn_inv v self x3"
        "cx_conn x3 = (cx_conn ?x2)\<lparr>tc_channel := setState (next_state ?ch') ?ch'\<rparr>" "q (cx_kern x3) = q k"
      using cx_update_ok [OF env inv2, of ?ch'] by auto
    have off: "\<not> isWriteSet ?ch'" by (simp add: isWriteSet_bit bit_and_iff bit_not_iff)
    note x4 = all_written_ok [OF env x3(2) shut]
    show ?thesis
    proof (cases "readableBytes ?b' = 0")
      case True
      then have "handleWrite os self x = Inr (all_written os self x3)"
        using run(3) [OF n] x3(1) by (simp add: disableWriteEvent_def)
      then show ?thesis using True nil x3 x4 q2 off by (simp add: stream_def write_interest_def)
    next
      case False
      then have "handleWrite os self x = Inr ?x2" using run(3) [OF n] by simp
      then show ?thesis using False nil set inv2 q2 b'(2) by (simp add: stream_def write_interest_def)
    qed
  qed
qed

section \<open>Sequences of sends and write events\<close>

datatype conn_step = DoSend "byte list" | DoWritable

fun conn_do :: "'k os \<Rightarrow> alloc \<Rightarrow> nat \<Rightarrow> conn_step \<Rightarrow> 'k cctx \<Rightarrow> 'k cctx res" where
  "conn_do os A self (DoSend d) x = sendInLoop os A self d x"
| "conn_do os A self DoWritable x = handleWrite os self x"

fun sent :: "conn_step list \<Rightarrow> byte list" where
  "sent [] = []"
| "sent (DoSend d # ss) = d @ sent ss"
| "sent (DoWritable # ss) = sent ss"

text \<open>The system never reports a broken connection, and shutting down touches neither view.\<close>

definition never_broken :: "'k os \<Rightarrow> bool" where
  "never_broken os \<longleftrightarrow> (\<forall>fd d k e. fst (sys_write os fd d k) = Inl e \<longrightarrow> e \<noteq> EPIPE \<and> e \<noteq> ECONNRESET)"

definition shutdown_keeps :: "'k os \<Rightarrow> ('k \<Rightarrow> 'a) \<Rightarrow> bool" where
  "shutdown_keeps os f \<longleftrightarrow> (\<forall>fd k. f (snd (sys_shutdown_wr os fd k)) = f k)"

lemma never_broken_no_fault: "never_broken os \<Longrightarrow> \<not> send_fault os d x"
  by (auto simp: never_broken_def send_fault_def)

lemma conn_run_stream:
  assumes env: "env_ok os v q" and nb: "never_broken os"
    and sk: "shutdown_keeps os v" "shutdown_keeps os q"
  shows "conn_inv v self x \<Longrightarrow> write_interest x \<Longrightarrow>
    fits (length (sent ss)) (output_buffer (cx_conn x)) \<Longrightarrow>
    \<exists>x'. fold_res (conn_do os A self) ss x = Inr x' \<and> conn_inv v self x' \<and> write_interest x'
      \<and> stream q x' = stream q x @ sent ss"
proof (induction ss arbitrary: x)
  case (Cons s ss)
  show ?case
  proof (cases s)
    case (DoSend d)
    have "fits (length d) (output_buffer (cx_conn x))"
      using Cons.prems(3) DoSend by (simp add: fits_def)
    then obtain x1 where x1: "sendInLoop os A self d x = Inr x1" "conn_inv v self x1"
        "stream q x1 = stream q x @ d" "write_interest x1"
        "length (mem (output_buffer (cx_conn x1))) = length (mem (output_buffer (cx_conn x)))"
        "length (content (output_buffer (cx_conn x1)))
           \<le> length (content (output_buffer (cx_conn x))) + length d"
      using sendInLoop_spec [OF env Cons.prems(1), of d A] Cons.prems(2)
        never_broken_no_fault [OF nb] by (auto simp: put_safe_def)
    have "fits (length (sent ss)) (output_buffer (cx_conn x1))"
      using Cons.prems(3) DoSend x1 by (simp add: fits_def)
    from Cons.IH [OF x1(2,4) this] show ?thesis
      using DoSend x1 by simp
  next
    case DoWritable
    obtain x1 where x1: "handleWrite os self x = Inr x1" "conn_inv v self x1" "write_interest x1"
        "stream q x1 = stream q x"
        "length (mem (output_buffer (cx_conn x1))) = length (mem (output_buffer (cx_conn x)))"
        "length (content (output_buffer (cx_conn x1))) \<le> length (content (output_buffer (cx_conn x)))"
      using handleWrite_spec [OF env Cons.prems(1,2)] sk by (auto simp: shutdown_keeps_def)
    have "fits (length (sent ss)) (output_buffer (cx_conn x1))"
      using Cons.prems(3) DoWritable x1 by (simp add: fits_def)
    from Cons.IH [OF x1(2,3) this] show ?thesis
      using DoWritable x1 by simp
  qed
qed simp

section \<open>What sendInLoop queues on the loop\<close>

lemma cx_update_pending:
  "cx_update os self x ch = Inr x' \<Longrightarrow> pending (cx_loop x') = pending (cx_loop x)"
  by (auto simp: cx_update_def loop_updateChannel_def res_iff split: option.splits prod.splits)

definition opt_functor :: "(nat \<Rightarrow> Functor) \<Rightarrow> nat option \<Rightarrow> Functor list" where
  "opt_functor mk cb = (case cb of None \<Rightarrow> [] | Some i \<Rightarrow> [mk i])"

lemma cx_push_opt_pending:
  "pending (cx_loop (cx_push_opt os mk cb x)) = pending (cx_loop x) @ opt_functor mk cb"
  "cx_conn (cx_push_opt os mk cb x) = cx_conn x"
  using pushed_push_opt [of mk cb x os] by (simp_all add: pushed_def opt_functor_def)

lemma sendInLoop_queue_pending:
  assumes "sendInLoop_queue os A self d (x, wrote, remained, fault) = Inr x'"
  shows "pending (cx_loop x') = pending (cx_loop x) @
    (let total = size_add (readableBytes (output_buffer (cx_conn x))) remained in
     if \<not> fault \<and> 0 < remained \<and> high_water_mark (cx_conn x) \<le> total
        \<and> readableBytes (output_buffer (cx_conn x)) < high_water_mark (cx_conn x)
     then opt_functor (\<lambda>cb. FHighWater cb self total) (highwater_mark_callback (cx_conn x)) else [])"
  using assms
  by (auto simp: sendInLoop_queue_def Let_def res_iff enableWriteEvent_def cx_push_opt_pending
      dest!: cx_update_pending split: if_splits)

lemma sendInLoop_write_pending:
  assumes "sendInLoop_write os self d x = (x1, wrote, remained, fault)"
  shows "pending (cx_loop x1) = pending (cx_loop x) @
    (if \<not> isWriteSet (tc_channel (cx_conn x)) \<and> readableBytes (output_buffer (cx_conn x)) = 0
        \<and> (\<exists>n. fst (sys_write os (ch_fd (tc_channel (cx_conn x))) d (cx_kern x)) = Inr n)
        \<and> remained = 0
     then opt_functor (\<lambda>cb. FWriteComplete cb self) (write_complete_callback (cx_conn x)) else [])
    \<and> cx_conn x1 = cx_conn x"
  using assms
  by (auto simp: sendInLoop_write_def Let_def cx_push_opt_pending split: if_splits prod.splits sum.splits)

section \<open>The state after a send\<close>

lemma cx_update_state:
  "cx_update os self x ch = Inr x' \<Longrightarrow> tc_state (cx_conn x') = tc_state (cx_conn x)
    \<and> tc_loop (cx_conn x') = tc_loop (cx_conn x)"
  by (auto simp: cx_update_def loop_updateChannel_def res_iff split: option.splits prod.splits)

lemma sendInLoop_disconnects:
  assumes "sendInLoop os A self d x = Inr x'"
  shows "tc_state (cx_conn x') = kDisconnected \<and> tc_loop (cx_conn x') = tc_loop (cx_conn x)"
proof -
  obtain x1 wrote remained fault
    where w: "sendInLoop_write os self d (cx_setState kDisconnected x) = (x1, wrote, remained, fault)"
    by (cases "sendInLoop_write os self d (cx_setState kDisconnected x)") auto
  have c: "cx_conn x1 = (cx_conn x)\<lparr>tc_state := kDisconnected\<rparr>"
    using sendInLoop_write_pending [OF w] by (simp add: cx_setState_def)
  show ?thesis
    using assms c unfolding sendInLoop_def w
    by (auto simp: sendInLoop_queue_def Let_def res_iff enableWriteEvent_def
        dest!: cx_update_state split: if_splits)
qed

lemma in_conn_Inr:
  assumes "in_conn c f w = Inr w'"
  shows "\<exists>cn x. conns w c = Some cn
    \<and> f \<lparr>cx_kern = kern w, cx_tid = cur_tid w, cx_loop = loops w (tc_loop cn), cx_conn = cn\<rparr> = Inr x
    \<and> w' = w\<lparr>kern := cx_kern x, loops := (loops w)(tc_loop cn := cx_loop x),
             conns := (conns w)(c := Some (cx_conn x))\<rparr>"
  using assms by (auto simp: in_conn_def res_iff split: option.splits)

section \<open>A connection for the witnesses\<close>

definition toy_loop :: event_loop where
  "toy_loop = \<lparr>looping = True, quit_flag = False, thread_id = 1, poll_return_time = 0,
     poller = Some toy_poller, wakeup_fd = 4, wakeup_channel = Channel_new 0 4,
     active_channels = [], calling_pending = False, pending = []\<rparr>"

definition toy_conn :: tcp_connection where
  "toy_conn = \<lparr>tc_loop = 0, tc_name = ''toy'', tc_state = kConnected, reading = True, tc_sockfd = 7,
     tc_channel = setReadCallback (HConnRead 0) (Channel_new 0 7), local_addr = zero_sockaddr,
     peer_addr = zero_sockaddr, conn_callback = Some 1, msg_callback = Some 2,
     write_complete_callback = Some 3, highwater_mark_callback = Some 4, close_callback = Some 0,
     high_water_mark = 2, input_buffer = six, output_buffer = six\<rparr>"

definition toy_cx :: "toy cctx" where
  "toy_cx = \<lparr>cx_kern = toy_start, cx_tid = 1, cx_loop = toy_loop, cx_conn = toy_conn\<rparr>"

definition toy_net :: "toy net" where
  "toy_net = \<lparr>kern = toy_start, cur_tid = 1, loops = (\<lambda>_. toy_loop), conns = [0 \<mapsto> toy_conn],
     strs = [5 \<mapsto> [1, 2, 3, 4, 5]], trace = []\<rparr>"

lemma toy_cx_inv: "conn_inv interest 0 toy_cx"
  by (simp add: conn_inv_def cx_reg_def toy_cx_def toy_loop_def toy_conn_def six_inv chan_reg_simp
      Channel_new_def setReadCallback_def toy_poller_def toy_start_def chan_states)

lemma toy_cx_interest: "write_interest toy_cx"
  by (simp add: write_interest_def toy_cx_def toy_conn_def six_content isWriteSet_bit
      setReadCallback_def Channel_new_def)

lemma toy_never_broken: "never_broken toy_os"
  by (auto simp: never_broken_def toy_write_def Let_def EWOULDBLOCK_def EPIPE_def ECONNRESET_def
      split: if_splits)

lemma toy_shutdown_keeps: "shutdown_keeps toy_os f"
  by (simp add: shutdown_keeps_def)

section \<open>Properties\<close>





text \<open>A write event moves bytes from the buffer to the system and nothing else: the stream is
  unchanged, write interest is switched off exactly when the buffer has been drained, the state of
  the connection is kept, and the buffer is not reallocated.\<close>

theorem handleWrite_outcome:
  assumes "env_ok os v q" and "shutdown_keeps os v" and "shutdown_keeps os q"
    and "conn_inv v self x" and "write_interest x"
  shows "\<exists>x'. handleWrite os self x = Inr x' \<and> conn_inv v self x' \<and> stream q x' = stream q x
    \<and> write_interest x' \<and> tc_state (cx_conn x') = tc_state (cx_conn x)
    \<and> length (mem (output_buffer (cx_conn x'))) = length (mem (output_buffer (cx_conn x)))"
  using handleWrite_spec [OF assms(1,4,5)] assms(2,3) by (auto simp: shutdown_keeps_def)

theorem handleWrite_outcome_witness:
  "\<exists>x x'. sendInLoop toy_os libstdcxx 0 [1, 2, 3, 4, 5] toy_cx = Inr x
    \<and> handleWrite toy_os 0 x = Inr x' \<and> stream accepted x' = [1, 2, 3, 4, 5]"
proof -
  have "put_safe [1, 2, 3, 4, 5] (output_buffer (cx_conn toy_cx))"
    by (simp add: put_safe_def fits_def toy_cx_def toy_conn_def six_content six_cap)
  then obtain x where x: "sendInLoop toy_os libstdcxx 0 [1, 2, 3, 4, 5] toy_cx = Inr x"
      "conn_inv interest 0 x" "write_interest x" "stream accepted x = [1, 2, 3, 4, 5]"
    using sendInLoop_spec [OF toy_env_ok toy_cx_inv, of "[1, 2, 3, 4, 5]" libstdcxx] toy_cx_interest
      never_broken_no_fault [OF toy_never_broken]
    by (auto simp: stream_def toy_cx_def toy_conn_def six_content toy_start_def)
  show ?thesis
    using handleWrite_outcome [OF toy_env_ok toy_shutdown_keeps toy_shutdown_keeps x(2,3)] x(1,4)
    by auto
qed



text \<open>C27. After the first \<open>send\<close> in the loop thread a connection is dead to its user: the assignment in
  the first test of \<open>sendInLoop\<close> leaves it in \<open>kDisconnected\<close>, so that every later \<open>send\<close> and
  \<open>shutdown\<close> returns without doing anything.\<close>

theorem first_send_disables_connection:
  assumes "conns w c = Some cn" and "tc_state cn = kConnected"
    and "isInLoopThread (cur_tid w) (loops w (tc_loop cn))" and "tcp_send os A c s w = Inr w'"
  shows "(\<exists>cn'. conns w' c = Some cn' \<and> tc_state cn' = kDisconnected)
    \<and> tcp_send os A c s' w' = Inr w' \<and> tcp_shutdown os A c w' = Inr w'"
proof -
  obtain d where "in_conn c (sendInLoop os A c d) w = Inr w'"
    using assms by (auto simp: tcp_send_def split: option.splits)
  then obtain cn' where "conns w' c = Some cn'" "tc_state cn' = kDisconnected"
    by (auto dest!: in_conn_Inr sendInLoop_disconnects)
  then show ?thesis by (auto simp: tcp_send_def tcp_shutdown_def)
qed

theorem first_send_disables_connection_witness:
  "\<exists>w'. tcp_send toy_os libstdcxx 0 5 toy_net = Inr w' \<and> tcp_send toy_os libstdcxx 0 5 w' = Inr w'"
proof -
  have c: "conns toy_net 0 = Some toy_conn" "tc_state toy_conn = kConnected"
      "isInLoopThread (cur_tid toy_net) (loops toy_net (tc_loop toy_conn))"
      "strs toy_net 5 = Some [1, 2, 3, 4, 5]"
    by (simp_all add: toy_net_def toy_conn_def isInLoopThread_def toy_loop_def)
  have "put_safe [1, 2, 3, 4, 5] (output_buffer (cx_conn toy_cx))"
    by (simp add: put_safe_def fits_def toy_cx_def toy_conn_def six_content six_cap)
  then obtain x' where x': "sendInLoop toy_os libstdcxx 0 [1, 2, 3, 4, 5] toy_cx = Inr x'"
    using sendInLoop_spec [OF toy_env_ok toy_cx_inv, of "[1, 2, 3, 4, 5]" libstdcxx] by blast
  have cx: "\<lparr>cx_kern = kern toy_net, cx_tid = cur_tid toy_net, cx_loop = loops toy_net (tc_loop toy_conn),
      cx_conn = toy_conn\<rparr> = toy_cx"
    by (simp add: toy_net_def toy_cx_def)
  obtain w' where w': "tcp_send toy_os libstdcxx 0 5 toy_net = Inr w'"
    using c x' by (simp add: tcp_send_def in_conn_def cx)
  show ?thesis
    using first_send_disables_connection [OF c(1-3) w', of 5] w' by blast
qed

text \<open>C28. A \<open>send\<close> from another thread queues the address of the caller's characters, not a copy: if
  the string is destroyed before the loop gets to the functor, running it reads freed memory.\<close>

theorem cross_thread_send_dangles:
  assumes "conns w c = Some cn" and "tc_state cn = kConnected" and "strs w s = Some d"
    and "\<not> isInLoopThread (cur_tid w) (loops w (tc_loop cn))"
  shows "\<exists>w'. tcp_send os A c s w = Inr w'
    \<and> pending (loops w' (tc_loop cn)) = pending (loops w (tc_loop cn)) @ [FSendInLoop c s (length d)]
    \<and> bind_res (perform os A (AFreeString s) w') (run_conn_functor os A (FSendInLoop c s (length d)))
        = Inl DanglingPointer"
proof -
  let ?f = "FSendInLoop c s (length d)" and ?l = "tc_loop cn"
  obtain k lp where p: "pushLoopCallback os (cur_tid w) ?f (kern w, loops w ?l) = (k, lp)"
    by fastforce
  have q: "pending lp = pending (loops w ?l) @ [?f]"
    using pushLoopCallback_loop [of os "cur_tid w" ?f "kern w" "loops w ?l"] p by simp
  have "tcp_send os A c s w = Inr (w\<lparr>kern := k, loops := (loops w)(?l := lp)\<rparr>)"
    using assms p by (simp add: tcp_send_def runLoopCallback_def net_push_def on_loop_def)
  then show ?thesis using q by (simp add: run_conn_functor_def)
qed

theorem cross_thread_send_dangles_witness:
  "\<exists>w'. tcp_send toy_os libstdcxx 0 5 (toy_net\<lparr>cur_tid := 2\<rparr>) = Inr w'
    \<and> bind_res (perform toy_os libstdcxx (AFreeString 5) w')
        (run_conn_functor toy_os libstdcxx (FSendInLoop 0 5 (length [1 :: byte, 2, 3, 4, 5])))
        = Inl DanglingPointer"
  using cross_thread_send_dangles [of "toy_net\<lparr>cur_tid := 2\<rparr>" 0 toy_conn 5 "[1, 2, 3, 4, 5]"
      toy_os libstdcxx]
  by (auto simp: toy_net_def toy_conn_def toy_loop_def isInLoopThread_def)

end
