(* ===== verification/ThreadPool.thy ===== *)
theory ThreadPool
  imports EventLoop
begin

text \<open>
  The class \<open>EventLoopThreadPool\<close> (\<open>src/eventloop_threadpool.h\<close>, \<open>src/eventloop_threadpool.cc\<close>).
  Creating an \<open>EventLoopThread\<close> with a name and starting it is the parameter \<open>spawn\<close>, which returns
  the loop of the new thread and the object, of type \<open>'t\<close>, or a failure (see \<open>EventLoopThread\<close>); the
  initialisation callback is a function on the state.
\<close>

section \<open>The class\<close>

record 't thread_pool =
  base_loop :: nat
  pool_name :: string
  pool_started :: bool
  thread_num :: int
  pool_next :: nat
  threads :: "'t list"
  pool_loops :: "nat list"

definition ThreadPool_new :: "nat \<Rightarrow> string \<Rightarrow> 't thread_pool" where
  "ThreadPool_new base name =
     \<lparr>base_loop = base, pool_name = name, pool_started = False, thread_num = 0, pool_next = 0,
      threads = [], pool_loops = []\<rparr>"

definition setPoolSize :: "int \<Rightarrow> 't thread_pool \<Rightarrow> 't thread_pool" where
  "setPoolSize n p = p\<lparr>thread_num := n\<rparr>"

definition isStarted :: "'t thread_pool \<Rightarrow> bool" where
  "isStarted p \<longleftrightarrow> pool_started p"

text \<open>The characters up to the first NUL, which is what \<open>%s\<close> prints of \<open>c_str()\<close>.\<close>

definition c_str :: "string \<Rightarrow> string" where
  "c_str s = takeWhile (\<lambda>c. c \<noteq> CHR 0x00) s"

definition pool_thread_name :: "string \<Rightarrow> nat \<Rightarrow> string" where
  "pool_thread_name name i = snprintf_text (length name + 32) (c_str name @ show_int (int i))"

definition pool_add ::
  "(string \<Rightarrow> 'w \<Rightarrow> (nat \<times> 't \<times> 'w) res) \<Rightarrow> nat \<Rightarrow> 't thread_pool \<times> 'w \<Rightarrow>
   ('t thread_pool \<times> 'w) res" where
  "pool_add spawn i s =
     (case s of (p, w) \<Rightarrow>
      let name = pool_thread_name (pool_name p) i in
      bind_res (spawn name w) (\<lambda>(l, t, w).
        Inr (p\<lparr>threads := threads p @ [t], pool_loops := pool_loops p @ [l]\<rparr>, w)))"

definition pool_start ::
  "(string \<Rightarrow> 'w \<Rightarrow> (nat \<times> 't \<times> 'w) res) \<Rightarrow> (nat \<Rightarrow> 'w \<Rightarrow> 'w res) option \<Rightarrow>
   't thread_pool \<times> 'w \<Rightarrow> ('t thread_pool \<times> 'w) res" where
  "pool_start spawn callback s =
     (case s of (p, w) \<Rightarrow>
      bind_res (fold_res (pool_add spawn) [0 ..< nat (thread_num p)] (p\<lparr>pool_started := True\<rparr>, w))
        (\<lambda>(p, w).
      if thread_num p = 0
      then (case callback of
              None \<Rightarrow> Inr (p, w)
            | Some f \<Rightarrow> bind_res (f (base_loop p) w) (\<lambda>w. Inr (p, w)))
      else Inr (p, w)))"

definition getNextLoop :: "'t thread_pool \<Rightarrow> (nat \<times> 't thread_pool) res" where
  "getNextLoop p =
     (if pool_loops p \<noteq> [] then
        if pool_next p < length (pool_loops p)
        then Inr (pool_loops p ! pool_next p,
                  p\<lparr>pool_next := (pool_next p + 1) mod length (pool_loops p)\<rparr>)
        else Inl OutOfBounds
      else Inr (base_loop p, p))"

definition getAllLoops :: "'t thread_pool \<Rightarrow> nat list" where
  "getAllLoops p = (if pool_loops p \<noteq> [] then replicate 1 (base_loop p) else pool_loops p)"

section \<open>Lemmas\<close>

definition pool_inv :: "'t thread_pool \<Rightarrow> bool" where
  "pool_inv p \<longleftrightarrow> (pool_loops p \<noteq> [] \<longrightarrow> pool_next p < length (pool_loops p))"

fun next_loops :: "nat \<Rightarrow> 't thread_pool \<Rightarrow> (nat list \<times> 't thread_pool) res" where
  "next_loops 0 p = Inr ([], p)"
| "next_loops (Suc n) p =
     bind_res (getNextLoop p) (\<lambda>(l, p). bind_res (next_loops n p) (\<lambda>(ls, p). Inr (l # ls, p)))"

lemma getNextLoop_inv:
  "pool_inv p \<Longrightarrow> \<exists>l p'. getNextLoop p = Inr (l, p') \<and> pool_inv p' \<and> pool_loops p' = pool_loops p
     \<and> base_loop p' = base_loop p \<and> l \<in> insert (base_loop p) (set (pool_loops p))"
  by (auto simp: getNextLoop_def pool_inv_def)

lemma next_loops_round_robin:
  assumes "pool_loops p \<noteq> []" and "pool_next p < length (pool_loops p)"
  shows "\<exists>p'. next_loops k p
      = Inr (map (\<lambda>i. pool_loops p ! ((pool_next p + i) mod length (pool_loops p))) [0 ..< k], p')
    \<and> pool_loops p' = pool_loops p \<and> pool_next p' = (pool_next p + k) mod length (pool_loops p)"
  using assms
proof (induction k arbitrary: p)
  case (Suc k)
  let ?n = "length (pool_loops p)"
  let ?p = "p\<lparr>pool_next := (pool_next p + 1) mod ?n\<rparr>"
  obtain p' where p': "next_loops k ?p
        = Inr (map (\<lambda>i. pool_loops p ! (((pool_next p + 1) mod ?n + i) mod ?n)) [0 ..< k], p')"
      "pool_loops p' = pool_loops p" "pool_next p' = ((pool_next p + 1) mod ?n + k) mod ?n"
    using Suc.IH [of ?p] Suc.prems by auto
  have "map (\<lambda>i. pool_loops p ! ((pool_next p + i) mod ?n)) [0 ..< Suc k]
      = pool_loops p ! pool_next p
        # map (\<lambda>i. pool_loops p ! (((pool_next p + 1) mod ?n + i) mod ?n)) [0 ..< k]"
    using Suc.prems
    by (simp add: upt_conv_Cons map_Suc_upt [symmetric] mod_add_left_eq del: upt_Suc)
  then show ?case
    using p' Suc.prems by (simp add: getNextLoop_def mod_add_left_eq)
qed simp

lemma map_rotate_mset:
  assumes "xs \<noteq> []"
  shows "map (\<lambda>i. xs ! ((s + i) mod length xs)) [0 ..< length xs] = rotate s xs"
proof (rule nth_equalityI)
  fix i
  assume "i < length (map (\<lambda>i. xs ! ((s + i) mod length xs)) [0 ..< length xs])"
  then have "i < length xs" by simp
  then show "map (\<lambda>i. xs ! ((s + i) mod length xs)) [0 ..< length xs] ! i = rotate s xs ! i"
    by (simp add: nth_rotate add.commute)
qed simp

lemma fold_pool_add:
  assumes "fold_res (pool_add spawn) is (p, w) = Inr (p', w')"
    and "\<And>i w l t w'. i \<in> set is \<Longrightarrow> spawn (pool_thread_name (pool_name p) i) w = Inr (l, t, w')
      \<Longrightarrow> label t = pool_thread_name (pool_name p) i"
  shows "\<exists>ts ls. p' = p\<lparr>threads := threads p @ ts, pool_loops := pool_loops p @ ls\<rparr> \<and> length ls = length is
    \<and> map label ts = map (pool_thread_name (pool_name p)) is"
  using assms
proof (induction "is" arbitrary: p w)
  case (Cons i "is")
  then obtain p1 w1 where sp: "pool_add spawn i (p, w) = Inr (p1, w1)"
    and f: "fold_res (pool_add spawn) is (p1, w1) = Inr (p', w')"
    by (auto simp: res_iff)
  from sp obtain l t where s: "spawn (pool_thread_name (pool_name p) i) w = Inr (l, t, w1)"
      and p1: "p1 = p\<lparr>threads := threads p @ [t], pool_loops := pool_loops p @ [l]\<rparr>"
    by (auto simp: pool_add_def Let_def res_iff)
  have "label t = pool_thread_name (pool_name p) i" using Cons.prems(2) s by simp
  moreover have "\<exists>ts ls. p' = p1\<lparr>threads := threads p1 @ ts, pool_loops := pool_loops p1 @ ls\<rparr>
      \<and> length ls = length is \<and> map label ts = map (pool_thread_name (pool_name p1)) is"
    by (rule Cons.IH [OF f]) (use Cons.prems(2) p1 in simp)
  ultimately show ?case using p1 by force
qed auto

lemma length_c_str: "length (c_str s) \<le> length s"
  by (simp add: c_str_def length_takeWhile_le)

lemma pool_thread_name_eq:
  assumes "i < 2 ^ 31"
  shows "pool_thread_name name i = c_str name @ show_nat i"
proof -
  have "length (show_nat i) \<le> 10"
    using assms by (intro show_nat_length) simp_all
  then show ?thesis
    using length_c_str [of name] by (simp add: pool_thread_name_def show_int_def)
qed

lemma pool_thread_name_nonempty: "i < 2 ^ 31 \<Longrightarrow> pool_thread_name name i \<noteq> []"
  by (simp add: pool_thread_name_eq)

section \<open>Properties\<close>

text \<open>\<open>getNextLoop\<close> is round robin: from any position, as many consecutive calls as there are
  loops return every loop exactly once and lead back to the same position; and after \<open>k\<close> calls the
  next loop is the \<open>k\<close>th after the current one, cyclically.\<close>

theorem next_loop_round_robin:
  assumes "pool_loops p \<noteq> []" and "pool_inv p"
  shows "\<exists>ls p'. next_loops (length (pool_loops p)) p = Inr (ls, p')
    \<and> ls = rotate (pool_next p) (pool_loops p) \<and> pool_next p' = pool_next p
    \<and> (\<forall>k. \<exists>ls p'. next_loops k p = Inr (ls, p')
         \<and> pool_next p' = (pool_next p + k) mod length (pool_loops p)
         \<and> (\<forall>i < k. ls ! i = pool_loops p ! ((pool_next p + i) mod length (pool_loops p))))"
proof -
  have n: "pool_next p < length (pool_loops p)"
    using assms by (simp add: pool_inv_def)
  note R = next_loops_round_robin [OF assms(1) n]
  have "\<exists>ls p'. next_loops k p = Inr (ls, p')
         \<and> pool_next p' = (pool_next p + k) mod length (pool_loops p)
         \<and> (\<forall>i < k. ls ! i = pool_loops p ! ((pool_next p + i) mod length (pool_loops p)))" for k
    using R [of k] by auto
  moreover have "\<exists>p'. next_loops (length (pool_loops p)) p
      = Inr (rotate (pool_next p) (pool_loops p), p') \<and> pool_next p' = pool_next p"
    using R [of "length (pool_loops p)"] map_rotate_mset [OF assms(1), of "pool_next p"] n by auto
  ultimately show ?thesis by blast
qed

theorem next_loop_round_robin_witness:
  "\<exists>p'. next_loops 3 ((ThreadPool_new 0 ''p'' :: string thread_pool)\<lparr>pool_loops := [5, 6, 7], pool_next := 1\<rparr>)
     = Inr ([6, 7, 5], p')"
proof -
  let ?q = "(ThreadPool_new 0 ''p'' :: string thread_pool)\<lparr>pool_loops := [5, 6, 7], pool_next := 1\<rparr>"
  have "pool_loops ?q \<noteq> []" "pool_inv ?q"
    by (simp_all add: pool_inv_def)
  then obtain ls p' where "next_loops (length (pool_loops ?q)) ?q = Inr (ls, p')"
      "ls = rotate (pool_next ?q) (pool_loops ?q)"
    using next_loop_round_robin by blast
  moreover have "length (pool_loops ?q) = 3" "rotate (pool_next ?q) (pool_loops ?q) = [6, 7, 5]"
    by simp_all
  ultimately show ?thesis by metis
qed

text \<open>Starting a new pool of \<open>n\<close> threads starts exactly \<open>n\<close>, each with a name of its own made of
  the pool name and its index, and the pool is ready for \<open>getNextLoop\<close>; with none, the
  initialisation callback is called on the base loop instead, which then serves every request. A
  failure is the failure of a thread or of that callback. A thread is asked to have the name it is
  started with, as those of \<open>EventLoopThread\<close> do (\<open>spawn_loop_object\<close>).\<close>

theorem pool_start_threads:
  assumes "p = setPoolSize n (ThreadPool_new base name)" and "0 \<le> n" and "n < 2 ^ 31"
    and "\<And>nm w l t w'. nm \<noteq> [] \<Longrightarrow> spawn nm w = Inr (l, t, w') \<Longrightarrow> label t = nm"
  shows "case fold_res (pool_add spawn) [0 ..< nat n] (p\<lparr>pool_started := True\<rparr>, w) of
      Inl e \<Rightarrow> pool_start spawn callback (p, w) = Inl e
    | Inr (p', w') \<Rightarrow>
        pool_start spawn callback (p, w) =
          (if n = 0 \<and> callback \<noteq> None then bind_res (the callback base w') (\<lambda>w. Inr (p', w))
           else Inr (p', w'))
        \<and> isStarted p' \<and> length (pool_loops p') = nat n \<and> pool_inv p'
        \<and> map label (threads p') = map (\<lambda>i. c_str name @ show_nat i) [0 ..< nat n] \<and> distinct (threads p')
        \<and> (n = 0 \<longrightarrow> getNextLoop p' = Inr (base, p'))"
proof -
  let ?p = "p\<lparr>pool_started := True\<rparr>"
  have new: "pool_name p = name" "threads p = []" "pool_loops p = []" "thread_num p = n"
      "base_loop p = base" "pool_next p = 0"
    by (simp_all add: assms(1) ThreadPool_new_def setPoolSize_def)
  show ?thesis
  proof (cases "fold_res (pool_add spawn) [0 ..< nat n] (?p, w)")
    case (Inr r)
    obtain p' w' where r: "r = (p', w')" by fastforce
    have "label t = pool_thread_name (pool_name ?p) i"
      if "i \<in> set [0 ..< nat n]" "spawn (pool_thread_name (pool_name ?p) i) w = Inr (l, t, w')" for i w l t w'
      using that assms(2-4) by (auto intro!: assms(4) pool_thread_name_nonempty)
    then obtain ts ls where p': "p' = ?p\<lparr>threads := threads ?p @ ts, pool_loops := pool_loops ?p @ ls\<rparr>"
      and ls: "length ls = nat n" and ts: "map label ts = map (pool_thread_name (pool_name ?p)) [0 ..< nat n]"
      using fold_pool_add [OF Inr [unfolded r], of label] by auto
    have names: "map label (threads p') = map (\<lambda>i. c_str name @ show_nat i) [0 ..< nat n]"
      using assms(3) ts by (auto simp: p' new intro!: pool_thread_name_eq)
    moreover have "distinct (map (\<lambda>i. c_str name @ show_nat i) [0 ..< nat n])"
      by (simp add: distinct_map inj_on_def)
    then have "distinct (threads p')" using names by (metis distinct_map)
    moreover have "length (pool_loops p') = nat n" "isStarted p'" "pool_inv p'"
        "n = 0 \<longrightarrow> getNextLoop p' = Inr (base, p')"
      using ls by (cases ls; auto simp: p' new isStarted_def pool_inv_def getNextLoop_def)+
    moreover have "thread_num p' = n" "base_loop p' = base"
      by (simp_all add: p' new)
    ultimately show ?thesis
      using Inr by (cases callback) (simp_all add: r pool_start_def new)
  qed (simp add: pool_start_def new)
qed

theorem pool_start_threads_witness:
  "\<exists>p' w'. pool_start (\<lambda>name w. Inr (w, name, w + 1)) None (setPoolSize 2 (ThreadPool_new 0 ''io''), 1)
      = Inr (p', w') \<and> threads p' = [''io0'', ''io1''] \<and> length (pool_loops p') = 2"
proof -
  let ?sp = "\<lambda>(name :: string) w. Inr (w, name, w + 1) :: (nat \<times> string \<times> nat) res"
  let ?p = "setPoolSize 2 (ThreadPool_new 0 ''io'')"
  have d: "show_nat 0 = ''0''" "show_nat (Suc 0) = ''1''"
    by (simp_all add: show_nat.simps digit_def char_of_def bit_simps)
  obtain p' w' where f: "fold_res (pool_add ?sp) [0 ..< nat 2] (?p\<lparr>pool_started := True\<rparr>, 1) = Inr (p', w')"
    by (simp add: upt_rec pool_add_def Let_def)
  show ?thesis
    using pool_start_threads [of ?p 2 0 "''io''" ?sp "\<lambda>t. t" None 1] f
    by (simp add: d c_str_def upt_rec)
qed

text \<open>\<open>getAllLoops\<close> has its two branches exchanged: a pool with threads reports the base loop only,
  and one without reports nothing, so the loops of the pool are never returned, whatever its state.\<close>

theorem getAllLoops_inverted:
  "getAllLoops p = (if pool_loops p = [] then [] else [base_loop p])
   \<and> (\<forall>l. l \<in> set (pool_loops p) \<and> l \<noteq> base_loop p \<longrightarrow> l \<notin> set (getAllLoops p))"
  by (simp add: getAllLoops_def)

theorem getAllLoops_inverted_witness:
  "getAllLoops ((ThreadPool_new 0 ''io'' :: string thread_pool)\<lparr>pool_loops := [5, 6]\<rparr>) = [0]
   \<and> 5 \<notin> set (getAllLoops ((ThreadPool_new 0 ''io'' :: string thread_pool)\<lparr>pool_loops := [5, 6]\<rparr>))"
  using getAllLoops_inverted [of "(ThreadPool_new 0 ''io'' :: string thread_pool)\<lparr>pool_loops := [5, 6]\<rparr>"]
  by (simp add: ThreadPool_new_def)

end
