(* ===== verification/Acceptor.thy ===== *)
theory Acceptor
  imports EventLoop Socket
begin

text \<open>
  The class \<open>Acceptor\<close> (\<open>src/acceptor.h\<close>, \<open>src/acceptor.cc\<close>): the listening socket and its channel.
  The new-connection callback is a function on the state of the caller; whether one has been set is
  a field.
\<close>

record acceptor =
  acc_loop :: nat
  accept_socket :: int
  accept_channel :: "handler channel"
  new_connection_callback :: bool
  listenning :: bool

definition createNonblocking :: "'k os \<Rightarrow> 'k \<Rightarrow> (int \<times> 'k) res" where
  "createNonblocking os k =
     (case sys_socket os k of (Inl _, k') \<Rightarrow> Inl FatalExit | (Inr fd, k') \<Rightarrow> Inr (fd, k'))"

definition Acceptor_new ::
  "'k os \<Rightarrow> nat \<Rightarrow> sockaddr_in \<Rightarrow> bool \<Rightarrow> 'k \<Rightarrow> (acceptor \<times> 'k) res" where
  "Acceptor_new os loop listen_addr reuseport k =
     bind_res (createNonblocking os k) (\<lambda>(fd, k).
     let k = setReuseAddr os fd True k;
         k = setReusePort os fd True k
     in bind_res (bindAddress os fd listen_addr k) (\<lambda>k.
       Inr (\<lparr>acc_loop = loop, accept_socket = fd,
             accept_channel = setReadCallback HAcceptRead (Channel_new loop fd),
             new_connection_callback = False, listenning = False\<rparr>, k)))"

definition setNewConnectionCallback :: "acceptor \<Rightarrow> acceptor" where
  "setNewConnectionCallback ac = ac\<lparr>new_connection_callback := True\<rparr>"

definition acceptor_listen ::
  "'k os \<Rightarrow> 'k \<times> event_loop \<times> acceptor \<Rightarrow> ('k \<times> event_loop \<times> acceptor) res" where
  "acceptor_listen os s =
     (case s of (k, lp, ac) \<Rightarrow>
      let ac = ac\<lparr>listenning := True\<rparr> in
      bind_res (socket_listen os (accept_socket ac) k) (\<lambda>k.
      bind_res
        (enableReadEvent (\<lambda>ch. loop_updateChannel os AcceptCh (k, lp, ch)) (accept_channel ac))
        (\<lambda>(k, lp, ch). Inr (k, lp, ac\<lparr>accept_channel := ch\<rparr>))))"

definition Acceptor_destroy ::
  "'k os \<Rightarrow> 'k \<times> event_loop \<times> acceptor \<Rightarrow> ('k \<times> event_loop) res" where
  "Acceptor_destroy os s =
     (case s of (k, lp, ac) \<Rightarrow>
      bind_res
        (disableAllEvent (\<lambda>ch. loop_updateChannel os AcceptCh (k, lp, ch)) (accept_channel ac))
        (\<lambda>(k, lp, ch).
      bind_res (loop_removeChannel os AcceptCh (k, lp, ch)) (\<lambda>(k, lp, ch).
        Inr (Socket_destroy os (accept_socket ac) k, lp))))"

text \<open>\<open>getk\<close> and \<open>setk\<close> reach the system inside the caller's state \<open>'w\<close>; \<open>callback\<close> is the function
  stored in the acceptor.\<close>

definition acceptor_handleRead ::
  "'k os \<Rightarrow> ('w \<Rightarrow> 'k) \<Rightarrow> ('k \<Rightarrow> 'w \<Rightarrow> 'w) \<Rightarrow> (int \<Rightarrow> sockaddr_in \<Rightarrow> 'w \<Rightarrow> 'w res) \<Rightarrow> acceptor \<Rightarrow>
   'w \<Rightarrow> 'w res" where
  "acceptor_handleRead os getk setk callback ac w =
     (let peer_addr = InetAddress_new (\<lambda>_. (127, 0, 0, 1)) 0 ''127.0.0.1'' in
      case socket_accept os (accept_socket ac) peer_addr (getk w) of (r, peer_addr, k) \<Rightarrow>
      let w = setk k w in
      case r of
        Inr conn_fd \<Rightarrow>
          if new_connection_callback ac then callback conn_fd peer_addr w
          else Inr (setk (snd (sys_close os conn_fd (getk w))) w)
      | Inl _ \<Rightarrow> Inr w)"

end
