(* ===== verification/EventLoopThread.thy ===== *)
theory EventLoopThread
  imports TcpConnection
begin

text \<open>
  Threads: \<open>CurrentThread\<close> (\<open>src/current_thread.h\<close>, \<open>src/current_thread.cc\<close>), \<open>Thread\<close>
  (\<open>src/thread.h\<close>, \<open>src/thread.cc\<close>) and \<open>EventLoopThread\<close> (\<open>src/eventloop_thread.h\<close>,
  \<open>src/eventloop_thread.cc\<close>).

  This theory has the effect of starting a loop thread on the whole process, with the new thread run
  up to its \<open>loop()\<close>, which is as far as \<open>startLoop\<close> waits for it; the way the two threads get there
  is the step relation of the theory \<open>Handshake\<close>. \<open>proc\<close> adds to \<open>net\<close> the thread-local
  \<open>t_loop_in_this_thread\<close> of every thread, the number of \<open>Thread\<close> objects made, and the next unused
  names of connections, loops and threads.
\<close>

section \<open>CurrentThread\<close>

text \<open>The cache of one thread; \<open>gettid\<close> is the answer of the system call.\<close>

definition cacheTid :: "int \<Rightarrow> int \<Rightarrow> int" where
  "cacheTid gettid cached = (if cached = 0 then gettid else cached)"

definition tid :: "int \<Rightarrow> int \<Rightarrow> int \<times> int" where
  "tid gettid cached =
     (let cached = (if cached = 0 then cacheTid gettid cached else cached) in (cached, cached))"

lemma tid_is_thread_id: "gettid \<noteq> 0 \<Longrightarrow> cached = 0 \<or> cached = gettid \<Longrightarrow> tid gettid cached = (gettid, gettid)"
  by (auto simp: tid_def cacheTid_def)

section \<open>Thread\<close>

record thr =
  thr_started :: bool
  thr_joined :: bool
  thr_tid :: int
  thr_name :: string

text \<open>\<open>thread_num_\<close> is an \<open>atomic_int\<close>, whose increment wraps around.\<close>

definition setDefaultName :: "32 word \<Rightarrow> thr \<Rightarrow> 32 word \<times> thr" where
  "setDefaultName thread_num t =
     (let num = thread_num + 1 in
      (num, if thr_name t = [] then t\<lparr>thr_name := snprintf_text 32 (''Thread'' @ show_int (sint num))\<rparr> else t))"

definition Thread_new :: "string \<Rightarrow> 32 word \<Rightarrow> 32 word \<times> thr" where
  "Thread_new name thread_num =
     setDefaultName thread_num
       \<lparr>thr_started = False, thr_joined = False, thr_tid = 0, thr_name = name\<rparr>"

text \<open>\<open>start\<close> returns when the new thread has stored its number and posted the semaphore.\<close>

definition Thread_start :: "int \<Rightarrow> thr \<Rightarrow> thr" where
  "Thread_start new_tid t = t\<lparr>thr_started := True, thr_tid := new_tid\<rparr>"

definition Thread_join :: "thr \<Rightarrow> thr" where
  "Thread_join t = t\<lparr>thr_joined := True\<rparr>"

text \<open>The destructor detaches a thread that runs and has not been joined; the result says whether.\<close>

definition Thread_destroy :: "thr \<Rightarrow> bool" where
  "Thread_destroy t \<longleftrightarrow> thr_started t \<and> \<not> thr_joined t"

lemma default_name_text: "thr_name (snd (Thread_new [] n)) = ''Thread'' @ show_int (sint (n + 1))"
proof -
  have "length (show_int (sint (n + 1))) \<le> 11"
    using show_int_length [of 10 "sint (n + 1)"] sint_lt [of "n + 1"] sint_ge [of "n + 1"] by simp
  then show ?thesis
    by (simp add: Thread_new_def setDefaultName_def Let_def)
qed

section \<open>EventLoopThread\<close>

record 'k proc = "'k net" +
  tls :: "int \<Rightarrow> nat option"
  thread_count :: "32 word"
  fresh_conn :: nat
  fresh_loop :: nat
  fresh_tid :: int

definition call_init ::
  "'k os \<Rightarrow> alloc \<Rightarrow> ('k, 'z) proc_scheme app \<Rightarrow> nat \<Rightarrow> nat \<Rightarrow> ('k, 'z) proc_scheme \<Rightarrow>
   ('k, 'z) proc_scheme res" where
  "call_init os A app cb l w = run_actions os A (on_init app cb w l) (note_call (CalledInit cb l) w)"

text \<open>The body of \<open>threadFunc\<close> up to the call of \<open>loop\<close>, in the new thread.\<close>

definition threadFunc_prologue ::
  "'k os \<Rightarrow> alloc \<Rightarrow> (string \<Rightarrow> string option) \<Rightarrow> ('k, 'z) proc_scheme app \<Rightarrow> nat option \<Rightarrow>
   ('k, 'z) proc_scheme \<Rightarrow> (nat \<times> ('k, 'z) proc_scheme) res" where
  "threadFunc_prologue os A getenv app init_callback w =
     (let self = fresh_loop w in
      bind_res (EventLoop_new os getenv self (cur_tid w) (kern w, tls w)) (\<lambda>(k, ts, lp).
        let w = w\<lparr>kern := k, tls := ts, loops := (loops w)(self := lp), fresh_loop := self + 1\<rparr> in
        bind_res (case init_callback of None \<Rightarrow> Inr w | Some cb \<Rightarrow> call_init os A app cb self w)
          (\<lambda>w. Inr (self, w))))"

text \<open>The object. \<open>elt_loop\<close> is the pointer \<open>loop_\<close> to the loop, which lives on the stack of the new thread,
  from when \<open>threadFunc\<close> stores it; the mutex and the condition variable are in the theory \<open>Handshake\<close>.\<close>

record event_loop_thread =
  elt_loop :: "nat option"
  elt_exiting :: bool
  elt_thread :: thr
  elt_init_callback :: "nat option"

text \<open>The constructor makes the \<open>Thread\<close>; \<open>startLoop\<close> starts it, waits, and returns its loop.\<close>

definition EventLoopThread_new ::
  "nat option \<Rightarrow> string \<Rightarrow> ('k, 'z) proc_scheme \<Rightarrow> event_loop_thread \<times> ('k, 'z) proc_scheme" where
  "EventLoopThread_new callback name w =
     (case Thread_new name (thread_count w) of (n, t) \<Rightarrow>
        (\<lparr>elt_loop = None, elt_exiting = False, elt_thread = t, elt_init_callback = callback\<rparr>,
         w\<lparr>thread_count := n\<rparr>))"

definition startLoop ::
  "'k os \<Rightarrow> alloc \<Rightarrow> (string \<Rightarrow> string option) \<Rightarrow> ('k, 'z) proc_scheme app \<Rightarrow>
   event_loop_thread \<times> ('k, 'z) proc_scheme \<Rightarrow> (nat \<times> event_loop_thread \<times> ('k, 'z) proc_scheme) res" where
  "startLoop os A getenv app s =
     (case s of (t, w) \<Rightarrow>
      let caller = cur_tid w; t = t\<lparr>elt_thread := Thread_start (fresh_tid w) (elt_thread t)\<rparr> in
      bind_res
        (threadFunc_prologue os A getenv app (elt_init_callback t)
           (w\<lparr>cur_tid := fresh_tid w, fresh_tid := fresh_tid w + 1\<rparr>)) (\<lambda>(l, w).
      Inr (l, t\<lparr>elt_loop := Some l\<rparr>, w\<lparr>cur_tid := caller\<rparr>)))"

text \<open>What \<open>EventLoopThreadPool::start\<close> does for each thread.\<close>

definition spawn_loop ::
  "'k os \<Rightarrow> alloc \<Rightarrow> (string \<Rightarrow> string option) \<Rightarrow> ('k, 'z) proc_scheme app \<Rightarrow> nat option \<Rightarrow> string \<Rightarrow>
   ('k, 'z) proc_scheme \<Rightarrow> (nat \<times> event_loop_thread \<times> ('k, 'z) proc_scheme) res" where
  "spawn_loop os A getenv app callback name w =
     startLoop os A getenv app (EventLoopThread_new callback name w)"

text \<open>The thread of the pool has the name it was given and knows its loop.\<close>

lemma spawn_loop_object:
  assumes "spawn_loop os A getenv app cb name w = Inr (l, t, w')"
  shows "elt_loop t = Some l \<and> \<not> elt_exiting t \<and> thr_tid (elt_thread t) = fresh_tid w
    \<and> Thread_destroy (elt_thread t) \<and> (name \<noteq> [] \<longrightarrow> thr_name (elt_thread t) = name)"
  using assms
  by (auto simp: spawn_loop_def startLoop_def EventLoopThread_new_def Thread_new_def setDefaultName_def
      Thread_start_def Thread_destroy_def Let_def res_iff split: prod.splits if_split_asm)

end
