(* ===== verification/Steps.thy ===== *)
theory Steps
  imports TcpConnection
begin

text \<open>
  Relations between the state before and after an operation. Two interfaces say what it takes for a
  relation to hold across the operations of \<open>TcpConnection\<close>: \<open>cx_steps\<close> for those on the context of one
  connection, \<open>net_steps\<close> for the calls of user code into the library. A relation that satisfies the
  laws on the primitive changes holds across \<open>sendInLoop\<close>, \<open>handleWrite\<close>, \<open>send\<close>, \<open>shutdown\<close> and any list
  of actions.
\<close>

lemmas interest_defs = enableReadEvent_def disableReadEvent_def enableWriteEvent_def
  disableWriteEvent_def disableAllEvent_def

lemma cx_push_opt_conn [simp]: "cx_conn (cx_push_opt os mk cb x) = cx_conn x"
  by (auto simp: cx_push_opt_def cx_push_def split: option.splits prod.splits)

section \<open>The context of one connection\<close>

text \<open>The calls to the system in these operations, and the two changes of what a connection waits for.\<close>

definition io_call :: "'k os \<Rightarrow> 'k \<Rightarrow> 'k \<Rightarrow> bool" where
  "io_call os k k' \<longleftrightarrow> (\<exists>fd d. k' = snd (sys_write os fd d k)) \<or> (\<exists>fd. k' = snd (sys_shutdown_wr os fd k))
     \<or> (\<exists>fd. k' = snd (sys_so_error os fd k))"

lemma io_call_intros [intro]:
  "sys_write os fd d k = (r, k') \<Longrightarrow> io_call os k k'" "io_call os k (shutdownWrite os fd k)"
  "io_call os k (snd (sys_so_error os fd k))"
  unfolding io_call_def shutdownWrite_def by (metis snd_conv)+

definition write_interests :: "32 word \<Rightarrow> 32 word set" where
  "write_interests m = {m OR kWritable, m AND NOT kWritable}"

locale cx_steps =
  fixes R :: "'k cctx \<Rightarrow> 'k cctx \<Rightarrow> bool" and os :: "'k os" and self :: nat
  assumes cx_refl: "R x x"
    and cx_trans: "R x y \<Longrightarrow> R y z \<Longrightarrow> R x z"
    and cx_kern: "io_call os (cx_kern x) k \<Longrightarrow> R x (x\<lparr>cx_kern := k\<rparr>)"
    and cx_output: "R x (x\<lparr>cx_conn := (cx_conn x)\<lparr>output_buffer := b\<rparr>\<rparr>)"
    and cx_disconnect: "R x (cx_setState kDisconnected x)"
    and cx_push_write: "R x (cx_push os (FWriteComplete cb self) x)"
    and cx_push_high: "R x (cx_push os (FHighWater cb self n) x)"
    and cx_update: "m \<in> write_interests (ch_events (tc_channel (cx_conn x))) \<Longrightarrow>
      cx_update os self x ((tc_channel (cx_conn x))\<lparr>ch_events := m\<rparr>) = Inr x' \<Longrightarrow> R x x'"

context cx_steps begin

lemma push_opt_steps:
  "R x (cx_push_opt os (\<lambda>cb. FWriteComplete cb self) o1 x)"
  "R x (cx_push_opt os (\<lambda>cb. FHighWater cb self n) o2 x)"
  by (auto simp: cx_push_opt_def cx_refl cx_push_write cx_push_high split: option.splits)

lemma kern_push_steps:
  "io_call os (cx_kern x) k \<Longrightarrow> R x (cx_push_opt os (\<lambda>cb. FWriteComplete cb self) o1 (x\<lparr>cx_kern := k\<rparr>))"
  by (rule cx_trans [OF cx_kern push_opt_steps(1)])

lemma write_steps:
  assumes "sendInLoop_write os self d x = (x', s)"
  shows "R x x'"
proof -
  have "R x (fst (sendInLoop_write os self d x))"
    by (auto simp: sendInLoop_write_def Let_def cx_refl intro: cx_kern kern_push_steps io_call_intros
        split: prod.splits sum.splits)
  then show ?thesis using assms by simp
qed

lemma interest_steps:
  assumes "cx_update os self y ((tc_channel cn)\<lparr>ch_events := m\<rparr>) = Inr x'" and "cx_conn y = cn\<lparr>output_buffer := b\<rparr>"
    and "m \<in> write_interests (ch_events (tc_channel cn))"
  shows "R y x'"
  by (rule cx_update) (use assms in simp_all)

lemma queue_steps:
  assumes "sendInLoop_queue os A self d (x, wl, rl, fault) = Inr x'"
  shows "R x x'"
proof -
  let ?cn = "cx_conn x"
  let ?total = "size_add (readableBytes (output_buffer ?cn)) rl"
  let ?x1 = "if high_water_mark ?cn \<le> ?total \<and> readableBytes (output_buffer ?cn) < high_water_mark ?cn
    then cx_push_opt os (\<lambda>cb. FHighWater cb self ?total) (highwater_mark_callback ?cn) x else x"
  have g: "R x ?x1" by (simp add: push_opt_steps cx_refl)
  have c: "cx_conn ?x1 = ?cn" by simp
  have o: "R x (?x1\<lparr>cx_conn := ?cn\<lparr>output_buffer := b\<rparr>\<rparr>)" for b
    using cx_trans [OF g cx_output [of ?x1 b]] unfolding c .
  show ?thesis
  proof (cases "\<not> fault \<and> 0 < rl")
    case True
    then obtain b where "x' = ?x1\<lparr>cx_conn := ?cn\<lparr>output_buffer := b\<rparr>\<rparr>
        \<or> cx_update os self (?x1\<lparr>cx_conn := ?cn\<lparr>output_buffer := b\<rparr>\<rparr>)
            ((tc_channel ?cn)\<lparr>ch_events := ch_events (tc_channel ?cn) OR kWritable\<rparr>) = Inr x'"
      using assms
      by (auto simp: sendInLoop_queue_def Let_def res_iff interest_defs simp del: cx_push_opt_conn
          split: if_split_asm)
    moreover have "R x x'" if u: "cx_update os self (?x1\<lparr>cx_conn := ?cn\<lparr>output_buffer := b\<rparr>\<rparr>)
            ((tc_channel ?cn)\<lparr>ch_events := ch_events (tc_channel ?cn) OR kWritable\<rparr>) = Inr x'"
      by (rule cx_trans [OF o interest_steps [OF u]]) (simp_all add: write_interests_def)
    ultimately show ?thesis using o [of b] by blast
  qed (use assms cx_refl in \<open>auto simp: sendInLoop_queue_def\<close>)
qed

lemma send_steps:
  assumes "sendInLoop os A self d x = Inr x'"
  shows "R x x'"
proof -
  obtain x1 wl rl fault where w: "sendInLoop_write os self d (cx_setState kDisconnected x) = (x1, wl, rl, fault)"
    by (metis prod_cases4)
  have "R x x1" by (rule cx_trans [OF cx_disconnect write_steps [OF w]])
  moreover have "R x1 x'" using assms w by (auto simp: sendInLoop_def intro: queue_steps)
  ultimately show ?thesis by (rule cx_trans)
qed

lemma shutdown_steps: "R x (shutdownInLoop os x)"
  by (auto simp: shutdownInLoop_def cx_refl intro: cx_kern io_call_intros)

lemma error_steps: "R x (handleError os x)"
  unfolding handleError_def by (rule cx_kern) (rule io_call_intros)

lemma write_event_steps:
  assumes "handleWrite os self x = Inr x'"
  shows "R x x'"
proof (cases "isWriteSet (tc_channel (cx_conn x))")
  case True
  obtain r k where w: "buffer_write (sys_write os (ch_fd (tc_channel (cx_conn x)))) (cx_kern x)
      (output_buffer (cx_conn x)) = Inr (r, k)"
    using assms True by (auto simp: handleWrite_def Let_def res_iff)
  have io: "R x (x\<lparr>cx_kern := k\<rparr>)"
    by (rule cx_kern) (use w in \<open>auto simp: buffer_write_def res_iff intro: io_call_intros\<close>)
  show ?thesis
  proof (cases "\<exists>n. r = Inr n \<and> 0 < n")
    case False
    then show ?thesis using assms True w
      by (cases r) (auto simp: handleWrite_def Let_def io)
  next
    case n: True
    then obtain n where n: "r = Inr n" "0 < n" by blast
    let ?b = "pushState n (output_buffer (cx_conn x))"
    let ?x = "x\<lparr>cx_kern := k, cx_conn := (cx_conn x)\<lparr>output_buffer := ?b\<rparr>\<rparr>"
    have g: "R x ?x" using cx_trans [OF io cx_output [of "x\<lparr>cx_kern := k\<rparr>" ?b]] by simp
    show ?thesis
    proof (cases "readableBytes ?b = 0")
      case False
      then show ?thesis using assms True w n g by (simp add: handleWrite_def Let_def)
    next
      case d: True
      then obtain x2 where u: "disableWriteEvent (cx_update os self ?x) (tc_channel (cx_conn x)) = Inr x2"
        and x': "x' = (let y = cx_push_opt os (\<lambda>cb. FWriteComplete cb self) (write_complete_callback (cx_conn x2)) x2
            in if tc_state (cx_conn y) = kDisconnecting then shutdownInLoop os y else y)"
        using assms True w n by (auto simp: handleWrite_def Let_def res_iff)
      have "R ?x x2"
        by (rule interest_steps) (use u in \<open>auto simp: interest_defs write_interests_def\<close>)
      moreover have "R x2 x'"
        unfolding x' Let_def using push_opt_steps(1) cx_trans [OF push_opt_steps(1) shutdown_steps] by simp
      ultimately show ?thesis using g cx_trans by blast
    qed
  qed
qed (use assms cx_refl in \<open>simp add: handleWrite_def\<close>)

end

section \<open>User code\<close>

text \<open>The connections an action works on in the thread of their loop.\<close>

fun act_conn :: "action \<Rightarrow> nat option" where
  "act_conn (ASend c s) = Some c"
| "act_conn (AShutdown c) = Some c"
| "act_conn _ = None"

locale net_steps =
  fixes C :: "nat \<Rightarrow> 'k cctx \<Rightarrow> 'k cctx \<Rightarrow> bool"
    and R :: "('k, 'z) net_scheme \<Rightarrow> ('k, 'z) net_scheme \<Rightarrow> bool"
    and os :: "'k os" and S :: "nat \<Rightarrow> bool"
  assumes cx: "cx_steps (C c) os c"
    and net_refl: "R w w"
    and net_trans: "R u v \<Longrightarrow> R v w \<Longrightarrow> R u w"
    and net_in_conn: "in_conn c f w = Inr w' \<Longrightarrow> S c \<Longrightarrow> (\<And>x x'. f x = Inr x' \<Longrightarrow> C c x x') \<Longrightarrow> R w w'"
    and net_input: "conns w c = Some cn \<Longrightarrow> R w (w\<lparr>conns := (conns w)(c \<mapsto> cn\<lparr>input_buffer := b\<rparr>)\<rparr>)"
    and net_highwater: "conns w c = Some cn \<Longrightarrow> R w (w\<lparr>conns := (conns w)(c \<mapsto> setHighWaterCallback h cn)\<rparr>)"
    and net_disconnecting: "conns w c = Some cn \<Longrightarrow> tc_state cn = kConnected \<Longrightarrow>
      R w (w\<lparr>conns := (conns w)(c \<mapsto> cn\<lparr>tc_state := kDisconnecting\<rparr>)\<rparr>)"
    and net_strs: "R w (w\<lparr>strs := ss\<rparr>)"
    and net_quit: "R w (on_loop l (loop_quit os t) w)"
    and net_push_user: "R w (net_push os l (FUser i) w)"
    and net_push_send: "R w (net_push os l (FSendInLoop c s n) w)"
    and net_push_shutdown: "R w (net_push os l (FShutdownInLoop c) w)"

context net_steps begin

lemma conn_functor_steps:
  assumes "run_conn_functor os A f w = Inr w'" and "\<And>c s n. f = FSendInLoop c s n \<or> f = FShutdownInLoop c \<Longrightarrow> S c"
  shows "R w w'"
proof (cases "(\<exists>c s n. f = FSendInLoop c s n) \<or> (\<exists>c. f = FShutdownInLoop c)")
  case True
  then obtain c g where "in_conn c g w = Inr w'" "S c" "\<And>x x'. g x = Inr x' \<Longrightarrow> C c x x'"
    using assms cx_steps.send_steps [OF cx] cx_steps.shutdown_steps [OF cx]
    by (fastforce simp: run_conn_functor_def res_iff split: option.splits)
  then show ?thesis by (rule net_in_conn)
next
  case False
  then show ?thesis using assms(1) net_refl by (auto simp: run_conn_functor_def split: Functor.splits)
qed

lemma tcp_send_steps:
  assumes "tcp_send os A c s w = Inr w'" and "S c"
  shows "R w w'"
proof -
  have "R w w'" if "in_conn c (sendInLoop os A c d) w = Inr w'" for d
    by (rule net_in_conn [OF that assms(2)]) (rule cx_steps.send_steps [OF cx])
  then show ?thesis
    using assms net_push_send net_refl
    by (auto simp: tcp_send_def runLoopCallback_def split: option.splits if_split_asm)
qed

lemma tcp_shutdown_steps:
  assumes "tcp_shutdown os A c w = Inr w'" and "S c"
  shows "R w w'"
proof -
  obtain cn where cn: "conns w c = Some cn"
    using assms(1) by (auto simp: tcp_shutdown_def split: option.splits)
  let ?w = "w\<lparr>conns := (conns w)(c \<mapsto> cn\<lparr>tc_state := kDisconnecting\<rparr>)\<rparr>"
  show ?thesis
  proof (cases "tc_state cn = kConnected")
    case True
    then have "R ?w w'"
      using assms cn net_push_shutdown conn_functor_steps [of A "FShutdownInLoop c" ?w w']
      by (auto simp: tcp_shutdown_def runLoopCallback_def split: if_split_asm)
    then show ?thesis using net_trans net_disconnecting [OF cn True] by blast
  qed (use assms cn net_refl in \<open>simp add: tcp_shutdown_def\<close>)
qed

lemma perform_steps:
  assumes "perform os A a w = Inr w'" and "\<And>c. act_conn a = Some c \<Longrightarrow> S c"
  shows "R w w'"
proof (cases a)
  case (ASend c s)
  then show ?thesis using assms tcp_send_steps by simp
next
  case (AShutdown c)
  then show ?thesis using assms tcp_shutdown_steps by simp
next
  case (AGet c n)
  then show ?thesis using assms(1) net_input by (auto simp: upd_conn_def res_iff split: option.splits)
next
  case (AGetAll c)
  then show ?thesis using assms(1) net_input by (auto simp: upd_conn_def res_iff split: option.splits)
next
  case (ASetHighWater c cb)
  then show ?thesis using assms(1) net_highwater by (auto simp: upd_conn_def res_iff split: option.splits)
qed (use assms net_strs net_push_user net_quit in auto)

lemma actions_steps:
  assumes "run_actions os A acts w = Inr w'" and "\<And>a c. a \<in> set acts \<Longrightarrow> act_conn a = Some c \<Longrightarrow> S c"
  shows "R w w'"
  using assms unfolding run_actions_def
proof (induction acts arbitrary: w)
  case (Cons a acts)
  then obtain w1 where w1: "perform os A a w = Inr w1" "fold_res (perform os A) acts w1 = Inr w'"
    by (auto simp: res_iff)
  have "R w w1" by (rule perform_steps [OF w1(1)]) (rule Cons.prems(2), simp_all)
  moreover have "R w1 w'" by (rule Cons.IH [OF w1(2)]) (rule Cons.prems(2), simp_all)
  ultimately show ?case by (rule net_trans)
qed (simp add: net_refl)

end

end
