(* ===== verification/Evolution.thy ===== *)
theory Evolution
  imports Steps
begin

text \<open>
  What no operation on connections and loops ever does, user code included. \<open>evolves\<close> relates the
  state before an operation to the one after it: loops only get functors appended and keep their
  thread and their mode, connections are neither made nor destroyed and keep their name and loop, the
  running thread is the same, and what a server adds to the state is untouched. The lemmas show it
  for each operation of \<open>TcpConnection\<close>; the reactor and the server build on them.
\<close>

section \<open>Loops\<close>

definition loop_grows :: "event_loop \<Rightarrow> event_loop \<Rightarrow> bool" where
  "loop_grows lp lp' \<longleftrightarrow> (\<exists>fs. pending lp' = pending lp @ fs)
     \<and> calling_pending lp' = calling_pending lp \<and> thread_id lp' = thread_id lp
     \<and> looping lp' = looping lp \<and> (quit_flag lp \<longrightarrow> quit_flag lp')"

named_theorems growth \<open>operations that only let queues grow\<close>

lemma loop_grows_refl [simp, intro]: "loop_grows lp lp"
  by (simp add: loop_grows_def)

lemma loop_grows_trans [trans]: "loop_grows a b \<Longrightarrow> loop_grows b c \<Longrightarrow> loop_grows a c"
  by (auto simp: loop_grows_def)

lemma loop_grows_fields:
  "loop_grows lp (lp\<lparr>poller := po\<rparr>)" "loop_grows lp (lp\<lparr>wakeup_channel := ch\<rparr>)"
  "loop_grows lp (lp\<lparr>quit_flag := True\<rparr>)" "loop_grows lp (lp\<lparr>pending := pending lp @ fs\<rparr>)"
  "loop_grows lp (lp\<lparr>active_channels := cs\<rparr>)" "loop_grows lp (lp\<lparr>poll_return_time := t\<rparr>)"
  by (simp_all add: loop_grows_def)

lemma loop_updateChannel_grows [growth]:
  "loop_updateChannel os p (k, lp, ch) = Inr (k', lp', ch') \<Longrightarrow> loop_grows lp lp'"
  by (auto simp: loop_updateChannel_def res_iff loop_grows_fields split: option.splits)

lemma loop_removeChannel_grows [growth]:
  "loop_removeChannel os p (k, lp, ch) = Inr (k', lp', ch') \<Longrightarrow> loop_grows lp lp'"
  by (auto simp: loop_removeChannel_def res_iff loop_grows_fields split: option.splits)

lemma pushLoopCallback_grows [growth]:
  "pushLoopCallback os tid f (k, lp) = (k', lp') \<Longrightarrow> loop_grows lp lp'"
  using pushLoopCallback_loop [of os tid f k lp] by (auto simp: loop_grows_fields)

lemma loop_quit_grows [growth]: "loop_quit os tid (k, lp) = (k', lp') \<Longrightarrow> loop_grows lp lp'"
  using loop_quit_loop [of os tid k lp] by (auto simp: loop_grows_fields)

lemma awake_loop [simp]: "snd (awake os (k, lp)) = lp"
  by (simp add: awake_def)

lemma awake_grows [growth]: "awake os (k, lp) = (k', lp') \<Longrightarrow> loop_grows lp lp'"
  by (auto simp: awake_def)

section \<open>One connection\<close>

definition same_conn :: "tcp_connection \<Rightarrow> tcp_connection \<Rightarrow> bool" where
  "same_conn cn cn' \<longleftrightarrow> tc_name cn' = tc_name cn \<and> tc_loop cn' = tc_loop cn
     \<and> tc_sockfd cn' = tc_sockfd cn \<and> close_callback cn' = close_callback cn
     \<and> conn_callback cn' = conn_callback cn \<and> msg_callback cn' = msg_callback cn
     \<and> write_complete_callback cn' = write_complete_callback cn"

lemma same_conn_refl [simp, intro]: "same_conn cn cn"
  by (simp add: same_conn_def)

lemma same_conn_trans: "same_conn a b \<Longrightarrow> same_conn b c \<Longrightarrow> same_conn a c"
  by (auto simp: same_conn_def)

lemma same_conn_fields [simp]:
  "same_conn cn (cn'\<lparr>tc_state := st\<rparr>) \<longleftrightarrow> same_conn cn cn'"
  "same_conn cn (cn'\<lparr>tc_channel := ch\<rparr>) \<longleftrightarrow> same_conn cn cn'"
  "same_conn cn (cn'\<lparr>input_buffer := b\<rparr>) \<longleftrightarrow> same_conn cn cn'"
  "same_conn cn (cn'\<lparr>output_buffer := b\<rparr>) \<longleftrightarrow> same_conn cn cn'"
  "same_conn cn (cn'\<lparr>highwater_mark_callback := h\<rparr>) \<longleftrightarrow> same_conn cn cn'"
  by (simp_all add: same_conn_def)

definition cx_grows :: "'k cctx \<Rightarrow> 'k cctx \<Rightarrow> bool" where
  "cx_grows x x' \<longleftrightarrow> cx_tid x' = cx_tid x \<and> loop_grows (cx_loop x) (cx_loop x')
     \<and> same_conn (cx_conn x) (cx_conn x') \<and> input_buffer (cx_conn x') = input_buffer (cx_conn x)"

lemma cx_grows_refl [simp, intro]: "cx_grows x x"
  by (simp add: cx_grows_def)

lemma cx_grows_trans: "cx_grows a b \<Longrightarrow> cx_grows b c \<Longrightarrow> cx_grows a c"
  unfolding cx_grows_def by (blast intro: loop_grows_trans same_conn_trans dest: sym trans)

lemma cx_grows_kern [simp]: "cx_grows x (x'\<lparr>cx_kern := k\<rparr>) \<longleftrightarrow> cx_grows x x'"
  "cx_grows (x\<lparr>cx_kern := k\<rparr>) x' \<longleftrightarrow> cx_grows x x'"
  by (simp_all add: cx_grows_def)

lemma cx_setState_grows [simp]:
  "cx_grows x (cx_setState st x') \<longleftrightarrow> cx_grows x x'"
  "cx_grows (cx_setState st x) x' \<longleftrightarrow> cx_grows x x'"
  by (simp_all add: cx_grows_def cx_setState_def same_conn_def)

lemma cx_grows_output [simp]:
  "cx_grows x (x'\<lparr>cx_conn := (cx_conn x')\<lparr>output_buffer := b\<rparr>\<rparr>) \<longleftrightarrow> cx_grows x x'"
  by (simp add: cx_grows_def)

lemma cx_push_grows [growth]: "cx_grows x (cx_push os f x)"
  by (auto simp: cx_push_def cx_grows_def split: prod.splits intro: pushLoopCallback_grows)

lemma cx_push_opt_grows [growth]: "cx_grows x (cx_push_opt os mk cb x)"
  by (auto simp: cx_push_opt_def cx_push_grows split: option.splits)

lemma cx_update_grows [growth]: "cx_update os self x ch = Inr x' \<Longrightarrow> cx_grows x x'"
  by (auto simp: cx_update_def res_iff cx_grows_def intro: loop_updateChannel_grows)

lemma cx_remove_grows [growth]: "cx_remove os self x = Inr x' \<Longrightarrow> cx_grows x x'"
  by (auto simp: cx_remove_def res_iff cx_grows_def intro: loop_removeChannel_grows)

interpretation grow: cx_steps cx_grows os self for os self
  by unfold_locales (auto simp: cx_setState_grows intro: cx_grows_trans cx_push_grows cx_update_grows)

lemmas sendInLoop_grows [growth] = grow.send_steps
  and shutdownInLoop_grows [growth] = grow.shutdown_steps
  and handleError_grows [growth] = grow.error_steps
  and handleWrite_grows [growth] = grow.write_event_steps

section \<open>The whole state\<close>

definition loops_grow :: "('k, 'z) net_scheme \<Rightarrow> ('k, 'z) net_scheme \<Rightarrow> bool" where
  "loops_grow w w' \<longleftrightarrow> cur_tid w' = cur_tid w \<and> (\<forall>l. loop_grows (loops w l) (loops w' l))"

definition evolves :: "('k, 'z) net_scheme \<Rightarrow> ('k, 'z) net_scheme \<Rightarrow> bool" where
  "evolves w w' \<longleftrightarrow> loops_grow w w' \<and> (\<forall>c. rel_option same_conn (conns w c) (conns w' c))
     \<and> net.more w' = net.more w"

lemma loops_grow_refl [simp, intro]: "loops_grow w w"
  by (simp add: loops_grow_def)

lemma loops_grow_trans: "loops_grow a b \<Longrightarrow> loops_grow b c \<Longrightarrow> loops_grow a c"
  unfolding loops_grow_def by (blast intro: loop_grows_trans dest: sym trans)

lemma rel_same_conn_refl [simp, intro]: "rel_option same_conn cn cn"
  by (simp add: option.rel_refl)

lemma evolves_refl [simp, intro]: "evolves w w"
  by (simp add: evolves_def)

lemma evolves_trans: "evolves a b \<Longrightarrow> evolves b c \<Longrightarrow> evolves a c"
proof -
  assume a: "evolves a b" and b: "evolves b c"
  have "rel_option same_conn (conns a i) (conns c i)" for i
    using a b unfolding evolves_def
    by (cases "conns a i"; cases "conns b i"; cases "conns c i")
       (auto dest!: spec [of _ i] intro: same_conn_trans)
  then show ?thesis
    using a b loops_grow_trans [of a b c] by (simp add: evolves_def)
qed

lemma evolves_loops: "evolves w w' \<Longrightarrow> loops_grow w w'"
  by (simp add: evolves_def)

lemma evolves_more: "evolves w w' \<Longrightarrow> net.more w' = net.more w"
  by (simp add: evolves_def)

lemma evolves_conn:
  "evolves w w' \<Longrightarrow> conns w c = Some cn \<Longrightarrow> \<exists>cn'. conns w' c = Some cn' \<and> same_conn cn cn'"
  unfolding evolves_def by (drule conjunct2, drule conjunct1, drule spec [of _ c]) (auto elim: option.rel_cases)

lemma evolves_dom: "evolves w w' \<Longrightarrow> conns w' c = None \<longleftrightarrow> conns w c = None"
  unfolding evolves_def by (drule conjunct2, drule conjunct1, drule spec [of _ c]) (auto elim: option.rel_cases)

lemma on_loop_evolves:
  assumes "\<And>k lp k' lp'. f (k, lp) = (k', lp') \<Longrightarrow> loop_grows lp lp'"
  shows "evolves w (on_loop l f w)"
  using assms by (auto simp: on_loop_def evolves_def loops_grow_def split: prod.splits)

lemma in_conn_evolves:
  assumes "in_conn c f w = Inr w'" and "\<And>x x'. f x = Inr x' \<Longrightarrow> cx_grows x x'"
  shows "evolves w w'"
proof -
  obtain cn x' where cn: "conns w c = Some cn"
    and x': "f \<lparr>cx_kern = kern w, cx_tid = cur_tid w, cx_loop = loops w (tc_loop cn), cx_conn = cn\<rparr> = Inr x'"
    and w': "w' = w\<lparr>kern := cx_kern x', loops := (loops w)(tc_loop cn := cx_loop x'),
                  conns := (conns w)(c := Some (cx_conn x'))\<rparr>"
    using assms(1) by (auto simp: in_conn_def res_iff split: option.splits)
  show ?thesis
    using assms(2) [OF x'] cn by (auto simp: w' evolves_def loops_grow_def cx_grows_def)
qed

lemma net_push_evolves [growth]: "evolves w (net_push os l f w)"
  unfolding net_push_def by (rule on_loop_evolves) (rule pushLoopCallback_grows)

lemma runLoopCallback_evolves:
  assumes "runLoopCallback tid lp run push f w = Inr w'"
    and "\<And>w'. run f w = Inr w' \<Longrightarrow> evolves w w'" and "evolves w (push f w)"
  shows "evolves w w'"
  using assms by (auto simp: runLoopCallback_def split: if_split_asm)

lemma evolves_conn_fields:
  "conns w c = Some cn \<Longrightarrow> same_conn cn cn' \<Longrightarrow> evolves w (w\<lparr>conns := (conns w)(c \<mapsto> cn')\<rparr>)"
  by (simp add: evolves_def loops_grow_def)

interpretation evolve: net_steps "\<lambda>_. cx_grows" evolves os "\<lambda>_. True" for os
proof
  show "evolves w (on_loop l (loop_quit os t) w)" for w :: "('a, 'b) net_scheme" and l t
    by (rule on_loop_evolves) (rule loop_quit_grows)
qed (auto simp: setHighWaterCallback_def evolves_def [of w "w\<lparr>strs := x\<rparr>" for w x] loops_grow_def
    intro: evolves_trans in_conn_evolves evolves_conn_fields net_push_evolves cx_grows_trans cx_push_grows cx_update_grows)

lemma run_conn_functor_evolves [growth]: "run_conn_functor os A f w = Inr w' \<Longrightarrow> evolves w w'"
  by (rule evolve.conn_functor_steps) simp_all

lemma run_actions_evolves [growth]: "run_actions os A acts w = Inr w' \<Longrightarrow> evolves w w'"
  by (rule evolve.actions_steps) simp_all

lemma perform_evolves [growth]: "perform os A a w = Inr w' \<Longrightarrow> evolves w w'"
  by (rule evolve.perform_steps) simp_all

lemma tcp_send_evolves [growth]: "tcp_send os A c s w = Inr w' \<Longrightarrow> evolves w w'"
  by (rule evolve.tcp_send_steps) simp_all

lemma tcp_shutdown_evolves [growth]: "tcp_shutdown os A c w = Inr w' \<Longrightarrow> evolves w w'"
  by (rule evolve.tcp_shutdown_steps) simp_all

lemma fold_res_evolves:
  assumes "fold_res f xs w = Inr w'" and "\<And>x w w'. f x w = Inr w' \<Longrightarrow> evolves w w'"
  shows "evolves w w'"
proof (rule fold_res_invariant [OF assms(1), where P = "evolves w"])
  fix x s s'
  assume "evolves w s" and "f x s = Inr s'"
  then show "evolves w s'" using assms(2) evolves_trans by blast
qed simp

lemma note_call_evolves [growth]: "evolves w (note_call ob w)"
  by (simp add: note_call_def evolves_def loops_grow_def)

lemma noted_actions_evolve:
  "run_actions os A acts (note_call ob w) = Inr w' \<Longrightarrow> evolves w w'"
  by (rule evolves_trans [OF note_call_evolves run_actions_evolves])

lemma call_connection_evolves [growth]: "call_connection os A app c w = Inr w' \<Longrightarrow> evolves w w'"
  by (auto simp: call_connection_def split: option.splits intro: noted_actions_evolve)

lemma call_message_evolves [growth]: "call_message os A app c t w = Inr w' \<Longrightarrow> evolves w w'"
  by (auto simp: call_message_def split: option.splits intro: noted_actions_evolve)

lemma in_conn_update_evolves:
  assumes "in_conn c (\<lambda>x. let x = cx_setState st x in
      setter (cx_update os c x) (g (tc_channel (cx_conn x)))) w = Inr w'"
    and "\<And>(u :: _ \<Rightarrow> 'k cctx res) ch x'. setter u ch = Inr x' \<Longrightarrow> \<exists>ch'. u ch' = Inr x'"
  shows "evolves (w :: ('k, 'z) net_scheme) w'"
proof (rule in_conn_evolves [OF assms(1)])
  fix x x' :: "'k cctx"
  assume "(let x = cx_setState st x in setter (cx_update os c x) (g (tc_channel (cx_conn x)))) = Inr x'"
  then obtain ch where "cx_update os c (cx_setState st x) ch = Inr x'"
    using assms(2) unfolding Let_def by blast
  then show "cx_grows x x'" using cx_update_grows by fastforce
qed

lemma connEstablish_evolves [growth]: "connEstablish os A app c w = Inr w' \<Longrightarrow> evolves w w'"
  unfolding connEstablish_def res_iff
  by (elim exE conjE, rule evolves_trans, erule in_conn_update_evolves)
     (auto simp: interest_defs intro: call_connection_evolves)

lemma disable_evolves:
  "in_conn c (\<lambda>x. let x = cx_setState st x in
     disableAllEvent (cx_update os c x) (tc_channel (cx_conn x))) w = Inr w' \<Longrightarrow> evolves w w'"
  by (erule in_conn_update_evolves [where g = "\<lambda>ch. ch"]) (auto simp: interest_defs)

lemma connDestory_evolves [growth]: "connDestory os A app c w = Inr w' \<Longrightarrow> evolves w w'"
  by (auto simp: connDestory_def res_iff split: option.splits if_split_asm
      dest!: disable_evolves call_connection_evolves in_conn_evolves [OF _ cx_remove_grows]
      intro: evolves_trans)

lemma handleWrite_evolves [growth]:
  "in_conn c (handleWrite os c) w = Inr w' \<Longrightarrow> evolves w w'"
  by (rule in_conn_evolves, assumption, rule handleWrite_grows)

lemma handleError_evolves [growth]:
  "in_conn c (\<lambda>x. Inr (handleError os x)) w = Inr w' \<Longrightarrow> evolves w w'"
  by (rule in_conn_evolves, assumption) (auto intro: handleError_grows)

end
