(* ===== verification/TcpServer.thy ===== *)
theory TcpServer
  imports "HOL-Library.AList" Evolution Acceptor ThreadPool EventLoopThread
begin

text \<open>
  The class \<open>TcpServer\<close> (\<open>src/tcp_server.h\<close>, \<open>src/tcp_server.cc\<close>). A \<open>world\<close> is a process with at
  most one server. The table of connections is an association list, since its destructor walks it.

  Ownership: \<open>TcpConnectionPtr\<close> is a \<open>shared_ptr\<close>. It is held by the table and by the functors that
  bind it, so a connection is destroyed, and its socket closed, when such a holder goes away and no
  other is left; \<open>release\<close> is called where the code lets a holder go out of scope. User code holds
  none beyond a callback.
\<close>

section \<open>The class\<close>

datatype server_option = kNoReusePort | kReusePort

record tcp_server =
  srv_loop :: nat
  ip_port :: string
  srv_name :: string
  srv_acceptor :: acceptor
  srv_pool :: "event_loop_thread thread_pool"
  srv_conn_callback :: "nat option"
  srv_msg_callback :: "nat option"
  srv_write_complete_callback :: "nat option"
  thread_init_callback :: "nat option"
  srv_started :: "32 word"
  next_conn_id :: int
  connections :: "(string \<times> nat) list"

record 'k world = "'k proc" +
  server :: "tcp_server option"

definition TcpServer_new ::
  "'k os \<Rightarrow> nat option \<Rightarrow> sockaddr_in \<Rightarrow> string \<Rightarrow> server_option \<Rightarrow> 'k world \<Rightarrow> 'k world res" where
  "TcpServer_new os loop listen_addr name opt w =
     bind_res (CheckLoopNotNull loop) (\<lambda>l.
     bind_res (getIpAndPort listen_addr) (\<lambda>ip.
     bind_res (Acceptor_new os l listen_addr (opt = kReusePort) (kern w)) (\<lambda>(ac, k).
       Inr (w\<lparr>kern := k, server := Some
         \<lparr>srv_loop = l, ip_port = ip, srv_name = name, srv_acceptor = setNewConnectionCallback ac,
          srv_pool = ThreadPool_new l name, srv_conn_callback = None, srv_msg_callback = None,
          srv_write_complete_callback = None, thread_init_callback = None, srv_started = 0,
          next_conn_id = 1, connections = []\<rparr>\<rparr>))))"

definition srv_setThreadInitCallback :: "nat option \<Rightarrow> tcp_server \<Rightarrow> tcp_server" where
  "srv_setThreadInitCallback cb sv = sv\<lparr>thread_init_callback := cb\<rparr>"

definition srv_setConnectionCallback :: "nat option \<Rightarrow> tcp_server \<Rightarrow> tcp_server" where
  "srv_setConnectionCallback cb sv = sv\<lparr>srv_conn_callback := cb\<rparr>"

definition srv_setMessageCallback :: "nat option \<Rightarrow> tcp_server \<Rightarrow> tcp_server" where
  "srv_setMessageCallback cb sv = sv\<lparr>srv_msg_callback := cb\<rparr>"

definition srv_setWriteCompleteCallback :: "nat option \<Rightarrow> tcp_server \<Rightarrow> tcp_server" where
  "srv_setWriteCompleteCallback cb sv = sv\<lparr>srv_write_complete_callback := cb\<rparr>"

definition setThreadPoolSize :: "int \<Rightarrow> tcp_server \<Rightarrow> tcp_server" where
  "setThreadPoolSize n sv = sv\<lparr>srv_pool := setPoolSize n (srv_pool sv)\<rparr>"

text \<open>The pointer to the server that its functors and callbacks bind.\<close>

definition with_server :: "(tcp_server \<Rightarrow> 'k world \<Rightarrow> 'b res) \<Rightarrow> 'k world \<Rightarrow> 'b res" where
  "with_server f w = (case server w of None \<Rightarrow> Inl DanglingPointer | Some sv \<Rightarrow> f sv w)"

text \<open>\<open>Acceptor::listen\<close> on the server's acceptor.\<close>

definition server_listen :: "'k os \<Rightarrow> 'k world \<Rightarrow> 'k world res" where
  "server_listen os = with_server (\<lambda>sv w.
     let l = acc_loop (srv_acceptor sv) in
     bind_res (acceptor_listen os (kern w, loops w l, srv_acceptor sv)) (\<lambda>(k, lp, ac).
       Inr (w\<lparr>kern := k, loops := (loops w)(l := lp), server := Some (sv\<lparr>srv_acceptor := ac\<rparr>)\<rparr>)))"

text \<open>\<open>started_\<close> is an \<open>atomic_int\<close>; its increment wraps around.\<close>

definition server_start ::
  "'k os \<Rightarrow> alloc \<Rightarrow> (string \<Rightarrow> string option) \<Rightarrow> 'k world app \<Rightarrow> 'k world \<Rightarrow> 'k world res" where
  "server_start os A getenv app = with_server (\<lambda>sv w.
     let w = w\<lparr>server := Some (sv\<lparr>srv_started := srv_started sv + 1\<rparr>)\<rparr> in
     if srv_started sv = 0 then
       bind_res
         (pool_start (spawn_loop os A getenv app (thread_init_callback sv))
            (map_option (call_init os A app) (thread_init_callback sv)) (srv_pool sv, w))
         (\<lambda>(p, w).
         let w = w\<lparr>server := map_option (\<lambda>sv. sv\<lparr>srv_pool := p\<rparr>) (server w)\<rparr> in
         runLoopCallback (cur_tid w) (loops w (srv_loop sv)) (\<lambda>_. server_listen os)
           (net_push os (srv_loop sv)) FListen w)
     else Inr w)"

section \<open>Ownership of connections\<close>

fun functor_holds :: "Functor \<Rightarrow> nat option" where
  "functor_holds (FSendInLoop c s n) = None"
| "functor_holds (FShutdownInLoop c) = None"
| "functor_holds (FConnEstablish c) = Some c"
| "functor_holds (FConnDestory c) = Some c"
| "functor_holds (FWriteComplete cb c) = Some c"
| "functor_holds (FHighWater cb c n) = Some c"
| "functor_holds FListen = None"
| "functor_holds (FRemoveConnection c) = Some c"
| "functor_holds (FUser u) = None"

definition in_table :: "nat \<Rightarrow> tcp_server option \<Rightarrow> bool" where
  "in_table c so = (case so of None \<Rightarrow> False | Some sv \<Rightarrow> list_ex (\<lambda>(n, d). d = c) (connections sv))"

definition referenced :: "nat \<Rightarrow> 'k world \<Rightarrow> bool" where
  "referenced c w \<longleftrightarrow> in_table c (server w)
     \<or> list_ex (\<lambda>l. list_ex (\<lambda>f. functor_holds f = Some c) (pending (loops w l))) [0 ..< fresh_loop w]"

definition TcpConnection_destroy :: "'k os \<Rightarrow> nat \<Rightarrow> tcp_connection \<Rightarrow> 'k world \<Rightarrow> 'k world" where
  "TcpConnection_destroy os c cn w =
     w\<lparr>kern := Socket_destroy os (tc_sockfd cn) (kern w), conns := (conns w)(c := None)\<rparr>"

definition release :: "'k os \<Rightarrow> nat \<Rightarrow> 'k world \<Rightarrow> 'k world" where
  "release os c w =
     (case conns w c of
        None \<Rightarrow> w
      | Some cn \<Rightarrow> if referenced c w then w else TcpConnection_destroy os c cn w)"

section \<open>New and closed connections\<close>

definition conn_name_of :: "tcp_server \<Rightarrow> int \<Rightarrow> string" where
  "conn_name_of sv i =
     srv_name sv @ snprintf_text 64 (''-'' @ c_str (ip_port sv) @ ''#'' @ show_int i)"

text \<open>The number given to the close callback: the server's \<open>removeConnection\<close>.\<close>

definition kRemoveConnection :: nat where
  "kRemoveConnection = 0"

definition newConnection ::
  "'k os \<Rightarrow> alloc \<Rightarrow> 'k world app \<Rightarrow> int \<Rightarrow> sockaddr_in \<Rightarrow> 'k world \<Rightarrow> 'k world res" where
  "newConnection os A app sockfd paddr = with_server (\<lambda>sv w.
     bind_res (getNextLoop (srv_pool sv)) (\<lambda>(io_loop, p).
     if next_conn_id sv = 2 ^ 31 - 1 then Inl SignedOverflow else
     let conn_name = conn_name_of sv (next_conn_id sv);
         sv = sv\<lparr>srv_pool := p, next_conn_id := next_conn_id sv + 1\<rparr> in
     case sys_getsockname os sockfd (kern w) of (r, k) \<Rightarrow>
     let laddr = (case r of Inl _ \<Rightarrow> zero_sockaddr | Inr a \<Rightarrow> a); c = fresh_conn w in
     bind_res (TcpConnection_new os A c (Some io_loop) conn_name sockfd laddr paddr k) (\<lambda>(k, cn).
     let old = map_of (connections sv) conn_name;
         sv = sv\<lparr>connections := AList.update conn_name c (connections sv)\<rparr>;
         cn = conn_setCloseCallback (Some kRemoveConnection)
                (setWriteCompleteCallback (srv_write_complete_callback sv)
                (setMessageCallback (srv_msg_callback sv)
                (setConnectionCallback (srv_conn_callback sv) cn)));
         w = w\<lparr>kern := k, conns := (conns w)(c := Some cn), fresh_conn := c + 1, server := Some sv\<rparr>;
         w = (case old of None \<Rightarrow> w | Some d \<Rightarrow> release os d w)
     in runLoopCallback (cur_tid w) (loops w io_loop) (\<lambda>_. connEstablish os A app c)
          (net_push os io_loop) (FConnEstablish c) w)))"

definition removeConnectionInLoop :: "'k os \<Rightarrow> nat \<Rightarrow> 'k world \<Rightarrow> 'k world res" where
  "removeConnectionInLoop os c = with_server (\<lambda>sv w.
     case conns w c of
       None \<Rightarrow> Inl DanglingPointer
     | Some cn \<Rightarrow>
         Inr (net_push os (tc_loop cn) (FConnDestory c)
           (w\<lparr>server := Some (sv\<lparr>connections := AList.delete (tc_name cn) (connections sv)\<rparr>)\<rparr>)))"

definition removeConnection :: "'k os \<Rightarrow> nat \<Rightarrow> 'k world \<Rightarrow> 'k world res" where
  "removeConnection os c = with_server (\<lambda>sv w.
     runLoopCallback (cur_tid w) (loops w (srv_loop sv)) (\<lambda>_. removeConnectionInLoop os c)
       (net_push os (srv_loop sv)) (FRemoveConnection c) w)"

text \<open>The close callback of a connection of the server.\<close>

definition closer :: "'k os \<Rightarrow> nat \<Rightarrow> nat \<Rightarrow> 'k world \<Rightarrow> 'k world res" where
  "closer os cb c w = (if cb = kRemoveConnection then removeConnection os c w else Inl BadFunctionCall)"

text \<open>
  The body of the destructor, over the entries in the order \<open>items\<close> in which the hash table yields
  them: each is taken out of the table and handed to its loop, and the local pointer goes.
\<close>

definition hand_over :: "'k os \<Rightarrow> alloc \<Rightarrow> 'k world app \<Rightarrow> string \<times> nat \<Rightarrow> 'k world \<Rightarrow> 'k world res" where
  "hand_over os A app item w =
     (case item of (n, c) \<Rightarrow>
      case conns w c of
        None \<Rightarrow> Inl DanglingPointer
      | Some cn \<Rightarrow>
          bind_res
            (runLoopCallback (cur_tid w) (loops w (tc_loop cn)) (\<lambda>_. connDestory os A app c)
               (net_push os (tc_loop cn)) (FConnDestory c)
               (w\<lparr>server := map_option (\<lambda>sv. sv\<lparr>connections := AList.delete n (connections sv)\<rparr>) (server w)\<rparr>))
            (\<lambda>w. Inr (release os c w)))"

definition TcpServer_destroy_body ::
  "'k os \<Rightarrow> alloc \<Rightarrow> 'k world app \<Rightarrow> (string \<times> nat) list \<Rightarrow> 'k world \<Rightarrow> 'k world res" where
  "TcpServer_destroy_body os A app items = fold_res (hand_over os A app) items"

end
