(* ===== verification/Reactor.thy ===== *)
theory Reactor
  imports TcpServer
begin

text \<open>
  The running program: what a channel's callbacks and the queued functors do (\<open>run_handler\<close>,
  \<open>run_functor\<close>), one turn of \<open>EventLoop::loop\<close> and the loop itself (\<open>src/eventloop.cc\<close>). A thread's
  turn is one step here; what other threads do between two turns is the parameter \<open>others\<close>. The
  \<open>while\<close> runs on fuel: \<open>None\<close> means that it has not ended after so many turns.
\<close>

section \<open>Dispatch\<close>

definition run_handler ::
  "'k os \<Rightarrow> alloc \<Rightarrow> 'k world app \<Rightarrow> int \<Rightarrow> handler \<Rightarrow> 'k world \<Rightarrow> 'k world res" where
  "run_handler os A app receive_time h w =
     (case h of
        HAwake l \<Rightarrow> Inr (on_loop l (awake os) w)
      | HAcceptRead \<Rightarrow>
          with_server (\<lambda>sv. acceptor_handleRead os kern (\<lambda>k w. w\<lparr>kern := k\<rparr>) (newConnection os A app)
            (srv_acceptor sv)) w
      | HConnRead c \<Rightarrow> handleRead os A app (closer os) c receive_time w
      | HConnWrite c \<Rightarrow> in_conn c (handleWrite os c) w
      | HConnClose c \<Rightarrow> handleClose os A app (closer os) c w
      | HConnError c \<Rightarrow> in_conn c (\<lambda>x. Inr (handleError os x)) w)"

definition run_functor ::
  "'k os \<Rightarrow> alloc \<Rightarrow> 'k world app \<Rightarrow> Functor \<Rightarrow> 'k world \<Rightarrow> 'k world res" where
  "run_functor os A app f w =
     (case f of
        FConnEstablish c \<Rightarrow> connEstablish os A app c w
      | FConnDestory c \<Rightarrow> connDestory os A app c w
      | FWriteComplete cb c \<Rightarrow>
          run_actions os A (on_write_complete app cb w c) (note_call (CalledWriteComplete cb c) w)
      | FHighWater cb c n \<Rightarrow>
          run_actions os A (on_high_water app cb w c n) (note_call (CalledHighWater cb c n) w)
      | FListen \<Rightarrow> server_listen os w
      | FRemoveConnection c \<Rightarrow> removeConnectionInLoop os c w
      | FUser u \<Rightarrow> run_actions os A (on_user app u w) (note_call (CalledUser u) w)
      | _ \<Rightarrow> run_conn_functor os A f w)"

text \<open>The raw pointers of the active list: storing \<open>revents\<close>, and \<open>handleEvent\<close>. A connection whose
  guard goes out of scope may be the last holder.\<close>

definition set_revents :: "chan_ptr \<Rightarrow> 32 word \<Rightarrow> 'k world \<Rightarrow> 'k world res" where
  "set_revents p ev w =
     (case p of
        WakeupCh l \<Rightarrow>
          Inr (w\<lparr>loops := (loops w)(l := (loops w l)
                   \<lparr>wakeup_channel := setRevents ev (wakeup_channel (loops w l))\<rparr>)\<rparr>)
      | AcceptCh \<Rightarrow>
          with_server (\<lambda>sv w. Inr (w\<lparr>server := Some (sv\<lparr>srv_acceptor := (srv_acceptor sv)
             \<lparr>accept_channel := setRevents ev (accept_channel (srv_acceptor sv))\<rparr>\<rparr>)\<rparr>)) w
      | ConnCh c \<Rightarrow> upd_conn c (\<lambda>cn. Inr (cn\<lparr>tc_channel := setRevents ev (tc_channel cn)\<rparr>)) w)"

definition handle_channel ::
  "'k os \<Rightarrow> alloc \<Rightarrow> 'k world app \<Rightarrow> int \<Rightarrow> chan_ptr \<Rightarrow> 'k world \<Rightarrow> 'k world res" where
  "handle_channel os A app receive_time p w =
     (let handle = handleEvent (\<lambda>w c. conns w c \<noteq> None) (run_handler os A app receive_time) in
      case p of
        WakeupCh l \<Rightarrow> handle (wakeup_channel (loops w l)) w
      | AcceptCh \<Rightarrow> with_server (\<lambda>sv. handle (accept_channel (srv_acceptor sv))) w
      | ConnCh c \<Rightarrow>
          (case conns w c of
             None \<Rightarrow> Inl DanglingPointer
           | Some cn \<Rightarrow> bind_res (handle (tc_channel cn) w) (\<lambda>w. Inr (release os c w))))"

text \<open>The vector of functors is destroyed when they have all run.\<close>

definition release_functors :: "'k os \<Rightarrow> Functor list \<Rightarrow> 'k world \<Rightarrow> 'k world" where
  "release_functors os fs w = fold (release os) (List.map_filter functor_holds fs) w"

definition upd_loop ::
  "nat \<Rightarrow> (event_loop \<Rightarrow> event_loop) \<Rightarrow> ('k, 'z) net_scheme \<Rightarrow> ('k, 'z) net_scheme" where
  "upd_loop l g w = w\<lparr>loops := (loops w)(l := g (loops w l))\<rparr>"

definition run_pending ::
  "'k os \<Rightarrow> alloc \<Rightarrow> 'k world app \<Rightarrow> nat \<Rightarrow> 'k world \<Rightarrow> 'k world res" where
  "run_pending os A app l w =
     (let functors = pending (loops w l) in
      bind_res (executePendingFunctors (\<lambda>w. loops w l) (upd_loop l) (run_functor os A app) w)
        (\<lambda>w. Inr (release_functors os functors w)))"

section \<open>The loop\<close>

definition poll_phase :: "'k os \<Rightarrow> nat \<Rightarrow> 'k world \<Rightarrow> 'k world res" where
  "poll_phase os l w =
     (let w = upd_loop l (\<lambda>lp. lp\<lparr>active_channels := []\<rparr>) w in
      case poller (loops w l) of
        None \<Rightarrow> Inl NullPointer
      | Some po \<Rightarrow>
          bind_res (poller_poll os kPollWaitTime (kern w, po)) (\<lambda>(k, po, events, now).
          let w = upd_loop l (\<lambda>lp. lp\<lparr>poller := Some po\<rparr>) (w\<lparr>kern := k\<rparr>) in
          bind_res (triggerChannels set_revents events [] w) (\<lambda>(w, active).
            Inr (upd_loop l (\<lambda>lp. lp\<lparr>active_channels := active, poll_return_time := now\<rparr>) w))))"

definition handle_phase ::
  "'k os \<Rightarrow> alloc \<Rightarrow> 'k world app \<Rightarrow> nat \<Rightarrow> 'k world \<Rightarrow> 'k world res" where
  "handle_phase os A app l w =
     fold_res (handle_channel os A app (poll_return_time (loops w l))) (active_channels (loops w l)) w"

definition loop_turn :: "'k os \<Rightarrow> alloc \<Rightarrow> 'k world app \<Rightarrow> nat \<Rightarrow> 'k world \<Rightarrow> 'k world res" where
  "loop_turn os A app l w =
     bind_res (poll_phase os l (w\<lparr>cur_tid := thread_id (loops w l)\<rparr>)) (\<lambda>w.
     bind_res (handle_phase os A app l w) (\<lambda>w.
       run_pending os A app l w))"

fun loop_while ::
  "'k os \<Rightarrow> alloc \<Rightarrow> 'k world app \<Rightarrow> ('k world \<Rightarrow> 'k world) \<Rightarrow> nat \<Rightarrow> nat \<Rightarrow> 'k world \<Rightarrow>
   'k world option res" where
  "loop_while os A app others l 0 w = Inr None"
| "loop_while os A app others l (Suc n) w =
     (if quit_flag (loops w l) then Inr (Some w)
      else bind_res (loop_turn os A app l w) (\<lambda>w. loop_while os A app others l n (others w)))"

definition EventLoop_loop ::
  "'k os \<Rightarrow> alloc \<Rightarrow> 'k world app \<Rightarrow> ('k world \<Rightarrow> 'k world) \<Rightarrow> nat \<Rightarrow> nat \<Rightarrow> 'k world \<Rightarrow>
   'k world option res" where
  "EventLoop_loop os A app others fuel l w =
     bind_res
       (loop_while os A app others l fuel (upd_loop l (\<lambda>lp. lp\<lparr>looping := True, quit_flag := False\<rparr>) w))
       (\<lambda>r. Inr (map_option (upd_loop l (\<lambda>lp. lp\<lparr>looping := False\<rparr>)) r))"

end
