(* ===== verification/ReactorFacts.thy ===== *)
theory ReactorFacts
  imports Reactor
begin

text \<open>
  What the functors and the handlers of a running program never do: loops only get functors appended,
  connections keep their name and their loop, and the server's part of the state changes only through
  the server. This discharges the laws of the locale \<open>functor_host\<close>, so that its lemmas on the turn
  of a loop hold of the reactor.
\<close>

section \<open>Queues only grow\<close>

lemma world_more:
  fixes w w' :: "'k world"
  assumes "net.more w' = net.more w"
  shows "server w' = server w" "tls w' = tls w" "thread_count w' = thread_count w"
    "fresh_conn w' = fresh_conn w" "fresh_loop w' = fresh_loop w" "fresh_tid w' = fresh_tid w"
  using assms by (cases w; cases w'; simp)+

lemmas evolves_world = world_more [OF evolves_more]

lemma loops_grow_server [simp]:
  "loops_grow w (w'\<lparr>server := so\<rparr>) \<longleftrightarrow> loops_grow w w'"
  "loops_grow (w\<lparr>server := so\<rparr>) w' \<longleftrightarrow> loops_grow w w'"
  "loops_grow w (w'\<lparr>kern := k\<rparr>) \<longleftrightarrow> loops_grow w w'"
  "loops_grow (w\<lparr>kern := k\<rparr>) w' \<longleftrightarrow> loops_grow w w'"
  "loops_grow w (w'\<lparr>conns := cs\<rparr>) \<longleftrightarrow> loops_grow w w'"
  "loops_grow (w\<lparr>conns := cs\<rparr>) w' \<longleftrightarrow> loops_grow w w'"
  by (simp_all add: loops_grow_def)

lemma loops_grow_loop:
  "loop_grows (loops w l) lp \<Longrightarrow> loops_grow w (w\<lparr>loops := (loops w)(l := lp)\<rparr>)"
  by (simp add: loops_grow_def)

lemma loops_grow_fresh [simp]: "loops_grow w (w'\<lparr>fresh_conn := c\<rparr>) \<longleftrightarrow> loops_grow w w'"
  by (simp add: loops_grow_def)

lemma release_loops [simp]: "loops (release os c w) = loops w" "cur_tid (release os c w) = cur_tid w"
  "server (release os c w) = server w" "fresh_loop (release os c w) = fresh_loop w"
  "fresh_conn (release os c w) = fresh_conn w" "trace (release os c w) = trace w"
  by (auto simp: release_def TcpConnection_destroy_def split: option.splits)

lemma loops_grow_release [simp]:
  "loops_grow w (release os c w') \<longleftrightarrow> loops_grow w w'"
  by (simp add: loops_grow_def)

lemma net_push_grows: "loops_grow w (net_push os l f w)"
  by (rule evolves_loops) (rule net_push_evolves)

lemma acceptor_listen_grows:
  "acceptor_listen os (k, lp, ac) = Inr (k', lp', ac') \<Longrightarrow> loop_grows lp lp'"
  by (auto simp: acceptor_listen_def res_iff interest_defs Let_def intro: loop_updateChannel_grows)

lemma server_listen_grows: "server_listen os w = Inr w' \<Longrightarrow> loops_grow w w'"
  by (auto simp: server_listen_def with_server_def res_iff Let_def split: option.splits
      dest!: acceptor_listen_grows simp: loops_grow_def)

lemma removeConnectionInLoop_grows: "removeConnectionInLoop os c w = Inr w' \<Longrightarrow> loops_grow w w'"
  by (auto simp: removeConnectionInLoop_def with_server_def split: option.splits
      intro: loops_grow_trans [OF _ net_push_grows])

lemma removeConnection_grows: "removeConnection os c w = Inr w' \<Longrightarrow> loops_grow w w'"
  by (auto simp: removeConnection_def runLoopCallback_def with_server_def
      split: option.splits if_split_asm intro: removeConnectionInLoop_grows net_push_grows)

lemma run_functor_grows:
  assumes "run_functor os A app f w = Inr w'"
  shows "loops_grow w w'"
  using assms
  by (cases f)
     (auto simp: run_functor_def intro: evolves_loops connEstablish_evolves connDestory_evolves
      noted_actions_evolve run_conn_functor_evolves server_listen_grows removeConnectionInLoop_grows)

interpretation turn: functor_host "\<lambda>w. loops w l" "upd_loop l" "run_functor os A app" for l os A app
proof
  show "loops (upd_loop l g w) l = g (loops w l)" for g w
    by (simp add: upd_loop_def)
next
  fix f w w'
  assume "run_functor os A app f w = Inr w'"
  then show "(\<exists>fs. pending (loops w' l) = pending (loops w l) @ fs)
      \<and> calling_pending (loops w' l) = calling_pending (loops w l)"
    using run_functor_grows [of os A app f w w'] by (simp add: loops_grow_def loop_grows_def)
qed

text \<open>What closing and reading do.\<close>

lemma handleClose_parts:
  assumes "handleClose os A app (closer os) d w = Inr w'"
  obtains w1 w2 where "in_conn d (\<lambda>x. let x = cx_setState kDisconnected x in
      disableAllEvent (cx_update os d x) (tc_channel (cx_conn x))) w = Inr w1"
    and "call_connection os A app d w1 = Inr w2" and "removeConnection os d w2 = Inr w'"
  using assms by (auto simp: handleClose_def res_iff closer_def split: option.splits if_split_asm)

lemma handleClose_grows:
  assumes "handleClose os A app (closer os) c w = Inr w'"
  shows "loops_grow w w'"
proof -
  obtain w1 w2 where w1: "in_conn c (\<lambda>x. let x = cx_setState kDisconnected x in
      disableAllEvent (cx_update os c x) (tc_channel (cx_conn x))) w = Inr w1"
    and w2: "call_connection os A app c w1 = Inr w2" and w': "removeConnection os c w2 = Inr w'"
    using assms by (rule handleClose_parts)
  show ?thesis
    using disable_evolves [OF w1] call_connection_evolves [OF w2] removeConnection_grows [OF w'] evolves_loops loops_grow_trans
    by blast
qed

lemma handleRead_parts:
  assumes "handleRead os A app cl d t w = Inr w'"
  obtains cn k b w1 where "conns w d = Some cn" and "w1 = w\<lparr>kern := k, conns := (conns w)(d := Some (cn\<lparr>input_buffer := b\<rparr>))\<rparr>"
    and "call_message os A app d t w1 = Inr w' \<or> handleClose os A app cl d w1 = Inr w'
      \<or> in_conn d (\<lambda>x. Inr (handleError os x)) w1 = Inr w'"
proof -
  obtain cn where cn: "conns w d = Some cn" using assms by (auto simp: handleRead_def split: option.splits)
  obtain r k b where "buffer_read A (sys_readv os (ch_fd (tc_channel cn))) (kern w) (input_buffer cn) = Inr (r, k, b)"
    using assms cn by (cases "buffer_read A (sys_readv os (ch_fd (tc_channel cn))) (kern w) (input_buffer cn)")
      (auto simp: handleRead_def)
  then show ?thesis
    using that [OF cn refl, of b k] assms cn by (cases r) (auto simp: handleRead_def Let_def split: if_split_asm)
qed

lemma handleRead_grows:
  assumes "handleRead os A app (closer os) c t w = Inr w'"
  shows "loops_grow w w'"
proof -
  obtain cn k b w1 where w1: "w1 = w\<lparr>kern := k, conns := (conns w)(c := Some (cn\<lparr>input_buffer := b\<rparr>))\<rparr>"
    and "call_message os A app c t w1 = Inr w' \<or> handleClose os A app (closer os) c w1 = Inr w'
      \<or> in_conn c (\<lambda>x. Inr (handleError os x)) w1 = Inr w'"
    using assms by (rule handleRead_parts)
  then have "loops_grow w1 w'"
    by (auto dest!: call_message_evolves handleError_evolves evolves_loops handleClose_grows)
  then show ?thesis by (simp add: w1)
qed

lemma TcpConnection_new_ok:
  "TcpConnection_new os A c (Some l) name fd la pa k = Inr (k', cn) \<Longrightarrow>
     tc_loop cn = l \<and> tc_name cn = name \<and> tc_sockfd cn = fd \<and> tc_state cn = kConnecting"
  by (auto simp: TcpConnection_new_def CheckLoopNotNull_def res_iff Let_def)

end
