(* ===== verification/ServerFacts.thy ===== *)
theory ServerFacts
  imports ReactorFacts ConnectionFacts
begin

text \<open>
  The server: names of connections are never reused, the table holds exactly the connections accepted
  and not yet removed, starting twice does nothing, and the loops of the pool are new ones, each with
  a thread of its own.
\<close>

section \<open>Names\<close>

lemma conn_name_text:
  assumes "length (ip_port sv) \<le> 21" and "0 < i" and "i < 2 ^ 31"
  shows "conn_name_of sv i = srv_name sv @ ''-'' @ c_str (ip_port sv) @ ''#'' @ show_int i"
proof -
  have "length (show_int i) \<le> 11"
    using show_int_length [of 10 i] assms(2,3) by simp
  then show ?thesis
    using length_c_str [of "ip_port sv"] assms(1) by (simp add: conn_name_of_def)
qed

lemma conn_name_inject:
  assumes "length (ip_port sv) \<le> 21" and "0 < i" "i < 2 ^ 31" and "0 < j" "j < 2 ^ 31"
  shows "conn_name_of sv i = conn_name_of sv j \<longleftrightarrow> i = j"
  using assms by (simp add: conn_name_text)

section \<open>The invariant of the server\<close>

definition made_by :: "tcp_server \<Rightarrow> int \<Rightarrow> tcp_connection \<Rightarrow> bool" where
  "made_by sv i cn \<longleftrightarrow> 0 < i \<and> i < next_conn_id sv \<and> tc_name cn = conn_name_of sv i"

definition named_conns :: "tcp_server \<Rightarrow> (nat \<Rightarrow> tcp_connection option) \<Rightarrow> bool" where
  "named_conns sv cs \<longleftrightarrow>
     (\<forall>c cn. cs c = Some cn \<longrightarrow> (\<exists>i. made_by sv i cn))
     \<and> (\<forall>c d cn dn. cs c = Some cn \<and> cs d = Some dn \<and> tc_name cn = tc_name dn \<longrightarrow> c = d)"

definition table_ok :: "tcp_server \<Rightarrow> (nat \<Rightarrow> tcp_connection option) \<Rightarrow> bool" where
  "table_ok sv cs \<longleftrightarrow> distinct (map fst (connections sv))
     \<and> (\<forall>(n, c) \<in> set (connections sv). \<exists>cn. cs c = Some cn \<and> tc_name cn = n)"

definition server_ok :: "tcp_server \<Rightarrow> 'k world \<Rightarrow> bool" where
  "server_ok sv w \<longleftrightarrow> length (ip_port sv) \<le> 21 \<and> pool_inv (srv_pool sv)
     \<and> 0 < next_conn_id sv \<and> next_conn_id sv < 2 ^ 31
     \<and> (\<forall>c \<ge> fresh_conn w. conns w c = None)
     \<and> named_conns sv (conns w) \<and> table_ok sv (conns w)"

definition server_inv :: "'k world \<Rightarrow> bool" where
  "server_inv w \<longleftrightarrow> (\<exists>sv. server w = Some sv \<and> server_ok sv w)"

lemma made_by_same: "same_conn cn cn' \<Longrightarrow> made_by sv i cn' \<longleftrightarrow> made_by sv i cn"
  by (simp add: made_by_def same_conn_def)

lemma evolves_conn_back:
  assumes "evolves w w'" and "conns w' c = Some cn'"
  shows "\<exists>cn. conns w c = Some cn \<and> same_conn cn cn'"
  using assms evolves_dom [OF assms(1), of c] evolves_conn [OF assms(1), of c]
  by (cases "conns w c") auto

lemma named_connsD:
  assumes "named_conns sv cs"
  shows "cs c = Some cn \<Longrightarrow> \<exists>i. made_by sv i cn"
    and "cs c = Some cn \<Longrightarrow> cs d = Some dn \<Longrightarrow> tc_name cn = tc_name dn \<Longrightarrow> c = d"
  using assms unfolding named_conns_def by blast+

lemma server_okD:
  assumes "server_ok sv w"
  shows "named_conns sv (conns w)" "table_ok sv (conns w)" "length (ip_port sv) \<le> 21"
    "0 < next_conn_id sv" "next_conn_id sv < 2 ^ 31" "pool_inv (srv_pool sv)"
    "fresh_conn w \<le> c \<Longrightarrow> conns w c = None"
  using assms unfolding server_ok_def by blast+

lemma named_conns_evolves:
  assumes "evolves w w'" and "named_conns sv (conns w)"
  shows "named_conns sv (conns w')"
proof -
  have "\<exists>i. made_by sv i cn'" if "conns w' c = Some cn'" for c cn'
    using evolves_conn_back [OF assms(1) that] assms(2) made_by_same
    by (auto simp: named_conns_def)
  moreover have "c = d" if "conns w' c = Some cn" "conns w' d = Some dn" "tc_name cn = tc_name dn"
    for c d cn dn
    using evolves_conn_back [OF assms(1) that(1)] evolves_conn_back [OF assms(1) that(2)] that(3) assms(2)
    unfolding named_conns_def same_conn_def by metis
  ultimately show ?thesis by (auto simp: named_conns_def)
qed

lemma table_ok_evolves:
  assumes "evolves w w'" and "table_ok sv (conns w)"
  shows "table_ok sv (conns w')"
proof -
  have "\<exists>cn'. conns w' c = Some cn' \<and> tc_name cn' = n" if "conns w c = Some cn" "tc_name cn = n" for n c cn
    using evolves_conn [OF assms(1) that(1)] that(2) by (auto simp: same_conn_def)
  then show ?thesis using assms(2) by (fastforce simp: table_ok_def)
qed

lemma server_ok_evolves:
  "evolves w w' \<Longrightarrow> server_ok sv w \<Longrightarrow> server_ok sv w'"
  using evolves_world(4) [of w w'] evolves_dom [of w w']
  by (simp add: server_ok_def named_conns_evolves table_ok_evolves)

lemma server_inv_evolves: "evolves w w' \<Longrightarrow> server_inv w \<Longrightarrow> server_inv w'"
  using evolves_world(1) [of w w'] server_ok_evolves by (fastforce simp: server_inv_def)

lemma server_ok_fields:
  "server_ok (sv\<lparr>srv_acceptor := ac\<rparr>) w = server_ok sv w"
  "server_ok (sv\<lparr>srv_started := n\<rparr>) w = server_ok sv w"
  by (simp_all add: server_ok_def named_conns_def made_by_def table_ok_def conn_name_of_def)

lemma server_ok_world [simp]:
  "server_ok sv (w\<lparr>server := so\<rparr>) = server_ok sv w"
  "server_ok sv (w\<lparr>kern := k\<rparr>) = server_ok sv w"
  by (simp_all add: server_ok_def)

lemma table_map_of:
  assumes "table_ok sv cs" and "named_conns sv cs" and "cs c = Some cn"
  shows "(\<exists>n. (n, c) \<in> set (connections sv)) \<longleftrightarrow> map_of (connections sv) (tc_name cn) = Some c"
proof
  assume "\<exists>n. (n, c) \<in> set (connections sv)"
  then have "(tc_name cn, c) \<in> set (connections sv)"
    using assms by (fastforce simp: table_ok_def)
  then show "map_of (connections sv) (tc_name cn) = Some c"
    using assms(1) by (simp add: table_ok_def)
qed (blast dest: map_of_SomeD)

text \<open>A server that has just been constructed satisfies it.\<close>

lemma TcpServer_new_inv:
  assumes "TcpServer_new os (Some l) addr name opt w = Inr w'" and "\<And>c. conns w c = None"
  shows "server_inv w'"
  using assms
  by (auto simp: TcpServer_new_def CheckLoopNotNull_def res_iff server_inv_def server_ok_def
      named_conns_def table_ok_def pool_inv_def ThreadPool_new_def dest: getIpAndPort_length)

section \<open>Accepting and removing\<close>

definition accepted_conn ::
  "'k world \<Rightarrow> tcp_server \<Rightarrow> nat \<Rightarrow> event_loop_thread thread_pool \<Rightarrow> int \<Rightarrow> tcp_connection \<Rightarrow> bool" where
  "accepted_conn w sv io p fd cn \<longleftrightarrow> tc_name cn = conn_name_of sv (next_conn_id sv) \<and> tc_loop cn = io
     \<and> tc_sockfd cn = fd \<and> close_callback cn = Some kRemoveConnection
     \<and> conn_callback cn = srv_conn_callback sv \<and> msg_callback cn = srv_msg_callback sv
     \<and> write_complete_callback cn = srv_write_complete_callback sv \<and> tc_state cn = kConnecting"

lemma update_new_key: "k \<notin> fst ` set al \<Longrightarrow> AList.update k v al = al @ [(k, v)]"
  by (induction al) auto

lemma name_unused:
  assumes "server_ok sv w"
  shows "conn_name_of sv (next_conn_id sv) \<notin> fst ` set (connections sv)"
    and "conns w c = Some cn \<Longrightarrow> tc_name cn \<noteq> conn_name_of sv (next_conn_id sv)"
proof -
  show u: "conns w c = Some cn \<Longrightarrow> tc_name cn \<noteq> conn_name_of sv (next_conn_id sv)" for c cn
  proof -
    assume "conns w c = Some cn"
    then obtain i where "made_by sv i cn"
      using named_connsD(1) [OF server_okD(1) [OF assms]] by blast
    then show ?thesis
      using conn_name_inject [of sv i "next_conn_id sv"] server_okD(3-5) [OF assms]
      by (simp add: made_by_def)
  qed
  show "conn_name_of sv (next_conn_id sv) \<notin> fst ` set (connections sv)"
  proof
    assume "conn_name_of sv (next_conn_id sv) \<in> fst ` set (connections sv)"
    then obtain c where "(conn_name_of sv (next_conn_id sv), c) \<in> set (connections sv)" by force
    then show False using assms u by (fastforce simp: server_ok_def table_ok_def)
  qed
qed

text \<open>A new connection object: its channel, its buffers, and what the constructor asks of the system.\<close>

lemma TcpConnection_new_result:
  "\<exists>cn b. TcpConnection_new os A c (Some l) name fd la pa k = Inr (setKeepAlive os fd True k, cn)
     \<and> buffer_new A kInitialSize = Inr b \<and> input_buffer cn = b \<and> output_buffer cn = b
     \<and> tc_loop cn = l \<and> tc_name cn = name \<and> tc_sockfd cn = fd \<and> tc_state cn = kConnecting
     \<and> tc_channel cn = setErrorCallback (HConnError c) (setCloseCallback (HConnClose c)
         (setWriteCallback (HConnWrite c) (setReadCallback (HConnRead c) (Channel_new l fd))))"
proof -
  have "kInitialSize \<le> vec_max" by (simp add: kInitialSize_def vec_max_def)
  then obtain b where "buffer_new A kInitialSize = Inr b" using buffer_new_inv by blast
  then show ?thesis by (simp add: TcpConnection_new_def CheckLoopNotNull_def Let_def)
qed

lemma newConnection_run:
  assumes "server w = Some sv" and "server_ok sv w"
  shows "newConnection os A app fd pa w = Inl SignedOverflow \<or>
    (\<exists>io p cn0 cn la k w1. getNextLoop (srv_pool sv) = Inr (io, p) \<and> next_conn_id sv \<noteq> 2 ^ 31 - 1
    \<and> k = setKeepAlive os fd True (snd (sys_getsockname os fd (kern w)))
    \<and> TcpConnection_new os A (fresh_conn w) (Some io) (conn_name_of sv (next_conn_id sv)) fd la pa
        (snd (sys_getsockname os fd (kern w))) = Inr (k, cn0)
    \<and> cn = conn_setCloseCallback (Some kRemoveConnection)
      (setWriteCompleteCallback (srv_write_complete_callback sv)
      (setMessageCallback (srv_msg_callback sv) (setConnectionCallback (srv_conn_callback sv) cn0)))
    \<and> w1 = w\<lparr>kern := k, conns := (conns w)(fresh_conn w := Some cn), fresh_conn := fresh_conn w + 1,
        server := Some (sv\<lparr>srv_pool := p, next_conn_id := next_conn_id sv + 1,
          connections := connections sv @ [(conn_name_of sv (next_conn_id sv), fresh_conn w)]\<rparr>)\<rparr>
    \<and> newConnection os A app fd pa w = runLoopCallback (cur_tid w1) (loops w1 io)
        (\<lambda>_. connEstablish os A app (fresh_conn w)) (net_push os io) (FConnEstablish (fresh_conn w)) w1)"
proof (cases "next_conn_id sv = 2 ^ 31 - 1")
  case True
  obtain io p where "getNextLoop (srv_pool sv) = Inr (io, p)"
    using getNextLoop_inv [OF server_okD(6) [OF assms(2)]] by blast
  then show ?thesis using assms(1) True by (simp add: newConnection_def with_server_def)
next
  case id: False
  let ?name = "conn_name_of sv (next_conn_id sv)"
  have old: "map_of (connections sv) ?name = None"
    using name_unused(1) [OF assms(2)] by (simp add: map_of_eq_None_iff)
  obtain io p where np: "getNextLoop (srv_pool sv) = Inr (io, p)"
    using getNextLoop_inv [OF server_okD(6) [OF assms(2)]] by blast
  obtain r k0 where gs: "sys_getsockname os fd (kern w) = (r, k0)" by fastforce
  let ?la = "case r of Inl _ \<Rightarrow> zero_sockaddr | Inr a \<Rightarrow> a"
  obtain cn0 where new: "TcpConnection_new os A (fresh_conn w) (Some io) ?name fd ?la pa k0
      = Inr (setKeepAlive os fd True k0, cn0)"
    using TcpConnection_new_result [of os A "fresh_conn w" io ?name fd ?la pa k0] by blast
  define cn where "cn = conn_setCloseCallback (Some kRemoveConnection)
      (setWriteCompleteCallback (srv_write_complete_callback sv)
      (setMessageCallback (srv_msg_callback sv) (setConnectionCallback (srv_conn_callback sv) cn0)))"
  define w1 where "w1 = w\<lparr>kern := setKeepAlive os fd True k0, conns := (conns w)(fresh_conn w := Some cn),
      fresh_conn := fresh_conn w + 1,
      server := Some (sv\<lparr>srv_pool := p, next_conn_id := next_conn_id sv + 1,
          connections := connections sv @ [(?name, fresh_conn w)]\<rparr>)\<rparr>"
  have sel: "\<And>a b. connections (sv\<lparr>srv_pool := a, next_conn_id := b\<rparr>) = connections sv"
      "\<And>a b t. srv_conn_callback (sv\<lparr>srv_pool := a, next_conn_id := b, connections := t\<rparr>) = srv_conn_callback sv"
      "\<And>a b t. srv_msg_callback (sv\<lparr>srv_pool := a, next_conn_id := b, connections := t\<rparr>) = srv_msg_callback sv"
      "\<And>a b t. srv_write_complete_callback (sv\<lparr>srv_pool := a, next_conn_id := b, connections := t\<rparr>)
        = srv_write_complete_callback sv"
    by simp_all
  have run: "newConnection os A app fd pa w = runLoopCallback (cur_tid w1) (loops w1 io)
      (\<lambda>_. connEstablish os A app (fresh_conn w)) (net_push os io) (FConnEstablish (fresh_conn w)) w1"
    by (simp only: newConnection_def with_server_def assms(1) option.case np bind_res_simps prod.case
        id if_False Let_def gs new sel old update_new_key [OF name_unused(1) [OF assms(2)]]
        w1_def cn_def)
  have k: "snd (sys_getsockname os fd (kern w)) = k0" by (simp add: gs)
  show ?thesis
    apply (rule disjI2, rule exI [of _ io], rule exI [of _ p], rule exI [of _ cn0], rule exI [of _ cn],
        rule exI [of _ ?la], rule exI [of _ "setKeepAlive os fd True k0"], rule exI [of _ w1])
    unfolding k using np id new run cn_def w1_def by blast
qed

lemma newConnection_steps:
  assumes "newConnection os A app fd pa w = Inr w'" and "server w = Some sv" and "server_ok sv w"
  shows "\<exists>io p cn k w1. getNextLoop (srv_pool sv) = Inr (io, p) \<and> next_conn_id sv \<noteq> 2 ^ 31 - 1
    \<and> accepted_conn w sv io p fd cn
    \<and> w1 = w\<lparr>kern := k, conns := (conns w)(fresh_conn w := Some cn), fresh_conn := fresh_conn w + 1,
        server := Some (sv\<lparr>srv_pool := p, next_conn_id := next_conn_id sv + 1,
          connections := connections sv @ [(conn_name_of sv (next_conn_id sv), fresh_conn w)]\<rparr>)\<rparr>
    \<and> runLoopCallback (cur_tid w1) (loops w1 io) (\<lambda>_. connEstablish os A app (fresh_conn w))
          (net_push os io) (FConnEstablish (fresh_conn w)) w1 = Inr w'"
proof -
  obtain io p cn0 cn la k w1 where np: "getNextLoop (srv_pool sv) = Inr (io, p)"
      and id: "next_conn_id sv \<noteq> 2 ^ 31 - 1"
      and new: "TcpConnection_new os A (fresh_conn w) (Some io) (conn_name_of sv (next_conn_id sv)) fd la pa
        (snd (sys_getsockname os fd (kern w))) = Inr (k, cn0)"
      and cn: "cn = conn_setCloseCallback (Some kRemoveConnection)
      (setWriteCompleteCallback (srv_write_complete_callback sv)
      (setMessageCallback (srv_msg_callback sv) (setConnectionCallback (srv_conn_callback sv) cn0)))"
      and w1: "w1 = w\<lparr>kern := k, conns := (conns w)(fresh_conn w := Some cn), fresh_conn := fresh_conn w + 1,
        server := Some (sv\<lparr>srv_pool := p, next_conn_id := next_conn_id sv + 1,
          connections := connections sv @ [(conn_name_of sv (next_conn_id sv), fresh_conn w)]\<rparr>)\<rparr>"
      and run: "newConnection os A app fd pa w = runLoopCallback (cur_tid w1) (loops w1 io)
        (\<lambda>_. connEstablish os A app (fresh_conn w)) (net_push os io) (FConnEstablish (fresh_conn w)) w1"
    using newConnection_run [OF assms(2,3), of os A app fd pa] assms(1) by auto
  have "accepted_conn w sv io p fd cn"
    using TcpConnection_new_ok [OF new]
    by (simp add: accepted_conn_def cn conn_setCloseCallback_def setWriteCompleteCallback_def
        setMessageCallback_def setConnectionCallback_def)
  then show ?thesis
    apply (intro exI [of _ io] exI [of _ p] exI [of _ cn] exI [of _ k] exI [of _ w1])
    using np id w1 run assms(1) by simp
qed

lemma server_ok_insert:
  assumes "server_ok sv w" and "next_conn_id sv \<noteq> 2 ^ 31 - 1" and "pool_inv p"
    and "tc_name cn = conn_name_of sv (next_conn_id sv)"
    and "sv' = sv\<lparr>srv_pool := p, next_conn_id := next_conn_id sv + 1,
          connections := connections sv @ [(conn_name_of sv (next_conn_id sv), fresh_conn w)]\<rparr>"
    and "conns w1 = (conns w)(fresh_conn w := Some cn)" and "fresh_conn w1 = fresh_conn w + 1"
  shows "server_ok sv' w1"
proof -
  have fresh: "conns w (fresh_conn w) = None"
    using assms(1) by (simp add: server_ok_def)
  have "named_conns sv' (conns w1)"
    unfolding named_conns_def assms(6)
  proof (intro conjI allI impI)
    fix c cn' assume "((conns w)(fresh_conn w := Some cn)) c = Some cn'"
    then have "cn' = cn \<or> conns w c = Some cn'"
      by (simp split: if_split_asm)
    then consider "cn' = cn" | "conns w c = Some cn'" by blast
    then show "\<exists>i. made_by sv' i cn'"
    proof cases
      case 1
      then have "made_by sv' (next_conn_id sv) cn'"
        using assms(4) server_okD(4) [OF assms(1)] by (simp add: made_by_def assms(5) conn_name_of_def)
      then show ?thesis by blast
    next
      case 2
      then obtain i where "made_by sv i cn'"
        using named_connsD(1) [OF server_okD(1) [OF assms(1)]] by blast
      then have "made_by sv' i cn'" by (simp add: made_by_def assms(5) conn_name_of_def)
      then show ?thesis by blast
    qed
  next
    fix c d cn1 dn
    assume "((conns w)(fresh_conn w := Some cn)) c = Some cn1 \<and>
        ((conns w)(fresh_conn w := Some cn)) d = Some dn \<and> tc_name cn1 = tc_name dn"
    then show "c = d"
      using assms(4) name_unused(2) [OF assms(1)] named_connsD(2) [OF server_okD(1) [OF assms(1)]]
      by (metis fun_upd_apply option.inject)
  qed
  moreover have "table_ok sv' (conns w1)"
    unfolding table_ok_def
  proof (intro conjI ballI)
    show "distinct (map fst (connections sv'))"
      using name_unused(1) [OF assms(1)] server_okD(2) [OF assms(1)] by (simp add: assms(5) table_ok_def)
  next
    fix e assume "e \<in> set (connections sv')"
    then consider "e = (conn_name_of sv (next_conn_id sv), fresh_conn w)" | "e \<in> set (connections sv)"
      by (auto simp: assms(5))
    then show "case e of (n, c) \<Rightarrow> \<exists>cn. conns w1 c = Some cn \<and> tc_name cn = n"
    proof cases
      case 2
      then have "case e of (n, c) \<Rightarrow> \<exists>cn. conns w c = Some cn \<and> tc_name cn = n"
        using server_okD(2) [OF assms(1)] by (auto simp: table_ok_def)
      then show ?thesis using fresh by (auto simp: assms(6))
    qed (use assms(4) in \<open>simp add: assms(6)\<close>)
  qed
  ultimately show ?thesis
    using server_okD [OF assms(1)] assms(2,3,7) by (simp add: server_ok_def assms(5,6))
qed

lemma getNextLoop_pool_inv: "getNextLoop p = Inr (l, p') \<Longrightarrow> pool_inv p \<Longrightarrow> pool_inv p'"
  using getNextLoop_inv [of p] by auto

lemma newConnection_result:
  assumes "newConnection os A app fd pa w = Inr w'" and "server w = Some sv" and "server_ok sv w"
  shows "\<exists>io p cn w1. getNextLoop (srv_pool sv) = Inr (io, p) \<and> accepted_conn w sv io p fd cn
    \<and> conns w1 = (conns w)(fresh_conn w := Some cn) \<and> evolves w1 w'
    \<and> loops w1 = loops w \<and> cur_tid w1 = cur_tid w
    \<and> fresh_conn w' = fresh_conn w + 1
    \<and> server w' = Some (sv\<lparr>srv_pool := p, next_conn_id := next_conn_id sv + 1,
          connections := connections sv @ [(conn_name_of sv (next_conn_id sv), fresh_conn w)]\<rparr>)
    \<and> server_inv w'
    \<and> runLoopCallback (cur_tid w1) (loops w1 io) (\<lambda>_. connEstablish os A app (fresh_conn w))
          (net_push os io) (FConnEstablish (fresh_conn w)) w1 = Inr w'"
proof -
  let ?sv = "\<lambda>p. sv\<lparr>srv_pool := p, next_conn_id := next_conn_id sv + 1,
      connections := connections sv @ [(conn_name_of sv (next_conn_id sv), fresh_conn w)]\<rparr>"
  obtain io p cn k w1 where np: "getNextLoop (srv_pool sv) = Inr (io, p)"
    and id: "next_conn_id sv \<noteq> 2 ^ 31 - 1" and acc: "accepted_conn w sv io p fd cn"
    and w1: "w1 = w\<lparr>kern := k, conns := (conns w)(fresh_conn w := Some cn), fresh_conn := fresh_conn w + 1,
        server := Some (?sv p)\<rparr>"
    and run: "runLoopCallback (cur_tid w1) (loops w1 io) (\<lambda>_. connEstablish os A app (fresh_conn w))
          (net_push os io) (FConnEstablish (fresh_conn w)) w1 = Inr w'"
    using newConnection_steps [OF assms] by blast
  have f: "conns w1 = (conns w)(fresh_conn w := Some cn)" "fresh_conn w1 = fresh_conn w + 1"
      "server w1 = Some (?sv p)" "loops w1 = loops w" "cur_tid w1 = cur_tid w"
    by (simp_all add: w1)
  have ev: "evolves w1 w'"
    by (rule runLoopCallback_evolves [OF run]) (auto intro: connEstablish_evolves net_push_evolves)
  have "server_ok (?sv p) w1"
    using server_ok_insert [OF assms(3) id getNextLoop_pool_inv [OF np] _ refl f(1,2)]
      server_okD(6) [OF assms(3)] acc by (simp add: accepted_conn_def)
  then have "server_ok (?sv p) w'" by (rule server_ok_evolves [OF ev])
  moreover have "server w' = Some (?sv p)" "fresh_conn w' = fresh_conn w + 1"
    using evolves_world(1,4) [OF ev] f by simp_all
  ultimately have "server_inv w'" by (simp only: server_inv_def) blast
  show ?thesis
    apply (rule exI [of _ io], rule exI [of _ p], rule exI [of _ cn], rule exI [of _ w1])
    using np acc f ev run \<open>server w' = Some (?sv p)\<close> \<open>fresh_conn w' = fresh_conn w + 1\<close> \<open>server_inv w'\<close>
    by blast
qed

lemma server_ok_delete:
  assumes "server_ok sv w"
  shows "server_ok (sv\<lparr>connections := AList.delete n (connections sv)\<rparr>) w"
proof -
  have "table_ok (sv\<lparr>connections := AList.delete n (connections sv)\<rparr>) (conns w)"
    using server_okD(2) [OF assms]
    by (auto simp: table_ok_def AList.delete_eq distinct_map_filter split_beta)
  then show ?thesis
    using assms by (simp add: server_ok_def named_conns_def made_by_def conn_name_of_def)
qed

lemma delete_removes:
  assumes "server_ok sv w" and "conns w c = Some cn"
  shows "map snd (AList.delete (tc_name cn) (connections sv)) = [d \<leftarrow> map snd (connections sv). d \<noteq> c]"
proof -
  have "n = tc_name cn \<longleftrightarrow> d = c" if "(n, d) \<in> set (connections sv)" for n d
    using that server_okD(2) [OF assms(1)] named_connsD(2) [OF server_okD(1) [OF assms(1)]] assms(2)
    by (fastforce simp: table_ok_def)
  then have "[p \<leftarrow> connections sv. fst p \<noteq> tc_name cn] = [p \<leftarrow> connections sv. snd p \<noteq> c]"
    by (intro filter_cong) auto
  moreover have "AList.delete (tc_name cn) (connections sv) = [p \<leftarrow> connections sv. fst p \<noteq> tc_name cn]"
    unfolding AList.delete_eq by (intro filter_cong) auto
  ultimately show ?thesis
    by (simp add: filter_map comp_def)
qed

lemma removeConnectionInLoop_result:
  assumes "removeConnectionInLoop os c w = Inr w'" and "server w = Some sv" and "server_ok sv w"
  shows "\<exists>cn sv' w1. conns w c = Some cn \<and> server w' = Some sv' \<and> server_inv w'
    \<and> map snd (connections sv') = [d \<leftarrow> map snd (connections sv). d \<noteq> c]
    \<and> evolves w1 w' \<and> conns w1 = conns w \<and> fresh_conn w' = fresh_conn w
    \<and> pending (loops w' (tc_loop cn)) = pending (loops w (tc_loop cn)) @ [FConnDestory c]"
proof -
  obtain cn where cn: "conns w c = Some cn"
    using assms(1,2) by (auto simp: removeConnectionInLoop_def with_server_def split: option.splits)
  let ?sv = "sv\<lparr>connections := AList.delete (tc_name cn) (connections sv)\<rparr>"
  let ?w1 = "w\<lparr>server := Some ?sv\<rparr>"
  have w': "w' = net_push os (tc_loop cn) (FConnDestory c) ?w1"
    using assms(1,2) cn by (simp add: removeConnectionInLoop_def with_server_def)
  have ev: "evolves ?w1 w'" unfolding w' by (rule net_push_evolves)
  have "server_ok ?sv ?w1" using server_ok_delete [OF assms(3)] by simp
  then have ok: "server_ok ?sv w'" by (rule server_ok_evolves [OF ev])
  have sv': "server w' = Some ?sv" "fresh_conn w' = fresh_conn w"
    using evolves_world(1,4) [OF ev] by simp_all
  have "pending (loops w' (tc_loop cn)) = pending (loops w (tc_loop cn)) @ [FConnDestory c]"
    using pushLoopCallback_loop [of os "cur_tid w" "FConnDestory c" "kern w" "loops w (tc_loop cn)"]
    by (auto simp: w' net_push_def on_loop_def split: prod.splits)
  then show ?thesis
    using cn ev ok sv' delete_removes [OF assms(3) cn]
    by (intro exI [of _ cn] exI [of _ ?sv] exI [of _ ?w1]) (auto simp: server_inv_def)
qed

section \<open>Histories\<close>

text \<open>What the acceptor and the close callbacks make the server do.\<close>

datatype server_step = Accepted int sockaddr_in | Closed nat

fun server_do :: "'k os \<Rightarrow> alloc \<Rightarrow> 'k world app \<Rightarrow> server_step \<Rightarrow> 'k world \<Rightarrow> 'k world res" where
  "server_do os A app (Accepted fd pa) w = newConnection os A app fd pa w"
| "server_do os A app (Closed c) w = removeConnectionInLoop os c w"

definition live_conns :: "'k world \<Rightarrow> nat list" where
  "live_conns w = (case server w of None \<Rightarrow> [] | Some sv \<Rightarrow> map snd (connections sv))"

lemma server_run:
  assumes "fold_res (server_do os A app) ss w = Inr w'" and "server_inv w"
  shows "server_inv w' \<and> fresh_conn w \<le> fresh_conn w'
    \<and> (\<forall>c. Closed c \<in> set ss \<longrightarrow> c < fresh_conn w')
    \<and> live_conns w' = [c \<leftarrow> live_conns w @ [fresh_conn w ..< fresh_conn w']. Closed c \<notin> set ss]"
  using assms
proof (induction ss arbitrary: w' rule: rev_induct)
  case (snoc s ss)
  then obtain w1 where w1: "fold_res (server_do os A app) ss w = Inr w1"
    and s: "server_do os A app s w1 = Inr w'"
    by (auto simp: fold_res_append res_iff)
  note IH = snoc.IH [OF w1 snoc.prems(2)]
  obtain sv where sv: "server w1 = Some sv" "server_ok sv w1"
    using IH by (auto simp: server_inv_def)
  have l1: "live_conns w1 = map snd (connections sv)" using sv by (simp add: live_conns_def)
  show ?case
  proof (cases s)
    case (Accepted fd pa)
    then have "newConnection os A app fd pa w1 = Inr w'" using s by simp
    then have "live_conns w' = live_conns w1 @ [fresh_conn w1]" "fresh_conn w' = fresh_conn w1 + 1"
        "server_inv w'"
      using newConnection_result [OF _ sv, of os A app fd pa w'] l1 by (auto simp: live_conns_def)
    moreover have "Closed (fresh_conn w1) \<notin> set ss" using IH by blast
    ultimately show ?thesis using IH Accepted by auto
  next
    case (Closed c)
    then have "removeConnectionInLoop os c w1 = Inr w'" using s by simp
    then obtain cn sv' where r: "conns w1 c = Some cn" "server w' = Some sv'" "server_inv w'"
        "map snd (connections sv') = [d \<leftarrow> map snd (connections sv). d \<noteq> c]"
        "fresh_conn w' = fresh_conn w1"
      using removeConnectionInLoop_result [OF _ sv] by blast
    have "c < fresh_conn w1"
      using server_okD(7) [OF sv(2), of c] r(1) by (metis linorder_not_le option.distinct(1))
    moreover have "live_conns w' = [d \<leftarrow> live_conns w1. d \<noteq> c]"
      using r(2,4) l1 by (simp add: live_conns_def)
    ultimately show ?thesis
      using IH r(3,5) Closed by (auto simp: conj_commute intro!: filter_cong)
  qed
qed simp

section \<open>Starting\<close>

lemma EventLoop_new_thread:
  "EventLoop_new os getenv self t (k, ts) = Inr (k', ts', lp) \<Longrightarrow>
     thread_id lp = t \<and> pending lp = [] \<and> ts t = None \<and> ts' = ts(t \<mapsto> self)"
  by (auto simp: EventLoop_new_def res_iff Let_def interest_defs loop_updateChannel_def
      split: if_split_asm option.splits)

lemma spawn_loop_result:
  fixes w w' :: "'k world"
  assumes "spawn_loop os A getenv app cb name w = Inr (l, t, w')"
  shows "l = fresh_loop w \<and> fresh_loop w' = fresh_loop w + 1 \<and> fresh_tid w' = fresh_tid w + 1
    \<and> server w' = server w \<and> cur_tid w' = cur_tid w \<and> thread_id (loops w' l) = fresh_tid w
    \<and> (\<forall>l'. l' \<noteq> l \<longrightarrow> loop_grows (loops w l') (loops w' l'))"
proof -
  obtain t0 wn where n: "EventLoopThread_new cb name w = (t0, wn)" by fastforce
  define w0 where "w0 = wn\<lparr>cur_tid := fresh_tid wn, fresh_tid := fresh_tid wn + 1\<rparr>"
  have wn: "cur_tid wn = cur_tid w" "elt_init_callback t0 = cb"
    and w0: "loops w0 = loops w" "fresh_loop w0 = fresh_loop w" "fresh_tid w0 = fresh_tid w + 1"
      "server w0 = server w" "cur_tid w0 = fresh_tid w"
    using n by (auto simp: w0_def EventLoopThread_new_def split: prod.splits)
  obtain w2 where pro: "threadFunc_prologue os A getenv app cb w0 = Inr (l, w2)"
    and w': "w' = w2\<lparr>cur_tid := cur_tid w\<rparr>"
    using assms wn by (auto simp: spawn_loop_def startLoop_def n res_iff Let_def w0_def)
  obtain k ts lp where lp: "EventLoop_new os getenv (fresh_loop w) (fresh_tid w) (kern w0, tls w0)
      = Inr (k, ts, lp)"
    using pro w0 by (auto simp: threadFunc_prologue_def res_iff Let_def)
  define w1 where "w1 = w0\<lparr>kern := k, tls := ts, loops := (loops w)(fresh_loop w := lp),
      fresh_loop := fresh_loop w + 1\<rparr>"
  have "bind_res (case cb of None \<Rightarrow> Inr w1 | Some i \<Rightarrow> call_init os A app i (fresh_loop w) w1)
      (\<lambda>w. Inr (fresh_loop w0, w)) = Inr (l, w2)"
    using pro unfolding threadFunc_prologue_def Let_def w0 lp bind_res_simps prod.case w1_def
    by simp
  then have call: "(case cb of None \<Rightarrow> Inr w1 | Some i \<Rightarrow> call_init os A app i (fresh_loop w) w1) = Inr w2"
    and l: "l = fresh_loop w"
    by (auto simp: res_iff w0)
  have ev: "evolves w1 w2"
    using call by (auto simp: call_init_def split: option.splits intro: noted_actions_evolve)
  have g: "loop_grows (loops w1 i) (loops w2 i)" for i
    using evolves_loops [OF ev] by (simp add: loops_grow_def)
  have "thread_id (loops w2 l) = fresh_tid w"
    using g [of l] EventLoop_new_thread [OF lp] by (simp add: w1_def l loop_grows_def)
  moreover have "loop_grows (loops w l') (loops w2 l')" if "l' \<noteq> l" for l'
    using g [of l'] that by (simp add: w1_def l)
  moreover have "fresh_loop w2 = fresh_loop w + 1" "fresh_tid w2 = fresh_tid w + 1" "server w2 = server w"
    using evolves_world(1,5,6) [OF ev] w0 by (simp_all add: w1_def)
  ultimately show ?thesis using l by (simp add: w')
qed

lemma pool_fold_result:
  fixes w w' :: "'k world"
  assumes "fold_res (pool_add (spawn_loop os A getenv app cb)) is (p, w) = Inr (p', w')"
  shows "pool_loops p' = pool_loops p @ [fresh_loop w ..< fresh_loop w + length is]
    \<and> fresh_loop w' = fresh_loop w + length is \<and> server w' = server w \<and> cur_tid w' = cur_tid w
    \<and> (\<forall>i < length is. thread_id (loops w' (fresh_loop w + i)) = fresh_tid w + int i)
    \<and> (\<forall>l < fresh_loop w. loop_grows (loops w l) (loops w' l))"
  using assms
proof (induction "is" arbitrary: p' w' rule: rev_induct)
  case (snoc i "is")
  then obtain p1 w1 where f: "fold_res (pool_add (spawn_loop os A getenv app cb)) is (p, w) = Inr (p1, w1)"
    and s: "pool_add (spawn_loop os A getenv app cb) i (p1, w1) = Inr (p', w')"
    by (auto simp: fold_res_append res_iff)
  obtain l t where l: "spawn_loop os A getenv app cb (pool_thread_name (pool_name p1) i) w1 = Inr (l, t, w')"
    and p': "pool_loops p' = pool_loops p1 @ [l]"
    using s by (auto simp: pool_add_def Let_def res_iff)
  note IH = snoc.IH [OF f] and L = spawn_loop_result [OF l]
  have tid: "fresh_tid w1 = fresh_tid w + int (length is)"
    using f
  proof (induction "is" arbitrary: p1 w1 rule: rev_induct)
    case (snoc j js)
    then obtain p2 w2 where f2: "fold_res (pool_add (spawn_loop os A getenv app cb)) js (p, w) = Inr (p2, w2)"
      and s2: "pool_add (spawn_loop os A getenv app cb) j (p2, w2) = Inr (p1, w1)"
      by (auto simp: fold_res_append res_iff)
    then obtain l2 t2 where "spawn_loop os A getenv app cb (pool_thread_name (pool_name p2) j) w2 = Inr (l2, t2, w1)"
      by (auto simp: pool_add_def Let_def res_iff)
    then show ?case using spawn_loop_result snoc.IH [OF f2] by force
  qed simp
  have "thread_id (loops w' (fresh_loop w + j)) = fresh_tid w + int j" if "j < length (is @ [i])" for j
  proof (cases "j = length is")
    case True
    then show ?thesis using IH L tid by (metis)
  next
    case False
    then have "loop_grows (loops w1 (fresh_loop w + j)) (loops w' (fresh_loop w + j))"
      using IH L that by auto
    then show ?thesis using IH that False by (auto simp: loop_grows_def)
  qed
  moreover have "loop_grows (loops w l') (loops w' l')" if "l' < fresh_loop w" for l'
    using IH L that loop_grows_trans [of "loops w l'" "loops w1 l'"] by auto
  ultimately show ?case using IH L p' by simp
qed simp

lemma server_listen_result:
  assumes "server_listen os w = Inr w'" and "server w = Some sv"
  shows "\<exists>ac. server w' = Some (sv\<lparr>srv_acceptor := ac\<rparr>) \<and> listenning ac
    \<and> (\<forall>l. loop_grows (loops w l) (loops w' l)) \<and> cur_tid w' = cur_tid w"
  using assms server_listen_grows [OF assms(1)]
  by (auto simp: server_listen_def with_server_def res_iff Let_def acceptor_listen_def interest_defs
      loops_grow_def)

lemma run_listen_result:
  assumes run: "runLoopCallback (cur_tid w) (loops w l) (\<lambda>_. server_listen os) (net_push os l) FListen w = Inr w'"
    and sv: "server w = Some sv"
  shows "loop_grows (loops w l') (loops w' l')"
    and "isInLoopThread (cur_tid w) (loops w l) \<Longrightarrow> \<exists>ac. server w' = Some (sv\<lparr>srv_acceptor := ac\<rparr>) \<and> listenning ac"
    and "\<not> isInLoopThread (cur_tid w) (loops w l) \<Longrightarrow> server w' = Some sv \<and> FListen \<in> set (pending (loops w' l))"
proof -
  show "loop_grows (loops w l') (loops w' l')"
    using run net_push_grows [of w os l FListen] server_listen_grows [of os w w']
    by (auto simp: runLoopCallback_def loops_grow_def split: if_split_asm)
  show "\<exists>ac. server w' = Some (sv\<lparr>srv_acceptor := ac\<rparr>) \<and> listenning ac" if "isInLoopThread (cur_tid w) (loops w l)"
    using server_listen_result [OF _ sv, of os w'] run that by (auto simp: runLoopCallback_def)
  assume "\<not> isInLoopThread (cur_tid w) (loops w l)"
  then have w': "w' = net_push os l FListen w" using run by (simp add: runLoopCallback_def)
  have "FListen \<in> set (pending (loops w' l))"
    using pushLoopCallback_loop [of os "cur_tid w" FListen "kern w" "loops w l"]
    by (auto simp: w' net_push_def on_loop_def split: prod.splits)
  then show "server w' = Some sv \<and> FListen \<in> set (pending (loops w' l))"
    using evolves_world(1) [OF net_push_evolves, of os l FListen w] sv by (simp add: w')
qed

text \<open>What the first \<open>start\<close> does: it fills the pool, and listens or asks the base loop to.\<close>

lemma server_start_parts:
  assumes "server_start os A getenv app w = Inr w'" and "server w = Some sv" and "srv_started sv = 0"
  obtains p w1 w2 where "fold_res (pool_add (spawn_loop os A getenv app (thread_init_callback sv)))
      [0 ..< nat (thread_num (srv_pool sv))]
      ((srv_pool sv)\<lparr>pool_started := True\<rparr>, w\<lparr>server := Some (sv\<lparr>srv_started := 1\<rparr>)\<rparr>) = Inr (p, w1)"
    and "w2 = w1 \<or> (\<exists>cb l. call_init os A app cb l w1 = Inr w2)"
    and "runLoopCallback (cur_tid w2) (loops w2 (srv_loop sv)) (\<lambda>_. server_listen os) (net_push os (srv_loop sv)) FListen
      (w2\<lparr>server := map_option (\<lambda>sv. sv\<lparr>srv_pool := p\<rparr>) (server w2)\<rparr>) = Inr w'"
proof -
  obtain p w2 where st: "pool_start (spawn_loop os A getenv app (thread_init_callback sv))
      (map_option (call_init os A app) (thread_init_callback sv))
      (srv_pool sv, w\<lparr>server := Some (sv\<lparr>srv_started := 1\<rparr>)\<rparr>) = Inr (p, w2)"
    and rest: "runLoopCallback (cur_tid w2) (loops w2 (srv_loop sv)) (\<lambda>_. server_listen os) (net_push os (srv_loop sv)) FListen
      (w2\<lparr>server := map_option (\<lambda>sv. sv\<lparr>srv_pool := p\<rparr>) (server w2)\<rparr>) = Inr w'"
    using assms by (auto simp: server_start_def with_server_def Let_def res_iff)
  obtain w1 where "fold_res (pool_add (spawn_loop os A getenv app (thread_init_callback sv)))
      [0 ..< nat (thread_num (srv_pool sv))]
      ((srv_pool sv)\<lparr>pool_started := True\<rparr>, w\<lparr>server := Some (sv\<lparr>srv_started := 1\<rparr>)\<rparr>) = Inr (p, w1)"
    and "w2 = w1 \<or> (\<exists>cb l. call_init os A app cb l w1 = Inr w2)"
    using st by (auto simp: pool_start_def res_iff split: if_split_asm option.splits)
  then show ?thesis using rest by (rule that)
qed

lemma server_start_first:
  assumes "server_start os A getenv app w = Inr w'" and "server w = Some sv" and "srv_started sv = 0"
    and "srv_pool sv = setPoolSize n (ThreadPool_new base name)" and "0 \<le> n"
    and "srv_loop sv < fresh_loop w" and "acc_loop (srv_acceptor sv) = srv_loop sv"
  shows "\<exists>sv'. server w' = Some sv' \<and> srv_started sv' = 1
    \<and> pool_loops (srv_pool sv') = [fresh_loop w ..< fresh_loop w + nat n]
    \<and> (\<forall>i < nat n. thread_id (loops w' (fresh_loop w + i)) = fresh_tid w + int i)
    \<and> (if thread_id (loops w (srv_loop sv)) = cur_tid w then listenning (srv_acceptor sv')
       else FListen \<in> set (pending (loops w' (srv_loop sv))))"
proof -
  let ?sv = "sv\<lparr>srv_started := 1\<rparr>" and ?l = "srv_loop sv"
  have pn: "thread_num (srv_pool sv) = n" "pool_loops (srv_pool sv) = []"
    using assms(4) by (simp_all add: setPoolSize_def ThreadPool_new_def)
  obtain p w1 w2 where f: "fold_res (pool_add (spawn_loop os A getenv app (thread_init_callback sv))) [0 ..< nat n]
      ((srv_pool sv)\<lparr>pool_started := True\<rparr>, w\<lparr>server := Some ?sv\<rparr>) = Inr (p, w1)"
    and i: "w2 = w1 \<or> (\<exists>cb l. call_init os A app cb l w1 = Inr w2)"
    and r: "runLoopCallback (cur_tid w2) (loops w2 ?l) (\<lambda>_. server_listen os) (net_push os ?l) FListen
      (w2\<lparr>server := map_option (\<lambda>sv. sv\<lparr>srv_pool := p\<rparr>) (server w2)\<rparr>) = Inr w'"
    by (rule server_start_parts [OF assms(1-3), unfolded pn(1)])
  note F = pool_fold_result [OF f, simplified]
  have ev: "evolves w1 w2" using i by (auto simp: call_init_def intro: noted_actions_evolve)
  have s2: "server w2 = Some ?sv" "cur_tid w2 = cur_tid w"
    using F evolves_world(1) [OF ev] evolves_loops [OF ev] by (simp_all add: loops_grow_def)
  have g2: "loop_grows (loops w1 l) (loops w2 l)" for l
    using evolves_loops [OF ev] by (simp add: loops_grow_def)
  define w3 where "w3 = w2\<lparr>server := Some (?sv\<lparr>srv_pool := p\<rparr>)\<rparr>"
  have w3: "server w3 = Some (?sv\<lparr>srv_pool := p\<rparr>)" "cur_tid w3 = cur_tid w2" "loops w3 = loops w2"
    by (simp_all add: w3_def)
  note R = run_listen_result [of w3 ?l os w', OF _ w3(1)]
  have run: "runLoopCallback (cur_tid w3) (loops w3 ?l) (\<lambda>_. server_listen os) (net_push os ?l) FListen w3 = Inr w'"
    using r s2 by (simp add: w3_def)
  have base: "thread_id (loops w3 ?l) = thread_id (loops w ?l)"
    using F g2 [of ?l] assms(6) by (auto simp: w3 loop_grows_def)
  have "thread_id (loops w' (fresh_loop w + i)) = fresh_tid w + int i" if "i < nat n" for i
    using F that g2 [of "fresh_loop w + i"] R(1) [OF run, of "fresh_loop w + i"] by (auto simp: loop_grows_def w3)
  moreover have "pool_loops p = [fresh_loop w ..< fresh_loop w + nat n]" using F pn by simp
  moreover have "isInLoopThread (cur_tid w3) (loops w3 ?l) \<longleftrightarrow> thread_id (loops w ?l) = cur_tid w"
    using base s2 w3 by (auto simp: isInLoopThread_def)
  ultimately show ?thesis using R(2,3) [OF run] by auto
qed

section \<open>A server for the witnesses\<close>

definition toy_server :: tcp_server where
  "toy_server = \<lparr>srv_loop = 0, ip_port = ''127.0.0.1:8002'', srv_name = ''Echo'',
     srv_acceptor = \<lparr>acc_loop = 0, accept_socket = 5,
       accept_channel = setReadCallback HAcceptRead (Channel_new 0 5),
       new_connection_callback = True, listenning = True\<rparr>,
     srv_pool = (ThreadPool_new 0 ''Echo'')\<lparr>pool_loops := [1], pool_started := True\<rparr>,
     srv_conn_callback = Some 1, srv_msg_callback = Some 2, srv_write_complete_callback = None,
     thread_init_callback = None, srv_started = 1, next_conn_id = 1, connections = []\<rparr>"

definition toy_world :: "toy world" where
  "toy_world = \<lparr>kern = toy_start, cur_tid = 1,
     loops = (\<lambda>l. if l = 0 then toy_loop else toy_loop\<lparr>thread_id := 2\<rparr>),
     conns = (\<lambda>_. None), strs = (\<lambda>_. None), trace = [], tls = [1 \<mapsto> 0, 2 \<mapsto> 1], thread_count = 1,
     fresh_conn = 0, fresh_loop = 2, fresh_tid = 3, server = Some toy_server\<rparr>"

definition idle_app :: "'w app" where
  "idle_app = \<lparr>on_connection = (\<lambda>_ _ _. []), on_message = (\<lambda>_ _ _ _. []),
     on_write_complete = (\<lambda>_ _ _. []), on_high_water = (\<lambda>_ _ _ _. []), on_user = (\<lambda>_ _. []),
     on_init = (\<lambda>_ _ _. [])\<rparr>"

lemma toy_server_ok: "server_ok toy_server toy_world"
  by (simp add: server_ok_def toy_server_def toy_world_def pool_inv_def ThreadPool_new_def
      named_conns_def table_ok_def)

lemma toy_server_inv: "server_inv toy_world"
  using toy_server_ok by (auto simp: server_inv_def toy_world_def)

lemma newConnection_other_loop:
  assumes "server w = Some sv" and "next_conn_id sv \<noteq> 2 ^ 31 - 1"
    and "getNextLoop (srv_pool sv) = Inr (io, p)"
    and "server_ok sv w" and "thread_id (loops w io) \<noteq> cur_tid w"
  shows "\<exists>w'. newConnection os libstdcxx app fd pa w = Inr w'"
proof -
  obtain b where b: "buffer_new libstdcxx kInitialSize = Inr b"
    using buffer_new_inv [of kInitialSize libstdcxx]
    by (auto simp: kInitialSize_def vec_max_def KCheapPrepend_def)
  have "map_of (connections sv) (conn_name_of sv (next_conn_id sv)) = None"
    using name_unused(1) [OF assms(4)] by (simp add: map_of_eq_None_iff)
  then show ?thesis
    using assms(1-3,5) b
    by (simp add: newConnection_def with_server_def TcpConnection_new_def CheckLoopNotNull_def Let_def
        runLoopCallback_def isInLoopThread_def split: prod.splits)
qed

lemma toy_run:
  "\<exists>w'. fold_res (server_do toy_os libstdcxx idle_app) [Accepted 7 zero_sockaddr, Closed 0] toy_world = Inr w'"
proof -
  have s: "server toy_world = Some toy_server" by (simp add: toy_world_def)
  have np: "getNextLoop (srv_pool toy_server) = Inr (1, srv_pool toy_server)"
    by (simp add: toy_server_def getNextLoop_def ThreadPool_new_def)
  obtain w1 where w1: "newConnection toy_os libstdcxx idle_app 7 zero_sockaddr toy_world = Inr w1"
    using newConnection_other_loop [OF s _ np toy_server_ok]
    by (fastforce simp: toy_server_def toy_world_def toy_loop_def)
  obtain cn v where "conns v = (conns toy_world)(fresh_conn toy_world := Some cn)" "evolves v w1"
      "server_inv w1"
    using newConnection_result [OF w1 s toy_server_ok] by blast
  moreover have "fresh_conn toy_world = 0" by (simp add: toy_world_def)
  ultimately obtain cn' where "conns w1 0 = Some cn'" "server_inv w1"
    using evolves_conn [of v w1 0 cn] by auto
  then show ?thesis
    using w1 by (auto simp: removeConnectionInLoop_def with_server_def server_inv_def)
qed

section \<open>Properties\<close>

text \<open>C15. Over any history of accepted and closed connections, the table of the server holds exactly
  the connections accepted so far and not closed, in the order of their acceptance, and no two
  connections, closed ones included, ever have the same name: accepting never overwrites an entry.\<close>

theorem connection_table_history:
  assumes "server_inv w" and "fold_res (server_do os A app) ss w = Inr w'"
  shows "live_conns w' = [c \<leftarrow> live_conns w @ [fresh_conn w ..< fresh_conn w']. Closed c \<notin> set ss]
    \<and> server_inv w'
    \<and> (\<forall>c d cn dn. conns w' c = Some cn \<and> conns w' d = Some dn \<and> tc_name cn = tc_name dn \<longrightarrow> c = d)"
  using server_run [OF assms(2,1)] by (auto simp: server_inv_def dest: server_okD(1) named_connsD(2))

theorem connection_table_history_witness:
  "\<exists>w'. fold_res (server_do toy_os libstdcxx idle_app) [Accepted 7 zero_sockaddr, Closed 0] toy_world = Inr w'
    \<and> 0 \<notin> set (live_conns w')"
  using toy_run connection_table_history [OF toy_server_inv] by fastforce

text \<open>C29. A new connection gets the next loop of the pool, a fresh name made of the server's name, its
  address and the next number, the callbacks of the server and the server's own close callback. It is
  established at once when that loop runs in the calling thread, and otherwise the call is queued on
  that loop and on no other.\<close>

theorem new_connection_outcome:
  assumes "newConnection os A app fd pa w = Inr w'" and "server w = Some sv" and "server_ok sv w"
  shows "\<exists>io p cn w1. getNextLoop (srv_pool sv) = Inr (io, p) \<and> accepted_conn w sv io p fd cn
    \<and> conns w1 = (conns w)(fresh_conn w := Some cn)
    \<and> server w' = Some (sv\<lparr>srv_pool := p, next_conn_id := next_conn_id sv + 1,
          connections := connections sv @ [(conn_name_of sv (next_conn_id sv), fresh_conn w)]\<rparr>)
    \<and> (if thread_id (loops w io) = cur_tid w then connEstablish os A app (fresh_conn w) w1 = Inr w'
       else conns w' = conns w1
         \<and> (\<forall>l. pending (loops w' l)
              = pending (loops w l) @ (if l = io then [FConnEstablish (fresh_conn w)] else [])))"
proof -
  obtain io p cn w1 where r: "getNextLoop (srv_pool sv) = Inr (io, p)" "accepted_conn w sv io p fd cn"
      "conns w1 = (conns w)(fresh_conn w := Some cn)" "loops w1 = loops w" "cur_tid w1 = cur_tid w"
      "server w' = Some (sv\<lparr>srv_pool := p, next_conn_id := next_conn_id sv + 1,
          connections := connections sv @ [(conn_name_of sv (next_conn_id sv), fresh_conn w)]\<rparr>)"
    and run: "runLoopCallback (cur_tid w1) (loops w1 io) (\<lambda>_. connEstablish os A app (fresh_conn w))
          (net_push os io) (FConnEstablish (fresh_conn w)) w1 = Inr w'"
    using newConnection_result [OF assms] by blast
  show ?thesis
  proof (cases "thread_id (loops w io) = cur_tid w")
    case True
    then show ?thesis using r run by (auto simp: runLoopCallback_def isInLoopThread_def)
  next
    case False
    then have "w' = net_push os io (FConnEstablish (fresh_conn w)) w1"
      using r run by (simp add: runLoopCallback_def isInLoopThread_def)
    then have "conns w' = conns w1 \<and> (\<forall>l. pending (loops w' l)
              = pending (loops w l) @ (if l = io then [FConnEstablish (fresh_conn w)] else []))"
      using r(4) pushLoopCallback_loop [of os "cur_tid w1" "FConnEstablish (fresh_conn w)" "kern w1" "loops w1 io"]
      by (auto simp: net_push_def on_loop_def split: prod.splits)
    then show ?thesis using r False
      by (intro exI [of _ io] exI [of _ p] exI [of _ cn] exI [of _ w1]) simp
  qed
qed

theorem new_connection_outcome_witness:
  "\<exists>w'. newConnection toy_os libstdcxx idle_app 7 zero_sockaddr toy_world = Inr w'
    \<and> pending (loops w' 1) = [FConnEstablish 0] \<and> pending (loops w' 0) = []"
proof -
  have s: "server toy_world = Some toy_server" by (simp add: toy_world_def)
  have np: "getNextLoop (srv_pool toy_server) = Inr (1, srv_pool toy_server)"
    by (simp add: toy_server_def getNextLoop_def ThreadPool_new_def)
  obtain w1 where w1: "newConnection toy_os libstdcxx idle_app 7 zero_sockaddr toy_world = Inr w1"
    using newConnection_other_loop [OF s _ np toy_server_ok]
    by (fastforce simp: toy_server_def toy_world_def toy_loop_def)
  show ?thesis
    using new_connection_outcome [OF w1 s toy_server_ok] w1 np
    by (auto simp: toy_world_def toy_loop_def)
qed

text \<open>Closing removes the connection's own entry and nothing else, and queues its \<open>connDestory\<close> on
  its own loop. A second close of the same connection leaves the table alone and queues
  \<open>connDestory\<close> once more.\<close>

theorem removal_outcome:
  assumes "removeConnectionInLoop os c w = Inr w1" and "removeConnectionInLoop os c w1 = Inr w2"
    and "server_inv w" and "conns w c = Some cn"
  shows "live_conns w1 = [d \<leftarrow> live_conns w. d \<noteq> c] \<and> live_conns w2 = live_conns w1
    \<and> pending (loops w1 (tc_loop cn)) = pending (loops w (tc_loop cn)) @ [FConnDestory c]
    \<and> pending (loops w2 (tc_loop cn)) = pending (loops w (tc_loop cn)) @ [FConnDestory c, FConnDestory c]"
proof -
  obtain sv where sv: "server w = Some sv" "server_ok sv w"
    using assms(3) by (auto simp: server_inv_def)
  obtain sv1 u where r1: "server w1 = Some sv1" "server_inv w1"
      "map snd (connections sv1) = [d \<leftarrow> map snd (connections sv). d \<noteq> c]"
      "evolves u w1" "conns u = conns w"
      "pending (loops w1 (tc_loop cn)) = pending (loops w (tc_loop cn)) @ [FConnDestory c]"
    using removeConnectionInLoop_result [OF assms(1) sv] assms(4) by auto
  obtain cn1 where cn1: "conns w1 c = Some cn1" "tc_loop cn1 = tc_loop cn"
    using evolves_conn [OF r1(4), of c cn] r1(5) assms(4) by (auto simp: same_conn_def)
  obtain sv2 where r2: "server w2 = Some sv2"
      "map snd (connections sv2) = [d \<leftarrow> map snd (connections sv1). d \<noteq> c]"
      "pending (loops w2 (tc_loop cn1)) = pending (loops w1 (tc_loop cn1)) @ [FConnDestory c]"
    using removeConnectionInLoop_result [OF assms(2) r1(1)] r1(1,2) cn1(1) by (auto simp: server_inv_def)
  show ?thesis
    using sv(1) r1 r2 cn1(2) by (simp add: live_conns_def)
qed

theorem removal_outcome_witness:
  "\<exists>w w1 w2. removeConnectionInLoop toy_os 0 w = Inr w1 \<and> removeConnectionInLoop toy_os 0 w1 = Inr w2
    \<and> live_conns w = [0] \<and> live_conns w2 = []"
proof -
  obtain w where w: "newConnection toy_os libstdcxx idle_app 7 zero_sockaddr toy_world = Inr w"
    using toy_run by (auto simp: res_iff)
  then have h: "fold_res (server_do toy_os libstdcxx idle_app) [Accepted 7 zero_sockaddr] toy_world = Inr w"
    by simp
  have s: "server toy_world = Some toy_server" by (simp add: toy_world_def)
  obtain cn v where v: "conns v = (conns toy_world)(fresh_conn toy_world := Some cn)" "evolves v w"
      "server_inv w" "fresh_conn w = fresh_conn toy_world + 1"
    using newConnection_result [OF w s toy_server_ok] by blast
  moreover have "fresh_conn toy_world = 0" by (simp add: toy_world_def)
  ultimately obtain cn' where cn': "conns w 0 = Some cn'" "server_inv w" "live_conns w = [0]"
    using evolves_conn [of v w 0 cn] server_run [OF h toy_server_inv]
    by (auto simp: live_conns_def toy_world_def toy_server_def)
  obtain w1 where w1: "removeConnectionInLoop toy_os 0 w = Inr w1"
    using cn' by (auto simp: removeConnectionInLoop_def with_server_def server_inv_def)
  obtain sv where sv: "server w = Some sv" "server_ok sv w" using cn' by (auto simp: server_inv_def)
  obtain u where "evolves u w1" "conns u = conns w" "server_inv w1"
    using removeConnectionInLoop_result [OF w1 sv] by blast
  then obtain w2 where w2: "removeConnectionInLoop toy_os 0 w1 = Inr w2"
    using cn'(1) evolves_conn [of u w1 0 cn']
    by (auto simp: removeConnectionInLoop_def with_server_def server_inv_def)
  show ?thesis
    using removal_outcome [OF w1 w2 cn'(2,1)] w1 w2 cn'(3)
    by (intro exI [of _ w] exI [of _ w1] exI [of _ w2]) simp
qed

text \<open>C30. The first \<open>start\<close> makes as many new loops as the pool size says, each run by a new thread of
  its own, and brings the acceptor to listen, at once in the base loop's own thread and otherwise by
  a functor queued there; every later \<open>start\<close> only counts.\<close>

theorem server_start_once:
  assumes "server_start os A getenv app w = Inr w'" and "server w = Some sv" and "srv_started sv = 0"
    and "srv_pool sv = setPoolSize n (ThreadPool_new base name)" and "0 \<le> n"
    and "srv_loop sv < fresh_loop w" and "acc_loop (srv_acceptor sv) = srv_loop sv"
  shows "\<exists>sv'. server w' = Some sv'
    \<and> pool_loops (srv_pool sv') = [fresh_loop w ..< fresh_loop w + nat n]
    \<and> (\<forall>i < nat n. thread_id (loops w' (fresh_loop w + i)) = fresh_tid w + int i)
    \<and> (if thread_id (loops w (srv_loop sv)) = cur_tid w then listenning (srv_acceptor sv')
       else FListen \<in> set (pending (loops w' (srv_loop sv))))
    \<and> server_start os A getenv app w' = Inr (w'\<lparr>server := Some (sv'\<lparr>srv_started := 2\<rparr>)\<rparr>)"
proof -
  obtain sv' where r: "server w' = Some sv'" "srv_started sv' = 1"
      "pool_loops (srv_pool sv') = [fresh_loop w ..< fresh_loop w + nat n]"
      "\<forall>i < nat n. thread_id (loops w' (fresh_loop w + i)) = fresh_tid w + int i"
      "if thread_id (loops w (srv_loop sv)) = cur_tid w then listenning (srv_acceptor sv')
       else FListen \<in> set (pending (loops w' (srv_loop sv)))"
    using server_start_first [OF assms] by blast
  have "server_start os A getenv app w' = Inr (w'\<lparr>server := Some (sv'\<lparr>srv_started := 2\<rparr>)\<rparr>)"
    using r(1,2) by (simp add: server_start_def with_server_def)
  then show ?thesis using r by blast
qed

theorem server_start_once_witness:
  "\<exists>w'. server_start toy_os libstdcxx (\<lambda>_. None) idle_app
      (toy_world\<lparr>cur_tid := 9,
        server := Some (toy_server\<lparr>srv_started := 0, srv_pool := setPoolSize 1 (ThreadPool_new 0 ''Echo'')\<rparr>)\<rparr>)
    = Inr w' \<and> thread_id (loops w' 2) = 3 \<and> FListen \<in> set (pending (loops w' 0))"
proof -
  let ?p = "setPoolSize 1 (ThreadPool_new 0 ''Echo'')"
  let ?sv = "toy_server\<lparr>srv_started := 0, srv_pool := ?p\<rparr>"
  let ?w = "toy_world\<lparr>cur_tid := 9, server := Some ?sv\<rparr>"
  let ?w1 = "?w\<lparr>server := Some (?sv\<lparr>srv_started := srv_started ?sv + 1\<rparr>)\<rparr>"
  have new: "\<exists>k ts lp. EventLoop_new toy_os (\<lambda>_. None) 2 3 (toy_start, [1 \<mapsto> 0, 2 \<mapsto> 1]) = Inr (k, ts, lp)"
    by (simp add: EventLoop_new_def newDefaultPoller_def EpollPoller_new_def createEventFd_def toy_os_def
        interest_defs loop_updateChannel_def updateChannel_def epoll_update_def Channel_new_def
        setReadCallback_def toy_ctl_def toy_start_def chan_states Let_def kDefaultChannelListSize_def)
  have w: "kern ?w1 = toy_start" "tls ?w1 = [1 \<mapsto> 0, 2 \<mapsto> 1]" "fresh_loop ?w1 = 2" "fresh_tid ?w1 = 3"
    by (simp_all add: toy_world_def)
  have spawn: "\<exists>l t w2. spawn_loop toy_os libstdcxx (\<lambda>_. None) idle_app None name ?w1 = Inr (l, t, w2)" for name
    using new w by (auto simp: spawn_loop_def startLoop_def threadFunc_prologue_def EventLoopThread_new_def
        Let_def split: prod.splits)
  have add: "\<exists>p2 w2. pool_add (spawn_loop toy_os libstdcxx (\<lambda>_. None) idle_app None) 0
      (?p\<lparr>pool_started := True\<rparr>, ?w1) = Inr (p2, w2) \<and> thread_num p2 = 1"
    using spawn [of "pool_thread_name ''Echo'' 0"]
    by (auto simp: pool_add_def setPoolSize_def ThreadPool_new_def Let_def)
  have sv: "srv_started ?sv = 0" "thread_init_callback ?sv = None" "srv_pool ?sv = ?p" "srv_loop ?sv = 0"
      "thread_num ?p = 1" "acc_loop (srv_acceptor ?sv) = 0"
    by (simp_all add: toy_server_def setPoolSize_def)
  obtain p2 w2 where st: "pool_start (spawn_loop toy_os libstdcxx (\<lambda>_. None) idle_app None) None (?p, ?w1)
      = Inr (p2, w2)" and f: "fold_res (pool_add (spawn_loop toy_os libstdcxx (\<lambda>_. None) idle_app None))
        [0 ..< 1] (?p\<lparr>pool_started := True\<rparr>, ?w1) = Inr (p2, w2)"
    using add by (auto simp: pool_start_def sv upt_rec)
  have "loop_grows (loops ?w1 0) (loops w2 0)" "cur_tid w2 = 9"
    using pool_fold_result [OF f] w(3) by (auto simp: toy_world_def dest!: spec [of _ 0])
  then have "thread_id (loops w2 0) \<noteq> cur_tid w2"
    by (simp add: loop_grows_def toy_world_def toy_loop_def)
  then have "\<exists>w'. server_start toy_os libstdcxx (\<lambda>_. None) idle_app ?w = Inr w'"
    using st sv by (simp add: server_start_def with_server_def runLoopCallback_def isInLoopThread_def)
  then obtain w' where w': "server_start toy_os libstdcxx (\<lambda>_. None) idle_app ?w = Inr w'" by blast
  show ?thesis
    using server_start_once [OF w', of ?sv 1 0 "''Echo''"] w' sv
    by (auto simp: toy_world_def toy_loop_def)
qed

end
