(* ===== verification/TurnFacts.thy ===== *)
theory TurnFacts
  imports ServerFacts
begin

text \<open>
  One turn of a loop, and the loop: which functors a turn runs, which connections are destroyed after
  it, when the \<open>while\<close> ends, and three defects that only show in the whole: an event without
  \<open>EPOLLIN\<close> closes a connection twice, a \<open>quit\<close> before \<open>loop\<close> is lost, and a thread never gets a
  second \<open>EventLoop\<close>.
\<close>

section \<open>Queues over a turn\<close>

lemma newConnection_grows:
  assumes "newConnection os A app fd pa w = Inr w'"
  shows "loops_grow w w'"
proof -
  obtain sv io p where sv: "server w = Some sv" and np: "getNextLoop (srv_pool sv) = Inr (io, p)"
    using assms by (auto simp: newConnection_def with_server_def res_iff split: option.splits)
  obtain r k where gs: "sys_getsockname os fd (kern w) = (r, k)" by fastforce
  have id: "next_conn_id sv \<noteq> 2 ^ 31 - 1"
    using assms sv np by (auto simp: newConnection_def with_server_def split: if_split_asm)
  let ?name = "conn_name_of sv (next_conn_id sv)"
  obtain k1 cn where new: "TcpConnection_new os A (fresh_conn w) (Some io) ?name fd
      (case r of Inl _ \<Rightarrow> zero_sockaddr | Inr a \<Rightarrow> a) pa k = Inr (k1, cn)"
    using assms sv np id gs by (auto simp: newConnection_def with_server_def res_iff Let_def)
  define sv1 where "sv1 = sv\<lparr>srv_pool := p, next_conn_id := next_conn_id sv + 1\<rparr>"
  define sv2 where "sv2 = sv1\<lparr>connections := AList.update ?name (fresh_conn w) (connections sv1)\<rparr>"
  define w0 where "w0 = w\<lparr>kern := k1, conns := (conns w)(fresh_conn w := Some
      (conn_setCloseCallback (Some kRemoveConnection)
                (setWriteCompleteCallback (srv_write_complete_callback sv2)
                (setMessageCallback (srv_msg_callback sv2)
                (setConnectionCallback (srv_conn_callback sv2) cn))))),
      fresh_conn := fresh_conn w + 1, server := Some sv2\<rparr>"
  define w1 where "w1 = (case map_of (connections sv1) ?name of None \<Rightarrow> w0 | Some d \<Rightarrow> release os d w0)"
  have w1: "loops w1 = loops w" "cur_tid w1 = cur_tid w"
    by (simp_all add: w1_def w0_def split: option.splits)
  have run: "runLoopCallback (cur_tid w1) (loops w1 io) (\<lambda>_. connEstablish os A app (fresh_conn w))
          (net_push os io) (FConnEstablish (fresh_conn w)) w1 = Inr w'"
    using assms
    unfolding newConnection_def with_server_def sv option.case np bind_res_simps prod.case gs Let_def
      if_not_P [OF id] new sv1_def [symmetric] sv2_def [symmetric] w0_def [symmetric] w1_def [symmetric] .
  have "evolves w1 w'"
    by (rule runLoopCallback_evolves [OF run]) (auto intro: connEstablish_evolves net_push_evolves)
  then have "loops_grow w1 w'" by (rule evolves_loops)
  then show ?thesis using w1 by (simp add: loops_grow_def)
qed

lemma run_handler_grows:
  assumes "run_handler os A app t h w = Inr w'"
  shows "loops_grow w w'"
proof (cases h)
  case HAcceptRead
  obtain sv where sv: "server w = Some sv"
    using assms HAcceptRead by (auto simp: run_handler_def with_server_def split: option.splits)
  obtain r pa k where acc: "socket_accept os (accept_socket (srv_acceptor sv))
      (InetAddress_new (\<lambda>_. (127, 0, 0, 1)) 0 ''127.0.0.1'') (kern w) = (r, pa, k)"
    by (metis prod_cases3)
  then have "loops_grow (w\<lparr>kern := k\<rparr>) w'"
    using assms sv HAcceptRead
    by (auto simp: run_handler_def with_server_def acceptor_handleRead_def Let_def
        split: sum.splits if_split_asm dest: newConnection_grows)
  then show ?thesis by simp
next
  case (HAwake l)
  then have "evolves w w'"
    using assms by (auto simp: run_handler_def intro: on_loop_evolves awake_grows)
  then show ?thesis by (rule evolves_loops)
qed (use assms in \<open>auto simp: run_handler_def intro: handleRead_grows handleClose_grows
      evolves_loops [OF handleWrite_evolves] evolves_loops [OF handleError_evolves]\<close>)

lemma fold_res_grows:
  assumes "fold_res f xs w = Inr w'" and "\<And>x w w'. f x w = Inr w' \<Longrightarrow> loops_grow w w'"
  shows "loops_grow w w'"
proof (rule fold_res_invariant [OF assms(1), where P = "loops_grow w"])
  fix x s s'
  assume "loops_grow w s" and "f x s = Inr s'"
  then show "loops_grow w s'" using assms(2) loops_grow_trans by blast
qed simp

lemma handleEvent_grows:
  assumes "handleEvent alive (run_handler os A app t) ch w = Inr w'"
  shows "loops_grow w w'"
  using assms
  by (auto simp: handleEvent_def handleEventWithGuard_dispatch split: if_split_asm option.splits
      intro: fold_res_grows run_handler_grows)

lemma handle_channel_grows:
  assumes "handle_channel os A app t p w = Inr w'"
  shows "loops_grow w w'"
  using assms
  by (auto simp: handle_channel_def Let_def with_server_def res_iff
      split: chan_ptr.splits option.splits dest: handleEvent_grows)

lemma set_revents_grows:
  assumes "set_revents p ev w = Inr w'"
  shows "loops_grow w w'"
  using assms
  by (auto simp: set_revents_def with_server_def upd_conn_def loops_grow_def loop_grows_fields
      split: chan_ptr.splits option.splits)

lemma triggerChannels_grows:
  "triggerChannels set_revents es active w = Inr (w', active') \<Longrightarrow> loops_grow w w'"
proof (induction es arbitrary: active w)
  case (Cons e es)
  obtain ev p where e: "e = (ev, p)" by fastforce
  obtain w1 where "set_revents p ev w = Inr w1"
      "triggerChannels set_revents es (active @ [p]) w1 = Inr (w', active')"
    using Cons.prems by (auto simp: e res_iff)
  then show ?case using Cons.IH set_revents_grows loops_grow_trans by blast
qed simp

lemma upd_loop_grows:
  "loop_grows (loops w l) (g (loops w l)) \<Longrightarrow> loops_grow w (upd_loop l g w)"
  by (simp add: upd_loop_def loops_grow_def)

lemma poll_phase_grows:
  assumes "poll_phase os l w = Inr w'"
  shows "loops_grow w w'"
proof -
  let ?w0 = "upd_loop l (\<lambda>lp. lp\<lparr>active_channels := []\<rparr>) w"
  obtain k po events now w1 active where
      t: "triggerChannels set_revents events []
        (upd_loop l (\<lambda>lp. lp\<lparr>poller := Some po\<rparr>) (?w0\<lparr>kern := k\<rparr>)) = Inr (w1, active)"
    and w': "w' = upd_loop l (\<lambda>lp. lp\<lparr>active_channels := active, poll_return_time := now\<rparr>) w1"
    using assms by (auto simp: poll_phase_def Let_def res_iff split: option.splits)
  have "loops_grow w ?w0" "loops_grow w1 w'"
    by (auto simp: w' intro!: upd_loop_grows) (simp_all add: loop_grows_def)
  moreover have "loops_grow ?w0 (upd_loop l (\<lambda>lp. lp\<lparr>poller := Some po\<rparr>) (?w0\<lparr>kern := k\<rparr>))"
    by (simp add: upd_loop_def loops_grow_def) (simp add: loop_grows_def)
  ultimately show ?thesis
    using triggerChannels_grows [OF t] loops_grow_trans by blast
qed

lemma handle_phase_grows: "handle_phase os A app l w = Inr w' \<Longrightarrow> loops_grow w w'"
  unfolding handle_phase_def by (erule fold_res_grows) (rule handle_channel_grows)

section \<open>Releasing\<close>

lemma release_conns:
  "conns (release os c w) d = (if d = c \<and> \<not> referenced c w then None else conns w d)"
  by (auto simp: release_def TcpConnection_destroy_def split: option.splits)

lemma referenced_release [simp]: "referenced d (release os c w) = referenced d w"
  by (simp add: referenced_def)

lemma fold_release:
  "loops (fold (release os) cs w) = loops w" "server (fold (release os) cs w) = server w"
  "fresh_loop (fold (release os) cs w) = fresh_loop w" "trace (fold (release os) cs w) = trace w"
  "referenced d (fold (release os) cs w) = referenced d w"
  "conns (fold (release os) cs w) d = (if d \<in> set cs \<and> \<not> referenced d w then None else conns w d)"
  by (induction cs arbitrary: w) (auto simp: release_conns)

lemma run_pending_unfold:
  assumes "run_pending os A app l w = Inr w'"
  shows "\<exists>w1 w2. loops w1 l = (loops w l)\<lparr>calling_pending := True, pending := []\<rparr>
    \<and> (\<forall>l'. l' \<noteq> l \<longrightarrow> loops w1 l' = loops w l')
    \<and> fold_res (run_functor os A app) (pending (loops w l)) w1 = Inr w2
    \<and> w' = release_functors os (pending (loops w l)) (upd_loop l (\<lambda>lp. lp\<lparr>calling_pending := False\<rparr>) w2)"
proof -
  let ?w1 = "upd_loop l (\<lambda>lp. lp\<lparr>pending := []\<rparr>) (upd_loop l (\<lambda>lp. lp\<lparr>calling_pending := True\<rparr>) w)"
  have p: "pending (loops (upd_loop l (\<lambda>lp. lp\<lparr>calling_pending := True\<rparr>) w) l) = pending (loops w l)"
    by (simp add: upd_loop_def)
  obtain w2 where "fold_res (run_functor os A app) (pending (loops w l)) ?w1 = Inr w2"
      "w' = release_functors os (pending (loops w l)) (upd_loop l (\<lambda>lp. lp\<lparr>calling_pending := False\<rparr>) w2)"
    using assms by (auto simp: run_pending_def executePendingFunctors_def Let_def res_iff p)
  then show ?thesis
    by - (rule exI [of _ ?w1], rule exI [of _ w2], simp add: upd_loop_def)
qed

section \<open>The while loop\<close>

lemma loop_while_more_fuel:
  "loop_while os A app others l n w = Inr (Some w') \<Longrightarrow> n \<le> m \<Longrightarrow>
    loop_while os A app others l m w = Inr (Some w')"
proof (induction n arbitrary: m w)
  case (Suc n)
  then obtain m' where "m = Suc m'" by (cases m) auto
  then show ?case using Suc by (auto simp: res_iff split: if_split_asm)
qed simp

lemma loop_while_quit: "loop_while os A app others l n w = Inr (Some w') \<Longrightarrow> quit_flag (loops w' l)"
  by (induction n arbitrary: w) (auto simp: res_iff split: if_split_asm)

section \<open>Closing twice\<close>

lemma loop_updateChannel_fd: "loop_updateChannel os p (k, lp, ch) = Inr (k', lp', ch') \<Longrightarrow> ch_fd ch' = ch_fd ch"
  by (auto simp: loop_updateChannel_def updateChannel_def epoll_update_def res_iff Let_def
      split: option.splits if_split_asm prod.splits sum.splits)

lemma run_no_actions [simp]: "run_actions os A [] w = Inr w"
  by (simp add: run_actions_def)

lemma net_push_fields [simp]:
  "trace (net_push os l f w) = trace w" "conns (net_push os l f w) = conns w"
  by (simp_all add: net_push_def on_loop_def split: prod.splits)

lemma removeConnection_keeps:
  "removeConnection os c w = Inr w' \<Longrightarrow> trace w' = trace w \<and> conns w' = conns w"
  by (auto simp: removeConnection_def removeConnectionInLoop_def runLoopCallback_def with_server_def
      split: option.splits if_split_asm)

text \<open>A connection whose user does nothing in its connection callback.\<close>

definition quiet_conn :: "'k world app \<Rightarrow> nat \<Rightarrow> int \<Rightarrow> nat \<Rightarrow> 'k world \<Rightarrow> bool" where
  "quiet_conn app cb fd c w \<longleftrightarrow> (\<exists>cn. conns w c = Some cn \<and> conn_callback cn = Some cb
     \<and> close_callback cn = Some kRemoveConnection \<and> ch_fd (tc_channel cn) = fd)
     \<and> (\<forall>v. on_connection app cb v c = [])"

lemma handleClose_quiet:
  assumes "handleClose os A app (closer os) c w = Inr w'" and "quiet_conn app cb fd c w"
  shows "trace w' = trace w @ [CalledConnection cb c False] \<and> quiet_conn app cb fd c w'"
proof -
  obtain cn where cn: "conns w c = Some cn" "conn_callback cn = Some cb"
      "close_callback cn = Some kRemoveConnection" "ch_fd (tc_channel cn) = fd"
    using assms(2) by (auto simp: quiet_conn_def)
  obtain w1 where "in_conn c (\<lambda>x. let x = cx_setState kDisconnected x in
          disableAllEvent (cx_update os c x) (tc_channel (cx_conn x))) w = Inr w1"
    and rest: "bind_res (call_connection os A app c w1) (\<lambda>w.
       case conns w c of None \<Rightarrow> Inl DanglingPointer
       | Some cn \<Rightarrow> (case close_callback cn of None \<Rightarrow> Inl BadFunctionCall
           | Some cb \<Rightarrow> closer os cb c w)) = Inr w'"
    using assms(1) unfolding handleClose_def by (auto simp only: bind_res_Inr_iff)
  then obtain ch where w1: "trace w1 = trace w"
      "conns w1 c = Some (cn\<lparr>tc_state := kDisconnected, tc_channel := ch\<rparr>)" "ch_fd ch = fd"
    using cn
    by (auto simp: in_conn_def res_iff cx_update_def cx_setState_def interest_defs Let_def
        dest!: loop_updateChannel_fd)
  let ?w2 = "note_call (CalledConnection cb c False) w1"
  have "call_connection os A app c w1 = Inr ?w2"
    using w1 cn assms(2) by (simp add: call_connection_def isConnected_def quiet_conn_def)
  then have "removeConnection os c ?w2 = Inr w'"
    using rest w1(2) cn(3) by (simp add: note_call_def closer_def)
  from removeConnection_keeps [OF this] show ?thesis
    using w1 cn assms(2) by (simp add: note_call_def quiet_conn_def)
qed

lemma handleRead_eof:
  assumes "handleRead os A app (closer os) c t w = Inr w'" and "quiet_conn app cb fd c w"
    and "\<And>lens k. fst (sys_readv os fd lens k) = Inr []"
  shows "trace w' = trace w @ [CalledConnection cb c False]"
proof -
  obtain cn where cn: "conns w c = Some cn" "conn_callback cn = Some cb"
      "close_callback cn = Some kRemoveConnection" "ch_fd (tc_channel cn) = fd"
    using assms(2) by (auto simp: quiet_conn_def)
  obtain r k b where r: "buffer_read A (sys_readv os fd) (kern w) (input_buffer cn) = Inr (r, k, b)"
    using assms(1) cn by (auto simp: handleRead_def res_iff)
  have "r = Inr 0"
    using r assms(3) [of "buffer_iov (input_buffer cn)" "kern w"]
    by (cases "sys_readv os fd (buffer_iov (input_buffer cn)) (kern w)") (auto simp: buffer_read_def res_iff)
  then have "handleClose os A app (closer os) c
      (w\<lparr>kern := k, conns := (conns w)(c := Some (cn\<lparr>input_buffer := b\<rparr>))\<rparr>) = Inr w'"
    using assms(1) cn r by (simp add: handleRead_def Let_def)
  then show ?thesis
    using handleClose_quiet [of os A app c _ w' cb fd] cn assms(2)
    by (auto simp: quiet_conn_def)
qed

section \<open>A connection that is hung up, for a witness\<close>

definition hup_chan :: "handler channel" where
  "hup_chan = \<lparr>ch_loop = 0, ch_fd = 7, ch_events = 3, ch_revents = 16, ch_state = -1, ch_tie = Some 0,
     ch_tied = True, read_callback = Some (HConnRead 0), write_callback = None,
     ch_close_callback = Some (HConnClose 0), error_callback = None\<rparr>"

definition hup_world :: "toy world" where
  "hup_world = toy_world\<lparr>conns := [0 \<mapsto> toy_conn\<lparr>tc_channel := hup_chan\<rparr>]\<rparr>"

abbreviation eof_os :: "toy os" where
  "eof_os \<equiv> toy_os\<lparr>sys_readv := \<lambda>_ _ k. (Inr [], k)\<rparr>"

lemma hup_dispatch: "dispatch hup_chan = [HConnClose 0, HConnRead 0]"
  by (simp add: hup_chan_def dispatch_def event_masks)

lemma six_read_eof: "buffer_read A (\<lambda>_ k. (Inr [], k)) k six = Inr (Inr 0, k, six)"
  by (simp add: buffer_read_def buffer_absorb_def six_def writableBytes_def size_sub_def bytes_write_def
      size_add_def size_mod_def)

lemmas hup_eval = handleClose_def in_conn_def hup_world_def toy_world_def toy_conn_def hup_chan_def
  cx_setState_def interest_defs cx_update_def loop_updateChannel_def updateChannel_def
  epoll_update_def toy_loop_def toy_poller_def toy_start_def toy_ctl_def Let_def chan_states
  setState_def call_connection_def idle_app_def run_actions_def note_call_def closer_def
  kRemoveConnection_def removeConnection_def with_server_def runLoopCallback_def isInLoopThread_def
  removeConnectionInLoop_def toy_server_def net_push_def on_loop_def pushLoopCallback_def wakeup_def
  isSilent_def

lemma hup_runs:
  "\<exists>w'. bind_res (handleClose eof_os libstdcxx idle_app (closer eof_os) 0 hup_world)
     (handleRead eof_os libstdcxx idle_app (closer eof_os) 0 t) = Inr w'"
  by (simp add: hup_eval handleRead_def six_read_eof)

section \<open>Properties\<close>





text \<open>C36. An event \<open>EPOLLHUP\<close> without \<open>EPOLLIN\<close> closes a connection twice: the close callback runs, and
  then, since the read callback is always called, the read finds the end of the stream and closes
  again, so the user is told twice that the connection is down.\<close>

theorem hangup_reported_twice:
  assumes "handle_channel os A app t (ConnCh c) w = Inr w'" and "conns w c = Some cn"
    and "ch_revents (tc_channel cn) = EPOLLHUP"
    and "ch_close_callback (tc_channel cn) = Some (HConnClose c)"
    and "read_callback (tc_channel cn) = Some (HConnRead c)"
    and "ch_tied (tc_channel cn)" and "ch_tie (tc_channel cn) = Some c"
    and "quiet_conn app cb fd c w" and "\<And>lens k. fst (sys_readv os fd lens k) = Inr []"
  shows "trace w' = trace w @ [CalledConnection cb c False, CalledConnection cb c False]"
proof -
  have "dispatch (tc_channel cn) = [HConnClose c, HConnRead c]"
    using assms(3-5) by (simp add: dispatch_def event_masks)
  then obtain w1 w2 where h: "run_handler os A app t (HConnClose c) w = Inr w1"
      "run_handler os A app t (HConnRead c) w1 = Inr w2" and w': "w' = release os c w2"
    using assms(1,2,6,7)
    by (auto simp: handle_channel_def handleEvent_def handleEventWithGuard_dispatch res_iff)
  have q: "trace w1 = trace w @ [CalledConnection cb c False]" "quiet_conn app cb fd c w1"
    using handleClose_quiet [OF _ assms(8)] h(1) by (auto simp: run_handler_def)
  show ?thesis
    using handleRead_eof [OF _ q(2) assms(9)] h(2) q(1) by (auto simp: run_handler_def w')
qed

theorem hangup_reported_twice_witness:
  "\<exists>w'. handle_channel eof_os libstdcxx idle_app 0 (ConnCh 0) hup_world = Inr w'
    \<and> trace w' = [CalledConnection 1 0 False, CalledConnection 1 0 False]"
proof -
  have c: "conns hup_world 0 = Some (toy_conn\<lparr>tc_channel := hup_chan\<rparr>)" "trace hup_world = []"
    by (simp_all add: hup_world_def toy_world_def)
  have q: "quiet_conn idle_app 1 7 0 hup_world"
    by (simp add: c quiet_conn_def idle_app_def toy_conn_def kRemoveConnection_def hup_chan_def)
  obtain w2 where w2: "bind_res (handleClose eof_os libstdcxx idle_app (closer eof_os) 0 hup_world)
      (handleRead eof_os libstdcxx idle_app (closer eof_os) 0 0) = Inr w2"
    using hup_runs by blast
  then have h: "handle_channel eof_os libstdcxx idle_app 0 (ConnCh 0) hup_world = Inr (release eof_os 0 w2)"
    using hup_dispatch
    by (auto simp: handle_channel_def c handleEvent_def handleEventWithGuard_dispatch run_handler_def
        hup_chan_def res_iff)
  show ?thesis
    using hangup_reported_twice [OF h c(1) _ _ _ _ _ q] c(2) h by (simp add: hup_chan_def event_masks)
qed

text \<open>A \<open>quit\<close> that comes before \<open>loop\<close>, as it can when a loop thread is stopped right after it was
  started, is lost: \<open>loop\<close> resets the flag first, and runs exactly as if there had been none.\<close>

theorem quit_before_loop_lost:
  "EventLoop_loop os A app others fuel l (on_loop l (loop_quit os (thread_id (loops w l))) w)
     = EventLoop_loop os A app others fuel l w"
proof -
  have "upd_loop l (\<lambda>lp. lp\<lparr>looping := True, quit_flag := False\<rparr>)
      (on_loop l (loop_quit os (thread_id (loops w l))) w)
    = upd_loop l (\<lambda>lp. lp\<lparr>looping := True, quit_flag := False\<rparr>) w"
    by (simp add: upd_loop_def on_loop_def loop_quit_def isInLoopThread_def Let_def)
  then show ?thesis by (simp add: EventLoop_loop_def)
qed



text \<open>C35. A thread gets only one \<open>EventLoop\<close> in its life: the destructor compares the thread-local
  pointer with null where it should store it, so that constructing another one in the thread, even
  after the first has been destroyed, ends the process.\<close>

theorem no_second_EventLoop:
  assumes "EventLoop_new os getenv self t (k, ts) = Inr (k1, ts1, lp)"
    and "EventLoop_destroy os self (k2, ts1, lp') = Inr (k3, ts2)"
  shows "EventLoop_new os getenv self' t (k4, ts2) = Inl FatalExit"
proof -
  have "ts2 t = Some self"
    using EventLoop_new_thread [OF assms(1)] assms(2)
    by (auto simp: EventLoop_destroy_def EventLoop_destroy_body_def res_iff Let_def split: option.splits)
  moreover have "newDefaultPoller os getenv k4 = Inl e \<Longrightarrow> e = FatalExit" for e
    by (auto simp: newDefaultPoller_def EpollPoller_new_def bind_res_Inl_iff split: if_split_asm sum.splits prod.splits)
  moreover have "createEventFd os k = Inl e \<Longrightarrow> e = FatalExit" for k e
    by (auto simp: createEventFd_def split: sum.splits prod.splits)
  ultimately show ?thesis
    by (auto simp: EventLoop_new_def bind_res_def Let_def split: sum.splits)
qed

theorem no_second_EventLoop_witness:
  "\<exists>k1 ts1 lp k3 ts2. EventLoop_new toy_os (\<lambda>_. None) 0 1 (toy_start, \<lambda>_. None) = Inr (k1, ts1, lp)
    \<and> EventLoop_destroy toy_os 0 (k1, ts1, lp) = Inr (k3, ts2)
    \<and> EventLoop_new toy_os (\<lambda>_. None) 1 1 (k3, ts2) = Inl FatalExit"
proof -
  have "\<exists>k1 ts1 lp k3 ts2. EventLoop_new toy_os (\<lambda>_. None) 0 1 (toy_start, \<lambda>_. None) = Inr (k1, ts1, lp)
      \<and> EventLoop_destroy toy_os 0 (k1, ts1, lp) = Inr (k3, ts2)"
    by (simp add: EventLoop_new_def newDefaultPoller_def EpollPoller_new_def createEventFd_def toy_os_def
        interest_defs loop_updateChannel_def updateChannel_def epoll_update_def Channel_new_def
        setReadCallback_def toy_ctl_def toy_start_def chan_states Let_def kDefaultChannelListSize_def
        EventLoop_destroy_def EventLoop_destroy_body_def loop_removeChannel_def removeChannel_def isSilent_def setState_def
        kNoneEvent_def)
  then obtain k1 ts1 lp k3 ts2 where
      e: "EventLoop_new toy_os (\<lambda>_. None) 0 1 (toy_start, \<lambda>_. None) = Inr (k1, ts1, lp)"
        "EventLoop_destroy toy_os 0 (k1, ts1, lp) = Inr (k3, ts2)"
    by (elim exE conjE)
  show ?thesis
    using e no_second_EventLoop [OF e, of 1 k3] by auto
qed

end
