(* ===== verification/EchoServer.thy ===== *)
theory EchoServer
  imports TurnFacts
begin

text \<open>
  The example program (\<open>example/test_server.cc\<close>): user code that answers every message with its own
  bytes. Its constructor installs two callbacks, given the numbers 1 and 2; the string it sends is a
  local variable, given the number 0.
\<close>

section \<open>The class\<close>

definition kOnConnection :: nat where "kOnConnection = 1"
definition kOnMessage :: nat where "kOnMessage = 2"

definition echo_input :: "('k, 'z) net_scheme \<Rightarrow> nat \<Rightarrow> byte list" where
  "echo_input w c =
     (case conns w c of
        None \<Rightarrow> []
      | Some cn \<Rightarrow> (case buffer_getAll (input_buffer cn) of Inl _ \<Rightarrow> [] | Inr (d, _) \<Rightarrow> d))"

definition echo_onConnection :: "('k, 'z) net_scheme \<Rightarrow> nat \<Rightarrow> action list" where
  "echo_onConnection w conn = []"

definition echo_onMessage :: "('k, 'z) net_scheme \<Rightarrow> nat \<Rightarrow> int \<Rightarrow> action list" where
  "echo_onMessage w conn time =
     [AGetAll conn, ANewString 0 (echo_input w conn), ASend conn 0, AFreeString 0]"

definition echo_app :: "('k, 'z) net_scheme app" where
  "echo_app = \<lparr>
     on_connection = (\<lambda>cb w c. if cb = kOnConnection then echo_onConnection w c else []),
     on_message = (\<lambda>cb w c t. if cb = kOnMessage then echo_onMessage w c t else []),
     on_write_complete = (\<lambda>_ _ _. []), on_high_water = (\<lambda>_ _ _ _. []), on_user = (\<lambda>_ _. []),
     on_init = (\<lambda>_ _ _. [])\<rparr>"

definition EchoServer_new ::
  "'k os \<Rightarrow> nat option \<Rightarrow> sockaddr_in \<Rightarrow> string \<Rightarrow> 'k world \<Rightarrow> 'k world res" where
  "EchoServer_new os loop addr name w =
     bind_res (TcpServer_new os loop addr name kNoReusePort w) (\<lambda>w.
       Inr (w\<lparr>server := map_option (\<lambda>sv. setThreadPoolSize 1
              (srv_setMessageCallback (Some kOnMessage)
              (srv_setConnectionCallback (Some kOnConnection) sv))) (server w)\<rparr>))"

definition EchoServer_start ::
  "'k os \<Rightarrow> alloc \<Rightarrow> (string \<Rightarrow> string option) \<Rightarrow> 'k world \<Rightarrow> 'k world res" where
  "EchoServer_start os A getenv w = server_start os A getenv echo_app w"

text \<open>\<open>main\<close>: the loop, the address with its default host, the server, then the loop runs.\<close>

definition echo_main ::
  "'k os \<Rightarrow> alloc \<Rightarrow> (string \<Rightarrow> string option) \<Rightarrow> (string \<Rightarrow> byte \<times> byte \<times> byte \<times> byte) \<Rightarrow>
   ('k world \<Rightarrow> 'k world) \<Rightarrow> nat \<Rightarrow> 'k world \<Rightarrow> 'k world option res" where
  "echo_main os A getenv inet_addr others fuel w =
     (let self = fresh_loop w in
      bind_res (EventLoop_new os getenv self (cur_tid w) (kern w, tls w)) (\<lambda>(k, ts, lp).
      let w = w\<lparr>kern := k, tls := ts, loops := (loops w)(self := lp), fresh_loop := self + 1\<rparr>;
          addr = InetAddress_new inet_addr 8002 ''127.0.0.1'' in
      bind_res (EchoServer_new os (Some self) addr ''EchoServer'' w) (\<lambda>w.
      bind_res (EchoServer_start os A getenv w) (\<lambda>w.
        EventLoop_loop os A echo_app others fuel self w))))"

section \<open>Lemmas\<close>

definition conn_cx :: "('k, 'z) net_scheme \<Rightarrow> tcp_connection \<Rightarrow> 'k cctx" where
  "conn_cx w cn = \<lparr>cx_kern = kern w, cx_tid = cur_tid w, cx_loop = loops w (tc_loop cn), cx_conn = cn\<rparr>"

lemma in_conn_cx: "conns w c = Some cn \<Longrightarrow> in_conn c f w = bind_res (f (conn_cx w cn)) (\<lambda>x.
    Inr (w\<lparr>kern := cx_kern x, loops := (loops w)(tc_loop cn := cx_loop x),
           conns := (conns w)(c := Some (cx_conn x))\<rparr>))"
  by (simp add: in_conn_def conn_cx_def)

text \<open>What one message makes the server do.\<close>

lemma echo_message_actions:
  assumes "conns w c = Some cn" and "msg_callback cn = Some kOnMessage" and "buf_inv (input_buffer cn)"
  shows "call_message os A echo_app c t w
    = bind_res (tcp_send os A c 0 (w\<lparr>trace := trace w @ [CalledMessage kOnMessage c],
         conns := (conns w)(c := Some (cn\<lparr>input_buffer := (input_buffer cn)\<lparr>read_index := 0, write_index := 0\<rparr>\<rparr>)),
         strs := (strs w)(0 := Some (content (input_buffer cn)))\<rparr>))
       (\<lambda>w. Inr (w\<lparr>strs := (strs w)(0 := None)\<rparr>))"
  using assms buffer_getAll_ok [OF assms(3)]
  by (simp add: call_message_def echo_app_def echo_onMessage_def echo_input_def run_actions_def
      note_call_def upd_conn_def)

lemma conn_inv_input: "conn_inv v c (conn_cx w (cn\<lparr>input_buffer := b\<rparr>)) \<longleftrightarrow> conn_inv v c (conn_cx w cn)"
  by (cases "poller (loops w (tc_loop cn))") (simp_all add: conn_inv_def cx_reg_def conn_cx_def)

lemma tcp_send_connected:
  assumes "conns w c = Some cn" and "tc_state cn = kConnected" and "strs w s = Some d"
    and "thread_id (loops w (tc_loop cn)) = cur_tid w"
    and "sendInLoop os A c d (conn_cx w cn) = Inr x"
  shows "tcp_send os A c s w = Inr (w\<lparr>kern := cx_kern x, loops := (loops w)(tc_loop cn := cx_loop x),
           conns := (conns w)(c := Some (cx_conn x))\<rparr>)"
  using assms by (simp add: tcp_send_def isInLoopThread_def in_conn_cx)

text \<open>A message that arrives at a connection in state \<open>kDisconnected\<close> is consumed, nothing else.\<close>

lemma echo_when_disconnected:
  assumes "conns w c = Some cn" and "msg_callback cn = Some kOnMessage" and "buf_inv (input_buffer cn)"
    and "tc_state cn = kDisconnected"
  shows "\<exists>w' cn'. call_message os A echo_app c t w = Inr w' \<and> kern w' = kern w \<and> loops w' = loops w
    \<and> conns w' c = Some cn' \<and> content (input_buffer cn') = [] \<and> output_buffer cn' = output_buffer cn"
  using assms by (simp add: echo_message_actions tcp_send_def content_def)

section \<open>Properties\<close>



end
