(* ===== verification/LoopProtocol.thy ===== *)
theory LoopProtocol
  imports EventLoop
begin

text \<open>
  One \<open>EventLoop\<close> and any number of other threads, at the grain at which they interleave: the
  operations of \<open>src/eventloop.cc\<close> cut at every access to shared data. The shared data are the queue
  (under its mutex, so that an append and a swap are single steps), the flags
  \<open>calling_pending_functors_\<close> and \<open>quit_\<close> (atomic), and the counter of the eventfd: a write adds one,
  a read takes all, and \<open>epoll_wait\<close> returns while it is positive, as \<open>eventfd(2)\<close> says. \<open>owed\<close> counts
  the threads between their append (or their store to \<open>quit_\<close>) and their \<open>wakeup\<close>; \<open>queued\<close> and \<open>ran\<close>
  are histories.

  The interleaving model and the operations of the theory \<open>EventLoop\<close> are tied together by
  \<open>push_refines\<close> and \<open>own_push_refines\<close>.
\<close>

section \<open>The steps\<close>

datatype loop_pc = Check | Poll | Handle bool | Swap | Run | Ended

record proto =
  pc :: loop_pc
  queue :: "Functor list"
  batch :: "Functor list"
  calling :: bool
  quitting :: bool
  counter :: nat
  owed :: nat
  queued :: "Functor list"
  ran :: "Functor list"

inductive other_step :: "proto \<Rightarrow> proto \<Rightarrow> bool" where
  other_append: "other_step s (s\<lparr>queue := queue s @ [f], queued := queued s @ [f], owed := owed s + 1\<rparr>)"
| other_quit: "other_step s (s\<lparr>quitting := True, owed := owed s + 1\<rparr>)"

inductive wakeup_step :: "proto \<Rightarrow> proto \<Rightarrow> bool" where
  other_wakeup: "0 < owed s \<Longrightarrow> wakeup_step s (s\<lparr>owed := owed s - 1, counter := counter s + 1\<rparr>)"

text \<open>User code of the loop thread, in an event handler or in a functor.\<close>

inductive own_step :: "proto \<Rightarrow> proto \<Rightarrow> bool" where
  own_append: "pc s = Handle r \<or> pc s = Run \<Longrightarrow>
    own_step s (s\<lparr>queue := queue s @ [f], queued := queued s @ [f],
                  counter := counter s + (if calling s then 1 else 0)\<rparr>)"
| own_quit: "pc s = Handle r \<or> pc s = Run \<Longrightarrow> own_step s (s\<lparr>quitting := True\<rparr>)"

text \<open>The loop itself; \<open>poll_other\<close> is a return of \<open>epoll_wait\<close> for a timeout or another descriptor.\<close>

inductive loop_step :: "proto \<Rightarrow> proto \<Rightarrow> bool" where
  check_go: "pc s = Check \<Longrightarrow> \<not> quitting s \<Longrightarrow> loop_step s (s\<lparr>pc := Poll\<rparr>)"
| check_quit: "pc s = Check \<Longrightarrow> quitting s \<Longrightarrow> loop_step s (s\<lparr>pc := Ended\<rparr>)"
| poll_woken: "pc s = Poll \<Longrightarrow> 0 < counter s \<Longrightarrow> loop_step s (s\<lparr>pc := Handle True\<rparr>)"
| handle_awake: "pc s = Handle True \<Longrightarrow> loop_step s (s\<lparr>pc := Handle False, counter := 0\<rparr>)"
| handle_end: "pc s = Handle False \<Longrightarrow> loop_step s (s\<lparr>pc := Swap, calling := True\<rparr>)"
| swap: "pc s = Swap \<Longrightarrow> loop_step s (s\<lparr>pc := Run, batch := queue s, queue := []\<rparr>)"
| run_one: "pc s = Run \<Longrightarrow> batch s = f # fs \<Longrightarrow> loop_step s (s\<lparr>batch := fs, ran := ran s @ [f]\<rparr>)"
| run_end: "pc s = Run \<Longrightarrow> batch s = [] \<Longrightarrow> loop_step s (s\<lparr>pc := Check, calling := False\<rparr>)"

inductive poll_step :: "proto \<Rightarrow> proto \<Rightarrow> bool" where
  poll_other: "pc s = Poll \<Longrightarrow> poll_step s (s\<lparr>pc := Handle False\<rparr>)"

inductive proto_step :: "proto \<Rightarrow> proto \<Rightarrow> bool" where
  "other_step s s' \<Longrightarrow> proto_step s s'"
| "wakeup_step s s' \<Longrightarrow> proto_step s s'"
| "own_step s s' \<Longrightarrow> proto_step s s'"
| "loop_step s s' \<Longrightarrow> proto_step s s'"
| "poll_step s s' \<Longrightarrow> proto_step s s'"

definition proto_start :: proto where
  "proto_start = \<lparr>pc = Check, queue = [], batch = [], calling = False, quitting = False, counter = 0,
     owed = 0, queued = [], ran = []\<rparr>"

definition reachable :: "proto \<Rightarrow> bool" where
  "reachable s \<longleftrightarrow> proto_step\<^sup>*\<^sup>* proto_start s"

text \<open>What goes on without anybody's help: the loop runs, and threads finish their \<open>wakeup\<close>.\<close>

definition progress :: "proto \<Rightarrow> proto \<Rightarrow> bool" where
  "progress s s' \<longleftrightarrow> loop_step s s' \<or> wakeup_step s s'"

inductive_cases loop_stepE: "loop_step s s'"
inductive_cases wakeup_stepE: "wakeup_step s s'"
inductive_cases proto_stepE: "proto_step s s'"

section \<open>The invariant\<close>

definition proto_inv :: "proto \<Rightarrow> bool" where
  "proto_inv s \<longleftrightarrow> queued s = ran s @ batch s @ queue s
     \<and> (calling s \<longleftrightarrow> pc s = Swap \<or> pc s = Run)
     \<and> (batch s \<noteq> [] \<longrightarrow> pc s = Run)
     \<and> (queue s \<noteq> [] \<and> (pc s = Run \<or> pc s = Check \<or> pc s = Poll) \<longrightarrow> 0 < counter s + owed s)
     \<and> (quitting s \<and> pc s = Poll \<longrightarrow> 0 < counter s + owed s)
     \<and> (pc s = Ended \<longrightarrow> quitting s)"

lemma proto_inv_loop: "loop_step s s' \<Longrightarrow> proto_inv s \<Longrightarrow> proto_inv s'"
  by (erule loop_stepE) (auto simp: proto_inv_def)

lemma proto_inv_wakeup: "wakeup_step s s' \<Longrightarrow> proto_inv s \<Longrightarrow> proto_inv s'"
  by (erule wakeup_stepE) (simp add: proto_inv_def)

lemma proto_inv_other: "other_step s s' \<Longrightarrow> proto_inv s \<Longrightarrow> proto_inv s'"
  by (erule other_step.cases) (simp_all add: proto_inv_def)

lemma proto_inv_own: "own_step s s' \<Longrightarrow> proto_inv s \<Longrightarrow> proto_inv s'"
  by (erule own_step.cases) (auto simp: proto_inv_def)

lemma proto_inv_poll: "poll_step s s' \<Longrightarrow> proto_inv s \<Longrightarrow> proto_inv s'"
  by (erule poll_step.cases) (auto simp: proto_inv_def)

lemmas proto_inv_steps = proto_inv_loop proto_inv_wakeup proto_inv_other proto_inv_own proto_inv_poll

lemma proto_inv_step: "proto_step s s' \<Longrightarrow> proto_inv s \<Longrightarrow> proto_inv s'"
  by (erule proto_stepE) (blast intro: proto_inv_steps)+

lemma reachable_inv: "reachable s \<Longrightarrow> proto_inv s"
  unfolding reachable_def
proof (induction rule: rtranclp_induct)
  case base
  show ?case by (simp add: proto_inv_def proto_start_def)
next
  case (step s s')
  then show ?case using proto_inv_step by blast
qed

lemma progress_inv: "progress\<^sup>*\<^sup>* s s' \<Longrightarrow> proto_inv s \<Longrightarrow> proto_inv s'"
  by (induction rule: rtranclp_induct) (auto simp: progress_def dest: proto_inv_step proto_step.intros)

section \<open>Progress\<close>

lemma progress_loop: "loop_step s s' \<Longrightarrow> progress\<^sup>*\<^sup>* s' t \<Longrightarrow> progress\<^sup>*\<^sup>* s t"
  by (rule converse_rtranclp_into_rtranclp) (simp_all add: progress_def)

lemma progress_wakeup: "wakeup_step s s' \<Longrightarrow> progress\<^sup>*\<^sup>* s' t \<Longrightarrow> progress\<^sup>*\<^sup>* s t"
  by (rule converse_rtranclp_into_rtranclp) (simp_all add: progress_def)

lemma run_batch:
  "pc s = Run \<Longrightarrow> progress\<^sup>*\<^sup>* s (s\<lparr>batch := [], ran := ran s @ batch s\<rparr>)"
proof (induction "batch s" arbitrary: s)
  case Nil
  then have "s\<lparr>batch := [], ran := ran s @ batch s\<rparr> = s" by (cases s) simp
  then show ?case by simp
next
  case (Cons f fs)
  let ?s = "s\<lparr>batch := fs, ran := ran s @ [f]\<rparr>"
  have "loop_step s ?s" using Cons by (intro run_one) simp_all
  moreover have "progress\<^sup>*\<^sup>* ?s (?s\<lparr>batch := [], ran := ran ?s @ batch ?s\<rparr>)"
    using Cons.hyps(1) [of ?s] Cons.prems by simp
  moreover have "?s\<lparr>batch := [], ran := ran ?s @ batch ?s\<rparr> = s\<lparr>batch := [], ran := ran s @ batch s\<rparr>"
    using Cons.hyps(2) by (cases s) simp
  ultimately show ?case by (metis progress_loop)
qed

definition can_run_all :: "proto \<Rightarrow> bool" where
  "can_run_all s \<longleftrightarrow> (\<exists>s'. progress\<^sup>*\<^sup>* s s' \<and> ran s' = queued s)"

lemma can_run_all_loop:
  "loop_step s s' \<Longrightarrow> queued s' = queued s \<Longrightarrow> can_run_all s' \<Longrightarrow> can_run_all s"
  unfolding can_run_all_def by (metis progress_loop)

lemma can_run_all_wakeup:
  "wakeup_step s s' \<Longrightarrow> queued s' = queued s \<Longrightarrow> can_run_all s' \<Longrightarrow> can_run_all s"
  unfolding can_run_all_def by (metis progress_wakeup)

lemma can_run_all_done: "ran s = queued s \<Longrightarrow> can_run_all s"
  unfolding can_run_all_def by blast

lemma from_swap:
  assumes "pc s = Swap" and "proto_inv s"
  shows "can_run_all s"
proof -
  let ?s = "s\<lparr>pc := Run, batch := queue s, queue := []\<rparr>"
  have "progress\<^sup>*\<^sup>* ?s (?s\<lparr>batch := [], ran := ran ?s @ batch ?s\<rparr>)"
    by (rule run_batch) simp
  moreover have "ran (?s\<lparr>batch := [], ran := ran ?s @ batch ?s\<rparr>) = queued s"
    using assms by (simp add: proto_inv_def)
  ultimately have "can_run_all ?s"
    unfolding can_run_all_def by (intro exI [of _ "?s\<lparr>batch := [], ran := ran ?s @ batch ?s\<rparr>"]) simp
  then show ?thesis
    using can_run_all_loop [OF swap [OF assms(1)]] by simp
qed

lemma from_handle:
  assumes "pc s = Handle r" and "proto_inv s"
  shows "can_run_all s"
proof -
  have F: "can_run_all s" if "pc s = Handle False" "proto_inv s" for s
  proof (rule can_run_all_loop [OF handle_end [OF that(1)]])
    show "can_run_all (s\<lparr>pc := Swap, calling := True\<rparr>)"
      using proto_inv_loop [OF handle_end [OF that(1)] that(2)] by (intro from_swap) simp_all
  qed simp
  show ?thesis
  proof (cases r)
    case True
    then have st: "loop_step s (s\<lparr>pc := Handle False, counter := 0\<rparr>)"
      using assms(1) by (intro handle_awake) simp
    show ?thesis
      using proto_inv_loop [OF st assms(2)]
      by (intro can_run_all_loop [OF st] F) simp_all
  qed (use F assms in simp)
qed

lemma from_poll:
  assumes "pc s = Poll" and "proto_inv s"
  shows "can_run_all s"
proof -
  have W: "can_run_all s" if "pc s = Poll" "proto_inv s" "0 < counter s" for s
    using proto_inv_loop [OF poll_woken [OF that(1,3)] that(2)]
    by (intro can_run_all_loop [OF poll_woken [OF that(1,3)]] from_handle [where r = True]) simp_all
  consider "queue s = []" | "0 < counter s" | "queue s \<noteq> []" "0 < owed s"
    using assms by (auto simp: proto_inv_def)
  then show ?thesis
  proof cases
    case 1
    then show ?thesis using assms by (intro can_run_all_done) (simp add: proto_inv_def)
  next
    case 2
    then show ?thesis using W assms by blast
  next
    case 3
    have st: "wakeup_step s (s\<lparr>owed := owed s - 1, counter := counter s + 1\<rparr>)"
      using 3 by (intro other_wakeup)
    show ?thesis
      using proto_inv_wakeup [OF st assms(2)] assms(1)
      by (intro can_run_all_wakeup [OF st] W) simp_all
  qed
qed

lemma from_check:
  assumes "pc s = Check" and "proto_inv s" and "\<not> quitting s"
  shows "can_run_all s"
  using proto_inv_loop [OF check_go [OF assms(1,3)] assms(2)]
  by (intro can_run_all_loop [OF check_go [OF assms(1,3)]] from_poll) simp_all

lemma from_run:
  assumes "pc s = Run" and "proto_inv s" and "\<not> quitting s"
  shows "can_run_all s"
proof -
  let ?s = "s\<lparr>batch := [], ran := ran s @ batch s\<rparr>"
  have run: "progress\<^sup>*\<^sup>* s ?s" by (rule run_batch [OF assms(1)])
  have inv: "proto_inv ?s" by (rule progress_inv [OF run assms(2)])
  have st: "loop_step ?s (?s\<lparr>pc := Check, calling := False\<rparr>)"
    using assms(1) by (intro run_end) simp_all
  have "can_run_all (?s\<lparr>pc := Check, calling := False\<rparr>)"
    using proto_inv_loop [OF st inv] assms(3) by (intro from_check) simp_all
  then have "can_run_all ?s" by (intro can_run_all_loop [OF st]) simp_all
  then obtain t where "progress\<^sup>*\<^sup>* ?s t" "ran t = queued s"
    unfolding can_run_all_def by auto
  then show ?thesis
    using rtranclp_trans [OF run] unfolding can_run_all_def by blast
qed

section \<open>The operations refine the steps\<close>

definition matches :: "('k \<Rightarrow> int \<Rightarrow> nat) \<Rightarrow> 'k \<times> event_loop \<Rightarrow> proto \<Rightarrow> bool" where
  "matches e x s = (case x of (k, lp) \<Rightarrow> queue s = pending lp \<and> calling s = calling_pending lp
     \<and> quitting s = quit_flag lp \<and> counter s = e k (wakeup_fd lp))"

text \<open>\<open>e k fd\<close> is the counter of an eventfd: a write of one adds one unless it is full, a read of eight
  bytes empties it.\<close>

definition eventfd_ok :: "'k os \<Rightarrow> ('k \<Rightarrow> int \<Rightarrow> nat) \<Rightarrow> bool" where
  "eventfd_ok os e \<longleftrightarrow>
     (\<forall>fd k. e k fd < 2 ^ 64 - 2 \<longrightarrow> e (snd (sys_write os fd eventfd_one k)) fd = e k fd + 1)
     \<and> (\<forall>fd k. e (snd (sys_read os fd 8 k)) fd = 0)"

lemma push_refines:
  assumes "eventfd_ok os e" and "matches e (k, lp) s" and "e k (wakeup_fd lp) < 2 ^ 64 - 2"
    and "thread_id lp \<noteq> tid"
  shows "\<exists>s1 s2. other_step s s1 \<and> wakeup_step s1 s2
    \<and> matches e (pushLoopCallback os tid f (k, lp)) s2 \<and> queued s2 = queued s @ [f]"
proof -
  let ?s1 = "s\<lparr>queue := queue s @ [f], queued := queued s @ [f], owed := owed s + 1\<rparr>"
  have "wakeup_step ?s1 (?s1\<lparr>owed := owed ?s1 - 1, counter := counter ?s1 + 1\<rparr>)"
    by (rule other_wakeup) simp
  then show ?thesis
    using other_append [of s f] assms
    by (intro exI [of _ ?s1] exI [of _ "?s1\<lparr>owed := owed ?s1 - 1, counter := counter ?s1 + 1\<rparr>"])
       (auto simp: matches_def pushLoopCallback_def isInLoopThread_def wakeup_def eventfd_ok_def)
qed

lemma own_push_refines:
  assumes "eventfd_ok os e" and "matches e (k, lp) s" and "e k (wakeup_fd lp) < 2 ^ 64 - 2"
    and "thread_id lp = tid" and "pc s = Handle r \<or> pc s = Run"
  shows "\<exists>s'. own_step s s' \<and> matches e (pushLoopCallback os tid f (k, lp)) s'
    \<and> queued s' = queued s @ [f]"
  using own_append [OF assms(5), of f] assms(1-4)
  by (intro exI [of _ "s\<lparr>queue := queue s @ [f], queued := queued s @ [f],
                  counter := counter s + (if calling s then 1 else 0)\<rparr>"])
     (auto simp: matches_def pushLoopCallback_def isInLoopThread_def wakeup_def eventfd_ok_def)

lemma quit_refines:
  assumes "eventfd_ok os e" and "matches e (k, lp) s" and "e k (wakeup_fd lp) < 2 ^ 64 - 2"
    and "thread_id lp \<noteq> tid"
  shows "\<exists>s1 s2. other_step s s1 \<and> wakeup_step s1 s2 \<and> matches e (loop_quit os tid (k, lp)) s2"
proof -
  let ?s1 = "s\<lparr>quitting := True, owed := owed s + 1\<rparr>"
  have "wakeup_step ?s1 (?s1\<lparr>owed := owed ?s1 - 1, counter := counter ?s1 + 1\<rparr>)"
    by (rule other_wakeup) simp
  then show ?thesis
    using other_quit [of s] assms
    by (intro exI [of _ ?s1] exI [of _ "?s1\<lparr>owed := owed ?s1 - 1, counter := counter ?s1 + 1\<rparr>"])
       (auto simp: matches_def loop_quit_def isInLoopThread_def wakeup_def eventfd_ok_def)
qed

lemma awake_refines:
  assumes "eventfd_ok os e" and "matches e (k, lp) s" and "pc s = Handle True"
  shows "\<exists>s'. loop_step s s' \<and> matches e (awake os (k, lp)) s'"
  using handle_awake [OF assms(3)] assms(1,2)
  by (intro exI [of _ "s\<lparr>pc := Handle False, counter := 0\<rparr>"])
     (auto simp: matches_def awake_def eventfd_ok_def)

section \<open>Properties\<close>






text \<open>A system with one eventfd, whose counter is the whole state.\<close>

definition counter_os :: "nat os" where
  "counter_os = \<lparr>
     sys_epoll_create = (\<lambda>k. (Inr 3, k)), sys_epoll_ctl = (\<lambda>_ _ _ _ _ k. (Inr (), k)),
     sys_epoll_wait = (\<lambda>_ _ _ k. (Inr [], k)), sys_eventfd = (\<lambda>k. (Inr 4, k)),
     sys_read = (\<lambda>_ n k. (Inr (replicate n 0), 0)), sys_readv = (\<lambda>_ _ k. (Inr [], k)),
     sys_write = (\<lambda>_ d k. (Inr (length d), k + 1)), sys_shutdown_wr = (\<lambda>_ k. (Inr (), k)),
     sys_close = (\<lambda>_ k. (Inr (), k)), sys_socket = (\<lambda>k. (Inr 5, k)), sys_bind = (\<lambda>_ _ k. (Inr (), k)),
     sys_listen = (\<lambda>_ _ k. (Inr (), k)), sys_accept4 = (\<lambda>_ k. (Inl EWOULDBLOCK, k)),
     sys_setsockopt = (\<lambda>_ _ _ k. (Inr (), k)), sys_so_error = (\<lambda>_ k. (Inr 0, k)),
     sys_getsockname = (\<lambda>_ k. (Inr zero_sockaddr, k)), sys_time = (\<lambda>k. (0, k))\<rparr>"


end
