(* ===== verification/Handshake.thy ===== *)
theory Handshake
  imports Prelude
begin

text \<open>
  How a loop thread is started and stopped: \<open>EventLoopThread::startLoop\<close>, \<open>threadFunc\<close> and the
  destructor (\<open>src/eventloop_thread.cc\<close>) with \<open>Thread::start\<close> and \<open>join\<close> (\<open>src/thread.cc\<close>), cut at every
  access to what the two threads share: the semaphore of \<open>Thread::start\<close>, the mutex, the condition
  variable, \<open>loop_\<close>, and the \<open>quit_\<close> flag of the loop. \<open>boss\<close> is the thread that calls \<open>startLoop\<close> and
  later the destructor, \<open>worker\<close> the new thread.
\<close>

section \<open>The steps\<close>

datatype boss_pc =
    BStart | BSem | BLock | BTest | BWait bool | BReturned | BQuit | BJoin | BEnd

datatype worker_pc =
    WNone | WTid | WPost | WConstruct | WInit | WLock | WPublish | WEnterLoop | WLooping
  | WLockEnd | WClear | WDestroy | WDone

datatype holder = Nobody | Boss | Worker

record handshake =
  boss :: boss_pc
  worker :: worker_pc
  mutex :: holder
  semaphore :: nat
  tid_stored :: bool
  loop_set :: bool
  loop_alive :: bool
  init_done :: bool
  loop_quit_flag :: bool

text \<open>\<open>BWait b\<close>: in \<open>cond_.wait\<close>, and \<open>b\<close> says whether it has been notified; a wait may also end
  spuriously.\<close>

inductive boss_step :: "handshake \<Rightarrow> handshake \<Rightarrow> bool" where
  thread_start: "boss s = BStart \<Longrightarrow> boss_step s (s\<lparr>boss := BSem, worker := WTid\<rparr>)"
| sem_wait: "boss s = BSem \<Longrightarrow> 0 < semaphore s \<Longrightarrow>
    boss_step s (s\<lparr>boss := BLock, semaphore := semaphore s - 1\<rparr>)"
| lock: "boss s = BLock \<Longrightarrow> mutex s = Nobody \<Longrightarrow> boss_step s (s\<lparr>boss := BTest, mutex := Boss\<rparr>)"
| test_null: "boss s = BTest \<Longrightarrow> \<not> loop_set s \<Longrightarrow>
    boss_step s (s\<lparr>boss := BWait False, mutex := Nobody\<rparr>)"
| test_set: "boss s = BTest \<Longrightarrow> loop_set s \<Longrightarrow> boss_step s (s\<lparr>boss := BReturned, mutex := Nobody\<rparr>)"
| woken: "boss s = BWait True \<Longrightarrow> mutex s = Nobody \<Longrightarrow> boss_step s (s\<lparr>boss := BTest, mutex := Boss\<rparr>)"

inductive spurious_step :: "handshake \<Rightarrow> handshake \<Rightarrow> bool" where
  spurious: "boss s = BWait b \<Longrightarrow> mutex s = Nobody \<Longrightarrow>
    spurious_step s (s\<lparr>boss := BTest, mutex := Boss\<rparr>)"

text \<open>The destructor reads \<open>loop_\<close> without the mutex.\<close>

inductive destructor_step :: "handshake \<Rightarrow> handshake \<Rightarrow> bool" where
  see_loop: "boss s = BReturned \<Longrightarrow> loop_set s \<Longrightarrow> destructor_step s (s\<lparr>boss := BQuit\<rparr>)"
| see_null: "boss s = BReturned \<Longrightarrow> \<not> loop_set s \<Longrightarrow> destructor_step s (s\<lparr>boss := BEnd\<rparr>)"
| call_quit: "boss s = BQuit \<Longrightarrow> destructor_step s (s\<lparr>boss := BJoin, loop_quit_flag := True\<rparr>)"
| join: "boss s = BJoin \<Longrightarrow> worker s = WDone \<Longrightarrow> destructor_step s (s\<lparr>boss := BEnd\<rparr>)"

inductive worker_step :: "handshake \<Rightarrow> handshake \<Rightarrow> bool" where
  store_tid: "worker s = WTid \<Longrightarrow> worker_step s (s\<lparr>worker := WPost, tid_stored := True\<rparr>)"
| sem_post: "worker s = WPost \<Longrightarrow>
    worker_step s (s\<lparr>worker := WConstruct, semaphore := semaphore s + 1\<rparr>)"
| construct_loop: "worker s = WConstruct \<Longrightarrow>
    worker_step s (s\<lparr>worker := WInit, loop_alive := True, loop_quit_flag := False\<rparr>)"
| init_callback: "worker s = WInit \<Longrightarrow> worker_step s (s\<lparr>worker := WLock, init_done := True\<rparr>)"
| worker_lock: "worker s = WLock \<Longrightarrow> mutex s = Nobody \<Longrightarrow>
    worker_step s (s\<lparr>worker := WPublish, mutex := Worker\<rparr>)"
| publish: "worker s = WPublish \<Longrightarrow>
    worker_step s (s\<lparr>worker := WEnterLoop, loop_set := True, mutex := Nobody,
       boss := (case boss s of BWait b \<Rightarrow> BWait True | p \<Rightarrow> p)\<rparr>)"
| enter_loop: "worker s = WEnterLoop \<Longrightarrow>
    worker_step s (s\<lparr>worker := WLooping, loop_quit_flag := False\<rparr>)"
| leave_loop: "worker s = WLooping \<Longrightarrow> loop_quit_flag s \<Longrightarrow> worker_step s (s\<lparr>worker := WLockEnd\<rparr>)"
| lock_end: "worker s = WLockEnd \<Longrightarrow> mutex s = Nobody \<Longrightarrow>
    worker_step s (s\<lparr>worker := WClear, mutex := Worker\<rparr>)"
| clear: "worker s = WClear \<Longrightarrow>
    worker_step s (s\<lparr>worker := WDestroy, loop_set := False, mutex := Nobody\<rparr>)"
| destroy: "worker s = WDestroy \<Longrightarrow> worker_step s (s\<lparr>worker := WDone, loop_alive := False\<rparr>)"

definition hs_step :: "handshake \<Rightarrow> handshake \<Rightarrow> bool" where
  "hs_step s s' \<longleftrightarrow> boss_step s s' \<or> spurious_step s s' \<or> destructor_step s s' \<or> worker_step s s'"

definition hs_start :: handshake where
  "hs_start = \<lparr>boss = BStart, worker = WNone, mutex = Nobody, semaphore = 0, tid_stored = False,
     loop_set = False, loop_alive = False, init_done = False, loop_quit_flag = False\<rparr>"

definition hs_reachable :: "handshake \<Rightarrow> bool" where
  "hs_reachable s \<longleftrightarrow> hs_step\<^sup>*\<^sup>* hs_start s"

text \<open>The steps that need nobody's help: no spurious wakeup, no call of the destructor.\<close>

definition hs_progress :: "handshake \<Rightarrow> handshake \<Rightarrow> bool" where
  "hs_progress s s' \<longleftrightarrow> boss_step s s' \<or> worker_step s s'"

section \<open>The invariant\<close>

definition published :: "worker_pc \<Rightarrow> bool" where
  "published p \<longleftrightarrow> p \<in> {WEnterLoop, WLooping, WLockEnd, WClear}"

definition ended :: "worker_pc \<Rightarrow> bool" where
  "ended p \<longleftrightarrow> p \<in> {WDestroy, WDone}"

definition starting :: "boss_pc \<Rightarrow> bool" where
  "starting p \<longleftrightarrow> p \<in> {BStart, BSem, BLock, BTest, BWait False, BWait True}"

lemma starting_iff: "starting p \<longleftrightarrow> p \<noteq> BReturned \<and> p \<noteq> BQuit \<and> p \<noteq> BJoin \<and> p \<noteq> BEnd"
proof (cases p)
  case (BWait b)
  then show ?thesis by (cases b) (simp_all add: starting_def)
qed (simp_all add: starting_def)

definition mutex_ok :: "handshake \<Rightarrow> bool" where
  "mutex_ok s \<longleftrightarrow> (mutex s = Boss \<longleftrightarrow> boss s = BTest)
     \<and> (mutex s = Worker \<longleftrightarrow> worker s = WPublish \<or> worker s = WClear)"

definition semaphore_ok :: "handshake \<Rightarrow> bool" where
  "semaphore_ok s \<longleftrightarrow> (boss s = BStart \<longleftrightarrow> worker s = WNone)
     \<and> (boss s = BStart \<longrightarrow> semaphore s = 0)
     \<and> (boss s = BSem \<longrightarrow> (0 < semaphore s \<longleftrightarrow> worker s \<noteq> WTid \<and> worker s \<noteq> WPost))
     \<and> (worker s = WTid \<or> worker s = WPost \<longrightarrow> boss s = BSem)"

definition life_ok :: "handshake \<Rightarrow> bool" where
  "life_ok s \<longleftrightarrow> (tid_stored s \<longleftrightarrow> worker s \<notin> {WNone, WTid})
     \<and> (loop_set s \<longleftrightarrow> published (worker s))
     \<and> (loop_alive s \<longleftrightarrow> worker s \<notin> {WNone, WTid, WPost, WConstruct, WDone})
     \<and> (init_done s \<longleftrightarrow> worker s \<notin> {WNone, WTid, WPost, WConstruct, WInit})"

definition wait_ok :: "handshake \<Rightarrow> bool" where
  "wait_ok s \<longleftrightarrow> (boss s = BWait True \<longrightarrow> loop_set s) \<and> (boss s = BWait False \<longrightarrow> \<not> loop_set s)"

definition quit_ok :: "handshake \<Rightarrow> bool" where
  "quit_ok s \<longleftrightarrow> (starting (boss s) \<or> boss s = BReturned \<or> boss s = BQuit \<longrightarrow> \<not> loop_quit_flag s)
     \<and> (starting (boss s) \<longrightarrow> worker s \<noteq> WLockEnd \<and> worker s \<noteq> WClear \<and> \<not> ended (worker s))
     \<and> (boss s = BReturned \<or> boss s = BQuit \<longrightarrow> worker s = WEnterLoop \<or> worker s = WLooping)
     \<and> (boss s = BJoin \<longrightarrow> published (worker s) \<or> ended (worker s))"

definition hs_inv :: "handshake \<Rightarrow> bool" where
  "hs_inv s \<longleftrightarrow> mutex_ok s \<and> semaphore_ok s \<and> life_ok s \<and> wait_ok s \<and> quit_ok s"

lemmas hs_inv_defs = mutex_ok_def semaphore_ok_def life_ok_def wait_ok_def quit_ok_def
  published_def ended_def starting_iff

lemma hs_inv_boss: "boss_step s s' \<Longrightarrow> hs_inv s \<Longrightarrow> hs_inv s'"
  by (erule boss_step.cases) (auto simp: hs_inv_def hs_inv_defs)

lemma hs_inv_spurious: "spurious_step s s' \<Longrightarrow> hs_inv s \<Longrightarrow> hs_inv s'"
  by (erule spurious_step.cases) (auto simp: hs_inv_def hs_inv_defs)

lemma hs_inv_destructor: "destructor_step s s' \<Longrightarrow> hs_inv s \<Longrightarrow> hs_inv s'"
  by (erule destructor_step.cases) (auto simp: hs_inv_def hs_inv_defs)

lemma notify_boss [simp]:
  "(case p of BWait b \<Rightarrow> BWait True | q \<Rightarrow> q) = BTest \<longleftrightarrow> p = BTest"
  "(case p of BWait b \<Rightarrow> BWait True | q \<Rightarrow> q) = BStart \<longleftrightarrow> p = BStart"
  "(case p of BWait b \<Rightarrow> BWait True | q \<Rightarrow> q) = BSem \<longleftrightarrow> p = BSem"
  "(case p of BWait b \<Rightarrow> BWait True | q \<Rightarrow> q) = BReturned \<longleftrightarrow> p = BReturned"
  "(case p of BWait b \<Rightarrow> BWait True | q \<Rightarrow> q) = BQuit \<longleftrightarrow> p = BQuit"
  "(case p of BWait b \<Rightarrow> BWait True | q \<Rightarrow> q) = BJoin \<longleftrightarrow> p = BJoin"
  "(case p of BWait b \<Rightarrow> BWait True | q \<Rightarrow> q) = BEnd \<longleftrightarrow> p = BEnd"
  "(case p of BWait b \<Rightarrow> BWait True | q \<Rightarrow> q) = BLock \<longleftrightarrow> p = BLock"
  "(case p of BWait b \<Rightarrow> BWait True | q \<Rightarrow> q) \<noteq> BWait False"
  "(case p of BWait b \<Rightarrow> BWait True | q \<Rightarrow> q) = BWait True \<longleftrightarrow> (\<exists>b. p = BWait b)"
  by (simp_all split: boss_pc.splits)

lemma mutex_ok_worker: "worker_step s s' \<Longrightarrow> mutex_ok s \<Longrightarrow> mutex_ok s'"
  by (erule worker_step.cases) (auto simp: mutex_ok_def)

lemma semaphore_ok_worker: "worker_step s s' \<Longrightarrow> semaphore_ok s \<Longrightarrow> semaphore_ok s'"
  by (erule worker_step.cases) (auto simp: semaphore_ok_def)

lemma life_ok_worker: "worker_step s s' \<Longrightarrow> life_ok s \<Longrightarrow> life_ok s'"
  by (erule worker_step.cases) (simp_all add: life_ok_def published_def)

lemma wait_ok_worker: "worker_step s s' \<Longrightarrow> wait_ok s \<Longrightarrow> quit_ok s \<Longrightarrow> wait_ok s'"
  by (erule worker_step.cases) (auto simp: wait_ok_def quit_ok_def starting_def)

lemma quit_ok_worker: "worker_step s s' \<Longrightarrow> quit_ok s \<Longrightarrow> quit_ok s'"
  by (erule worker_step.cases) (auto simp: quit_ok_def starting_iff published_def ended_def)

lemma hs_inv_worker: "worker_step s s' \<Longrightarrow> hs_inv s \<Longrightarrow> hs_inv s'"
  unfolding hs_inv_def
  using mutex_ok_worker semaphore_ok_worker life_ok_worker wait_ok_worker quit_ok_worker by blast

lemma hs_inv_step: "hs_step s s' \<Longrightarrow> hs_inv s \<Longrightarrow> hs_inv s'"
  unfolding hs_step_def
  using hs_inv_boss hs_inv_spurious hs_inv_destructor hs_inv_worker by blast

lemma hs_reachable_inv: "hs_reachable s \<Longrightarrow> hs_inv s"
  unfolding hs_reachable_def
proof (induction rule: rtranclp_induct)
  case base
  show ?case by (simp add: hs_inv_def hs_inv_defs hs_start_def)
next
  case (step s s')
  then show ?case using hs_inv_step by blast
qed

section \<open>Starting always succeeds\<close>

definition boss_rank :: "bool \<Rightarrow> boss_pc \<Rightarrow> nat" where
  "boss_rank pub p = (case p of BStart \<Rightarrow> 9 | BSem \<Rightarrow> 8 | BLock \<Rightarrow> 7 | BTest \<Rightarrow> if pub then 3 else 6
     | BWait b \<Rightarrow> if b then 4 else 5 | _ \<Rightarrow> 0)"

definition worker_rank :: "worker_pc \<Rightarrow> nat" where
  "worker_rank p = (case p of WNone \<Rightarrow> 7 | WTid \<Rightarrow> 7 | WPost \<Rightarrow> 6 | WConstruct \<Rightarrow> 5 | WInit \<Rightarrow> 4
     | WLock \<Rightarrow> 3 | WPublish \<Rightarrow> 2 | _ \<Rightarrow> 0)"

definition start_rank :: "handshake \<Rightarrow> nat" where
  "start_rank s = boss_rank (loop_set s) (boss s) + worker_rank (worker s)"

lemmas rank_defs = start_rank_def boss_rank_def worker_rank_def

definition can_step :: "handshake \<Rightarrow> bool" where
  "can_step s \<longleftrightarrow> (\<exists>s'. hs_progress s s' \<and> start_rank s' < start_rank s)"

lemma boss_can_step: "boss_step s s' \<Longrightarrow> start_rank s' < start_rank s \<Longrightarrow> can_step s"
  unfolding can_step_def hs_progress_def by blast

lemma worker_can_step: "worker_step s s' \<Longrightarrow> start_rank s' < start_rank s \<Longrightarrow> can_step s"
  unfolding can_step_def hs_progress_def by blast

lemma publish_can_step: "worker s = WPublish \<Longrightarrow> boss s \<noteq> BTest \<Longrightarrow> can_step s"
  by (rule worker_can_step [OF publish]) (auto simp: rank_defs split: boss_pc.splits)

lemma hs_inv_parts:
  assumes "hs_inv s"
  shows "mutex_ok s" "semaphore_ok s" "life_ok s" "wait_ok s" "quit_ok s"
  using assms by (simp_all add: hs_inv_def)

lemma hs_inv_mutex:
  assumes "hs_inv s"
  shows "mutex s = Boss \<Longrightarrow> boss s = BTest" "mutex s = Worker \<Longrightarrow> worker s = WPublish \<or> worker s = WClear"
  using hs_inv_parts(1) [OF assms] by (simp_all add: mutex_ok_def)

lemma hs_inv_semaphore:
  assumes "hs_inv s"
  shows "boss s = BStart \<Longrightarrow> worker s = WNone"
    "boss s = BSem \<Longrightarrow> 0 < semaphore s \<or> worker s = WTid \<or> worker s = WPost"
    "worker s = WNone \<Longrightarrow> boss s = BStart" "worker s = WTid \<or> worker s = WPost \<Longrightarrow> boss s = BSem"
  using hs_inv_parts(2) [OF assms] unfolding semaphore_ok_def by blast+

lemma hs_inv_wait:
  assumes "hs_inv s"
  shows "boss s = BWait True \<Longrightarrow> loop_set s" "boss s = BWait False \<Longrightarrow> \<not> loop_set s"
    "loop_set s \<longleftrightarrow> published (worker s)"
  using hs_inv_parts(3,4) [OF assms] by (simp_all add: wait_ok_def life_ok_def)

lemma hs_inv_quit:
  assumes "hs_inv s"
  shows "starting (boss s) \<Longrightarrow> worker s \<noteq> WLockEnd \<and> worker s \<noteq> WClear \<and> \<not> ended (worker s)"
    "boss s = BReturned \<or> boss s = BQuit \<Longrightarrow> worker s = WEnterLoop \<or> worker s = WLooping"
  using hs_inv_parts(5) [OF assms] unfolding quit_ok_def by blast+

lemma hs_inv_life:
  assumes "hs_inv s" and "worker s = WEnterLoop \<or> worker s = WLooping"
  shows "loop_set s \<and> loop_alive s \<and> init_done s \<and> tid_stored s"
  using hs_inv_parts(3) [OF assms(1)] assms(2) by (elim disjE) (simp_all add: life_ok_def published_def)

lemma free_or_publishing:
  "hs_inv s \<Longrightarrow> starting (boss s) \<Longrightarrow> boss s \<noteq> BTest \<Longrightarrow> mutex s = Nobody \<or> worker s = WPublish"
  using hs_inv_mutex [of s] hs_inv_quit(1) [of s] by (cases "mutex s") auto

lemma sem_can_step:
  assumes inv: "hs_inv s" and b: "boss s = BSem"
  shows "can_step s"
proof (cases "0 < semaphore s")
  case True
  then show ?thesis using b by (intro boss_can_step [OF sem_wait]) (simp_all add: rank_defs)
next
  case False
  then have "worker s = WTid \<or> worker s = WPost" using hs_inv_semaphore(2) [OF inv b] by auto
  then show ?thesis
    by (auto intro: worker_can_step [OF store_tid] worker_can_step [OF sem_post] simp: rank_defs)
qed

lemma wait_can_step:
  assumes inv: "hs_inv s" and b: "boss s = BWait w"
  shows "can_step s"
proof (cases w)
  case True
  then have set: "loop_set s" using hs_inv_wait(1) [OF inv] b by simp
  moreover have "mutex s = Nobody"
    using free_or_publishing [OF inv] hs_inv_wait(3) [OF inv] b set by (auto simp: published_def starting_iff)
  ultimately show ?thesis using b True by (intro boss_can_step [OF woken]) (simp_all add: rank_defs)
next
  case False
  then have "worker s \<in> {WConstruct, WInit, WLock, WPublish}"
    using hs_inv_wait(2,3) [OF inv] hs_inv_semaphore(3,4) [OF inv] hs_inv_quit(1) [OF inv] b
    by (cases "worker s") (simp_all add: published_def ended_def starting_iff)
  moreover have "worker s = WLock \<Longrightarrow> mutex s = Nobody"
    using free_or_publishing [OF inv] b by (fastforce simp: starting_iff)
  ultimately show ?thesis
    using b publish_can_step
    by (auto intro: worker_can_step [OF construct_loop] worker_can_step [OF init_callback]
        worker_can_step [OF worker_lock] simp: rank_defs)
qed

lemma start_can_step:
  assumes inv: "hs_inv s" and st: "starting (boss s)"
  shows "can_step s"
proof (cases "boss s")
  case BStart
  then show ?thesis using hs_inv_semaphore(1) [OF inv]
    by (intro boss_can_step [OF thread_start]) (simp_all add: rank_defs)
next
  case BSem
  then show ?thesis by (rule sem_can_step [OF inv])
next
  case BLock
  show ?thesis
  proof (cases "mutex s = Nobody")
    case True
    then show ?thesis using BLock by (intro boss_can_step [OF lock]) (simp_all add: rank_defs)
  next
    case False
    then have "worker s = WPublish" using BLock assms free_or_publishing by fastforce
    then show ?thesis using BLock by (intro publish_can_step) simp_all
  qed
next
  case BTest
  then show ?thesis
    by (cases "loop_set s")
       (auto intro: boss_can_step [OF test_set] boss_can_step [OF test_null] simp: rank_defs)
next
  case (BWait w)
  then show ?thesis by (rule wait_can_step [OF inv])
qed (use st in \<open>auto simp: starting_iff\<close>)

lemma hs_progress_step: "hs_progress s s' \<Longrightarrow> hs_step s s'"
  by (auto simp: hs_progress_def hs_step_def)

lemma worker_keeps_boss:
  "worker_step s s' \<Longrightarrow> starting (boss s') \<longleftrightarrow> starting (boss s)"
  by (erule worker_step.cases) (auto simp: starting_iff)

lemma boss_starting_or_returned:
  "boss_step s s' \<Longrightarrow> starting (boss s') \<or> boss s' = BReturned"
  by (erule boss_step.cases) (auto simp: starting_def)

lemma start_returns:
  assumes "hs_inv s" and "starting (boss s)"
  shows "\<exists>s'. hs_progress\<^sup>*\<^sup>* s s' \<and> boss s' = BReturned"
  using assms
proof (induction "start_rank s" arbitrary: s rule: less_induct)
  case less
  obtain s1 where s1: "hs_progress s s1" "start_rank s1 < start_rank s"
    using start_can_step [OF less.prems] by (auto simp: can_step_def)
  have inv: "hs_inv s1" using hs_inv_step [OF hs_progress_step [OF s1(1)] less.prems(1)] .
  have "starting (boss s1) \<or> boss s1 = BReturned"
    using s1(1) less.prems(2) worker_keeps_boss boss_starting_or_returned
    by (auto simp: hs_progress_def)
  then show ?case
  proof
    assume "starting (boss s1)"
    then obtain s' where "hs_progress\<^sup>*\<^sup>* s1 s'" "boss s' = BReturned"
      using less.hyps [OF s1(2) inv] by blast
    then show ?thesis using converse_rtranclp_into_rtranclp [of hs_progress, OF s1(1)] by blast
  qed (use s1(1) in blast)
qed

section \<open>Properties\<close>

text \<open>C18. \<open>startLoop\<close> is safe and always gets there. Whenever it has returned, and until the loop is
  told to quit, the pointer it returned refers to a loop that is constructed, initialised and alive,
  and the thread's number is known; and from every state before that, without the help of a spurious
  wakeup, the two threads can go on to where it returns: no notification is lost and there is no
  deadlock.\<close>

theorem startLoop_returns_live_loop:
  assumes "hs_reachable s"
  shows "(boss s = BReturned \<or> boss s = BQuit \<longrightarrow> loop_set s \<and> loop_alive s \<and> init_done s \<and> tid_stored s)
    \<and> (starting (boss s) \<longrightarrow> (\<exists>s'. hs_progress\<^sup>*\<^sup>* s s' \<and> boss s' = BReturned))"
proof -
  have inv: "hs_inv s" by (rule hs_reachable_inv [OF assms])
  have "loop_set s \<and> loop_alive s \<and> init_done s \<and> tid_stored s" if "boss s = BReturned \<or> boss s = BQuit"
  proof -
    show ?thesis by (rule hs_inv_life [OF inv hs_inv_quit(2) [OF inv that]])
  qed
  then show ?thesis using start_returns [OF inv] by blast
qed

theorem startLoop_returns_live_loop_witness:
  "\<exists>s'. hs_progress\<^sup>*\<^sup>* hs_start s' \<and> boss s' = BReturned"
proof -
  have "hs_reachable hs_start" by (simp add: hs_reachable_def)
  from startLoop_returns_live_loop [OF this] show ?thesis
    by (simp add: hs_start_def starting_def)
qed

text \<open>The worker runs first, up to where it has published the loop but not called \<open>loop\<close>; the boss
  then returns from \<open>startLoop\<close> and runs the destructor up to \<open>join\<close>.\<close>

lemma early_destructor:
  "hs_reachable \<lparr>boss = BJoin, worker = WLooping, mutex = Nobody, semaphore = 0, tid_stored = True,
     loop_set = True, loop_alive = True, init_done = True, loop_quit_flag = False\<rparr>"
proof -
  have go: "hs_reachable s'" if "hs_reachable s" "hs_step s s'" for s s'
    using that unfolding hs_reachable_def by (rule rtranclp.rtrancl_into_rtrancl)
  have b: "hs_reachable s'" if "hs_reachable s" "boss_step s s'" for s s'
    using go that by (simp add: hs_step_def)
  have w: "hs_reachable s'" if "hs_reachable s" "worker_step s s'" for s s'
    using go that by (simp add: hs_step_def)
  have d: "hs_reachable s'" if "hs_reachable s" "destructor_step s s'" for s s'
    using go that by (simp add: hs_step_def)
  have 0: "hs_reachable hs_start" by (simp add: hs_reachable_def)
  note 1 = b [OF 0 thread_start, unfolded hs_start_def, simplified]
  note 2 = w [OF 1 store_tid, simplified]
  note 3 = w [OF 2 sem_post, simplified]
  note 4 = b [OF 3 sem_wait, simplified]
  note 5 = w [OF 4 construct_loop, simplified]
  note 6 = w [OF 5 init_callback, simplified]
  note 7 = w [OF 6 worker_lock, simplified]
  note 8 = w [OF 7 publish, simplified]
  note 9 = b [OF 8 lock, simplified]
  note 10 = b [OF 9 test_set, simplified]
  note 11 = d [OF 10 see_loop, simplified]
  note 12 = d [OF 11 call_quit, simplified]
  note 13 = w [OF 12 enter_loop, simplified]
  show ?thesis by (rule 13)
qed

lemma hung_no_step:
  assumes "boss s = BJoin" and "worker s = WLooping" and "\<not> loop_quit_flag s"
  shows "\<not> hs_step s s'"
proof -
  have "\<not> boss_step s s'" using assms(1) by (auto elim!: boss_step.cases)
  moreover have "\<not> spurious_step s s'" using assms(1) by (auto elim!: spurious_step.cases)
  moreover have "\<not> destructor_step s s'" using assms(1,2) by (auto elim!: destructor_step.cases)
  moreover have "\<not> worker_step s s'" using assms(2,3) by (auto elim!: worker_step.cases)
  ultimately show ?thesis by (simp add: hs_step_def)
qed

text \<open>C34. The destructor of \<open>EventLoopThread\<close> can hang for good: when it runs before the new thread has
  entered \<open>loop\<close>, its \<open>quit\<close> is overwritten there, and the thread loops while the destructor waits
  in \<open>join\<close>; neither thread has a step left that would end this.\<close>

theorem destructor_can_hang:
  "\<exists>s. hs_reachable s \<and> boss s = BJoin \<and> worker s = WLooping \<and> \<not> loop_quit_flag s
    \<and> (\<nexists>s'. hs_step s s')"
proof -
  let ?s = "\<lparr>boss = BJoin, worker = WLooping, mutex = Nobody, semaphore = 0, tid_stored = True,
     loop_set = True, loop_alive = True, init_done = True, loop_quit_flag = False\<rparr>"
  have "\<not> hs_step ?s s'" for s' by (rule hung_no_step) simp_all
  then show ?thesis using early_destructor by (intro exI [of _ ?s]) auto
qed

end
