(* ===== verification/Logger.thy ===== *)
theory Logger
  imports Format
begin

text \<open>
  The classes \<open>Timestamp\<close> (\<open>src/timestamp.h\<close>, \<open>src/timestamp.cc\<close>) and \<open>Logger\<close> (\<open>src/logger.h\<close>,
  \<open>src/logger.cc\<close>). The clock is the parameter \<open>now\<close>, in seconds, and \<open>localtime\<close> is a parameter
  too. What \<open>log\<close> prints is appended to a string. The other theories leave these effects out: logging
  changes no state they model, except that \<open>LOG_FATAL\<close> ends the process.
\<close>

section \<open>Timestamp\<close>

record timestamp =
  microseconds_since_epoch :: int

record tm =
  tm_sec :: int
  tm_min :: int
  tm_hour :: int
  tm_mday :: int
  tm_mon :: int
  tm_year :: int

definition Timestamp_zero :: timestamp where
  "Timestamp_zero = \<lparr>microseconds_since_epoch = 0\<rparr>"

definition Timestamp_new :: "int \<Rightarrow> timestamp" where
  "Timestamp_new us = \<lparr>microseconds_since_epoch = us\<rparr>"

definition Timestamp_now :: "int \<Rightarrow> timestamp" where
  "Timestamp_now time = Timestamp_new time"

definition fmt :: "char \<Rightarrow> nat \<Rightarrow> int \<Rightarrow> string" where
  "fmt c w i = pad c w (show_int i)"

definition Timestamp_toString :: "(int \<Rightarrow> tm) \<Rightarrow> timestamp \<Rightarrow> string" where
  "Timestamp_toString localtime ts =
     (let tm_time = localtime (microseconds_since_epoch ts) in
      snprintf_text 128
        (''XXXXX'' @ fmt CHR '' '' 4 (tm_year tm_time + 1900) @ ''/''
         @ fmt CHR ''0'' 2 (tm_mon tm_time + 1) @ ''/'' @ fmt CHR ''0'' 2 (tm_mday tm_time) @ '' ''
         @ fmt CHR '' '' 2 (tm_hour tm_time) @ '':'' @ fmt CHR ''0'' 2 (tm_min tm_time) @ '':''
         @ fmt CHR ''0'' 2 (tm_sec tm_time)))"

section \<open>Logger\<close>

datatype log_level = INFO | ERROR | FATAL | DEBUG

definition level_code :: "log_level \<Rightarrow> int" where
  "level_code l = (case l of INFO \<Rightarrow> 0 | ERROR \<Rightarrow> 1 | FATAL \<Rightarrow> 2 | DEBUG \<Rightarrow> 3)"

record logger =
  log_level_field :: int
  printed :: string

definition setLogLevel :: "int \<Rightarrow> logger \<Rightarrow> logger" where
  "setLogLevel level lg = lg\<lparr>log_level_field := level\<rparr>"

definition level_tag :: "int \<Rightarrow> string" where
  "level_tag level =
     (if level = level_code INFO then ''[INFO]''
      else if level = level_code ERROR then ''[ERROR]''
      else if level = level_code FATAL then ''[FATAL]''
      else if level = level_code DEBUG then ''[DEBUG]''
      else [])"

definition log_message :: "(int \<Rightarrow> tm) \<Rightarrow> int \<Rightarrow> string \<Rightarrow> logger \<Rightarrow> logger" where
  "log_message localtime now msg lg =
     lg\<lparr>printed := printed lg @ level_tag (log_level_field lg)
       @ Timestamp_toString localtime (Timestamp_now now) @ '' : '' @ msg @ [CHR 0x0A]\<rparr>"

text \<open>The macros, on an already formatted text; \<open>LOG_FATAL\<close> exits after printing.\<close>

definition LOG :: "(int \<Rightarrow> tm) \<Rightarrow> int \<Rightarrow> log_level \<Rightarrow> string \<Rightarrow> logger \<Rightarrow> logger res" where
  "LOG localtime now level text lg =
     (let lg = setLogLevel (level_code level) lg;
          lg = log_message localtime now (snprintf_text 1024 text) lg
      in if level = FATAL then Inl FatalExit else Inr lg)"

section \<open>Lemmas\<close>

text \<open>Dates are not truncated, and logging never fails except for \<open>LOG_FATAL\<close>.\<close>

lemma LOG_result: "LOG localtime now level text lg = Inl e \<longleftrightarrow> level = FATAL \<and> e = FatalExit"
  by (auto simp: LOG_def Let_def)

lemma fmt_length: "0 < k \<Longrightarrow> - (10 ^ k) < i \<Longrightarrow> i < 10 ^ k \<Longrightarrow> w \<le> Suc k \<Longrightarrow> length (fmt c w i) \<le> Suc k"
  using show_int_length [of k i] by (simp add: fmt_def pad_def)

definition int32 :: "int \<Rightarrow> bool" where
  "int32 i \<longleftrightarrow> - (2 ^ 31) \<le> i \<and> i < 2 ^ 31"

lemma fmt_int32_length: "int32 i \<Longrightarrow> w \<le> 11 \<Longrightarrow> length (fmt c w i) \<le> 11"
  using fmt_length [of 10 i w c] by (simp add: int32_def)

lemma toString_complete:
  assumes "int32 (tm_year t + 1900)" "int32 (tm_mon t + 1)" "int32 (tm_mday t)" "int32 (tm_hour t)"
    "int32 (tm_min t)" "int32 (tm_sec t)"
  shows "Timestamp_toString (\<lambda>_. t) ts =
    ''XXXXX'' @ fmt CHR '' '' 4 (tm_year t + 1900) @ ''/'' @ fmt CHR ''0'' 2 (tm_mon t + 1) @ ''/''
      @ fmt CHR ''0'' 2 (tm_mday t) @ '' '' @ fmt CHR '' '' 2 (tm_hour t) @ '':''
      @ fmt CHR ''0'' 2 (tm_min t) @ '':'' @ fmt CHR ''0'' 2 (tm_sec t)"
  using fmt_int32_length [OF assms(1), of 4 "CHR '' ''"] fmt_int32_length [OF assms(2), of 2 "CHR ''0''"]
    fmt_int32_length [OF assms(3), of 2 "CHR ''0''"] fmt_int32_length [OF assms(4), of 2 "CHR '' ''"]
    fmt_int32_length [OF assms(5), of 2 "CHR ''0''"] fmt_int32_length [OF assms(6), of 2 "CHR ''0''"]
  unfolding Timestamp_toString_def Let_def
  by (intro snprintf_text_fits) simp



end
