(* ===== verification/Sound.thy ===== *)
theory Sound
  imports ConnectionFacts Evolution
begin

text \<open>
  Memory safety of single operations. \<open>sound P r\<close>: the result \<open>r\<close> is not a memory error, and satisfies
  \<open>P\<close> if the operation returned; exceptions and \<open>LOG_FATAL\<close> are allowed. \<open>kernel_ok\<close> is what the code
  relies on of the system, for two views of its state: the interest lists and the open descriptors.
  \<open>cx_ok\<close> is the invariant of one connection in its context, \<open>cx_step\<close> says what an operation on it
  leaves alone; each operation of \<open>TcpConnection\<close> that calls no user code is sound for them.
\<close>

section \<open>Results without memory errors\<close>

definition memory_error :: "cpp_error \<Rightarrow> bool" where
  "memory_error e \<longleftrightarrow> e \<in> {OutOfBounds, DanglingPointer, NullPointer, MissingReturn}"

abbreviation sound :: "('a \<Rightarrow> bool) \<Rightarrow> 'a res \<Rightarrow> bool" where
  "sound \<equiv> outcome (\<lambda>e. \<not> memory_error e)"

lemma memory_error_simps [simp]:
  "memory_error OutOfBounds" "memory_error DanglingPointer" "memory_error NullPointer"
  "memory_error MissingReturn" "\<not> memory_error LengthError" "\<not> memory_error BadFunctionCall"
  "\<not> memory_error FatalExit" "\<not> memory_error SignedOverflow"
  by (simp_all add: memory_error_def)

lemmas sound_Inr = outcome_Inr [where ok = "\<lambda>e. \<not> memory_error e"]
  and sound_mono = outcome_mono [where ok = "\<lambda>e. \<not> memory_error e"]
  and sound_conj = outcome_conj [where ok = "\<lambda>e. \<not> memory_error e"]
  and sound_bind = outcome_bind [where ok = "\<lambda>e. \<not> memory_error e"]
  and sound_fold = outcome_fold [where ok = "\<lambda>e. \<not> memory_error e"]

lemma sound_if: "(b \<Longrightarrow> sound P r) \<Longrightarrow> (\<not> b \<Longrightarrow> sound P s) \<Longrightarrow> sound P (if b then r else s)"
  by simp

section \<open>Buffers\<close>

lemma buffer_put_sound:
  assumes "buf_inv b" and "length d \<le> vec_max"
  shows "sound buf_inv (buffer_put A d b)"
  using buffer_put_fits [OF assms(1), of d A] buffer_put_grows [OF assms(1), of d A]
    buffer_put_too_long [OF assms(1) _ assms(2), of A]
  by (cases "fits (length d) b"; cases "write_index b + length d \<le> vec_max") auto

lemma buffer_put_read_index:
  "buffer_put A d b = Inr b' \<Longrightarrow> read_index b = 0 \<Longrightarrow> read_index b' = 0"
  by (auto simp: buffer_put_def res_iff checkBuffer_def makeSpace_def vec_resize_def Let_def KCheapPrepend_def
      split: if_split_asm)

text \<open>A buffer of which nothing or everything has been taken, so that reading starts at its front. In
  one from which a part was taken, \<open>read\<close> may set the write index before the read index.\<close>

definition front_inv :: "buffer \<Rightarrow> bool" where
  "front_inv b \<longleftrightarrow> buf_inv b \<and> read_index b = 0"

lemma buffer_absorb_sound:
  assumes "front_inv b" and "length d \<le> sum_list (buffer_iov b)" and "length d \<le> vec_max"
  shows "sound front_inv (buffer_absorb A d b)"
proof (cases "length d \<le> writableBytes b")
  case True
  have "buf_inv b" using assms(1) by (simp add: front_inv_def)
  then obtain b' where b': "buffer_absorb A d b = Inr b'" "buf_inv b'"
    using buffer_absorb_small [OF _ True, of A] by blast
  then have "read_index b' = read_index b"
    using True by (auto simp: buffer_absorb_def Let_def res_iff split: if_split_asm)
  then show ?thesis using b' assms(1) by (simp add: front_inv_def)
next
  case False
  have b: "buf_inv b" "read_index b = 0" using assms(1) by (simp_all add: front_inv_def)
  have inv: "buf_inv (absorb_filled d b)"
    using absorb_filled_inv [OF b(1)] b(2) False by simp
  have "sound buf_inv (buffer_put A (drop (writableBytes b) d) (absorb_filled d b))"
    using buffer_put_sound [OF inv] assms(3) by simp
  then have "sound front_inv (buffer_put A (drop (writableBytes b) d) (absorb_filled d b))"
    by (rule sound_mono)
       (use b(2) buffer_put_read_index in \<open>simp add: front_inv_def absorb_filled_def\<close>)
  then show ?thesis
    using buffer_absorb_large [OF b(1) _ assms(2)] False by simp
qed

section \<open>The system\<close>

text \<open>
  What the manual pages promise, for two views of the system: \<open>v k ep\<close> is the interest list of the
  epoll instance \<open>ep\<close>, \<open>opn k\<close> the open descriptors. \<open>epoll_wait\<close> reports what is registered and no
  more events than asked for; \<open>readv\<close> and \<open>write\<close> transfer at most what they are given; a new
  descriptor was not open; \<open>close\<close> touches only its descriptor.
\<close>

type_synonym interest_view = "int \<Rightarrow> int \<Rightarrow> (32 word \<times> chan_ptr) option"

definition keeps_views :: "('k \<Rightarrow> interest_view) \<Rightarrow> ('k \<Rightarrow> int set) \<Rightarrow> 'k \<Rightarrow> 'k \<Rightarrow> bool" where
  "keeps_views v opn k k' \<longleftrightarrow> v k' = v k \<and> opn k' = opn k"

definition opens :: "('k \<Rightarrow> interest_view) \<Rightarrow> ('k \<Rightarrow> int set) \<Rightarrow> 'k \<Rightarrow> (int + int) \<times> 'k \<Rightarrow> bool" where
  "opens v opn k s \<longleftrightarrow> (case s of (r, k') \<Rightarrow> v k' = v k \<and>
     (case r of Inl _ \<Rightarrow> opn k' = opn k | Inr fd \<Rightarrow> fd \<notin> opn k \<and> opn k' = insert fd (opn k)))"

definition wait_reports :: "'k os \<Rightarrow> ('k \<Rightarrow> interest_view) \<Rightarrow> ('k \<Rightarrow> int set) \<Rightarrow> bool" where
  "wait_reports os v opn \<longleftrightarrow> (\<forall>ep n t k r k'. sys_epoll_wait os ep n t k = (r, k') \<longrightarrow>
     keeps_views v opn k k' \<and>
     (\<forall>es. r = Inr es \<longrightarrow> length es \<le> n \<and> (\<forall>(ev, p) \<in> set es. \<exists>fd m. v k ep fd = Some (m, p))))"

definition transfers_ok :: "'k os \<Rightarrow> ('k \<Rightarrow> interest_view) \<Rightarrow> ('k \<Rightarrow> int set) \<Rightarrow> bool" where
  "transfers_ok os v opn \<longleftrightarrow>
     (\<forall>fd lens k r k'. sys_readv os fd lens k = (r, k') \<longrightarrow> keeps_views v opn k k' \<and>
        (\<forall>d. r = Inr d \<longrightarrow> length d \<le> sum_list lens \<and> length d \<le> vec_max))
     \<and> (\<forall>fd d k r k'. sys_write os fd d k = (r, k') \<longrightarrow> keeps_views v opn k k' \<and>
        (\<forall>n. r = Inr n \<longrightarrow> n \<le> length d))
     \<and> (\<forall>fd n k. keeps_views v opn k (snd (sys_read os fd n k)))"

definition descriptors_ok :: "'k os \<Rightarrow> ('k \<Rightarrow> interest_view) \<Rightarrow> ('k \<Rightarrow> int set) \<Rightarrow> bool" where
  "descriptors_ok os v opn \<longleftrightarrow>
     (\<forall>fd k r k'. sys_accept4 os fd k = (r, k') \<longrightarrow> opens v opn k (map_sum id fst r, k'))
     \<and> (\<forall>k. opens v opn k (sys_socket os k)) \<and> (\<forall>k. opens v opn k (sys_eventfd os k))
     \<and> (\<forall>k r k'. sys_epoll_create os k = (r, k') \<longrightarrow>
          (case r of Inl _ \<Rightarrow> keeps_views v opn k k'
           | Inr fd \<Rightarrow> fd \<notin> opn k \<and> opn k' = insert fd (opn k) \<and> v k' = (v k)(fd := \<lambda>_. None)))
     \<and> (\<forall>fd k. let k' = snd (sys_close os fd k) in opn k - {fd} \<subseteq> opn k' \<and> opn k' \<subseteq> opn k
          \<and> (\<forall>ep x. ep \<noteq> fd \<longrightarrow> v k' ep x = v k ep x \<or> x = fd \<and> v k' ep x = None))"

definition quiet_calls :: "'k os \<Rightarrow> ('k \<Rightarrow> interest_view) \<Rightarrow> ('k \<Rightarrow> int set) \<Rightarrow> bool" where
  "quiet_calls os v opn \<longleftrightarrow>
     (\<forall>ep op fd ev p k. opn (snd (sys_epoll_ctl os ep op fd ev p k)) = opn k)
     \<and> (\<forall>fd k. keeps_views v opn k (snd (sys_shutdown_wr os fd k)))
     \<and> (\<forall>fd a k. keeps_views v opn k (snd (sys_bind os fd a k)))
     \<and> (\<forall>fd n k. keeps_views v opn k (snd (sys_listen os fd n k)))
     \<and> (\<forall>fd opt x k. keeps_views v opn k (snd (sys_setsockopt os fd opt x k)))
     \<and> (\<forall>fd k. keeps_views v opn k (snd (sys_so_error os fd k)))
     \<and> (\<forall>fd k. keeps_views v opn k (snd (sys_getsockname os fd k)))
     \<and> (\<forall>k. keeps_views v opn k (snd (sys_time os k)))"

definition kernel_ok :: "'k os \<Rightarrow> ('k \<Rightarrow> interest_view) \<Rightarrow> ('k \<Rightarrow> int set) \<Rightarrow> bool" where
  "kernel_ok os v opn \<longleftrightarrow> epoll_ok os v \<and> wait_reports os v opn \<and> transfers_ok os v opn
     \<and> descriptors_ok os v opn \<and> quiet_calls os v opn"

lemma keeps_views_simps:
  "keeps_views v opn k k" "keeps_views v opn a b \<Longrightarrow> keeps_views v opn b c \<Longrightarrow> keeps_views v opn a c"
  by (simp_all add: keeps_views_def)

lemma kernel_okD:
  assumes "kernel_ok os v opn"
  shows "epoll_ok os v" "wait_reports os v opn" "transfers_ok os v opn" "descriptors_ok os v opn"
    "quiet_calls os v opn"
  using assms by (simp_all add: kernel_ok_def)

lemma kernel_write:
  assumes "kernel_ok os v opn" and "sys_write os fd d k = (r, k')"
  shows "keeps_views v opn k k'" "r = Inr n \<Longrightarrow> n \<le> length d"
  using kernel_okD(3) [OF assms(1)] assms(2) unfolding transfers_ok_def by blast+

lemma kernel_quiet:
  assumes "kernel_ok os v opn"
  shows "opn (snd (sys_epoll_ctl os ep op fd ev p k)) = opn k"
    "keeps_views v opn k (snd (sys_shutdown_wr os fd k))"
    "keeps_views v opn k (snd (sys_bind os fd a k))"
    "keeps_views v opn k (snd (sys_listen os fd n k))"
    "keeps_views v opn k (snd (sys_setsockopt os fd opt x k))"
    "keeps_views v opn k (snd (sys_so_error os fd k))"
    "keeps_views v opn k (snd (sys_getsockname os fd k))"
    "keeps_views v opn k (snd (sys_time os k))"
    "keeps_views v opn k (snd (sys_read os fd n k))"
    "keeps_views v opn k (snd (sys_write os fd d k))"
  using kernel_okD(3,5) [OF assms]
    kernel_write(1) [OF assms, of fd d k "fst (sys_write os fd d k)" "snd (sys_write os fd d k)"]
  by (simp_all add: quiet_calls_def transfers_ok_def)

section \<open>The poller\<close>

lemma epoll_update_result:
  assumes "kernel_ok os v opn" and "epoll_update os op p (k, po, ch) = Inr (k', po', ch')"
  shows "po' = po" "ch' = ch" "opn k' = opn k"
    "(ep, fd) \<noteq> (epollfd po, ch_fd ch) \<Longrightarrow> v k' ep fd = v k ep fd"
    "op = EPOLL_CTL_DEL \<Longrightarrow> v k' (epollfd po) (ch_fd ch) = None"
    "op \<noteq> EPOLL_CTL_DEL \<Longrightarrow> v k' (epollfd po) (ch_fd ch) = Some (ch_events ch, p)"
proof -
  obtain r k1 where c: "sys_epoll_ctl os (epollfd po) op (ch_fd ch) (ch_events ch) p k = (r, k1)"
    by fastforce
  note D = epoll_okD [OF kernel_okD(1) [OF assms(1)] c]
  have k1: "k' = k1" and rest: "po' = po" "ch' = ch" and err: "op = EPOLL_CTL_DEL \<or> (\<exists>u. r = Inr u)"
    using assms(2) c by (auto simp: epoll_update_def split: sum.splits if_split_asm)
  show "po' = po" "ch' = ch" by (fact rest)+
  show "opn k' = opn k" using kernel_quiet(1) [OF assms(1)] c k1 by (metis snd_conv)
  show "(ep, fd) \<noteq> (epollfd po, ch_fd ch) \<Longrightarrow> v k' ep fd = v k ep fd"
    using D(1) by (simp add: k1)
  show "op = EPOLL_CTL_DEL \<Longrightarrow> v k' (epollfd po) (ch_fd ch) = None"
    using D(2,3,6) k1 by (cases r) auto
  show "op \<noteq> EPOLL_CTL_DEL \<Longrightarrow> v k' (epollfd po) (ch_fd ch) = Some (ch_events ch, p)"
    using D(4,5) err k1 by (cases op) auto
qed

lemma epoll_update_sound: "sound (\<lambda>_. True) (epoll_update os op p s)"
  by (auto simp: epoll_update_def split: prod.splits sum.splits)

text \<open>An update that returns leaves the channel registered as its new state says.\<close>

lemma updateChannel_result:
  assumes "kernel_ok os v opn" and reg: "chan_reg v p (k, po, ch)"
    and "updateChannel os p (k, po, ch) = Inr (k', po', ch')"
  shows "ch' = setState (next_state ch) ch \<and> chan_sync v p (k', po', ch') \<and> opn k' = opn k
    \<and> poll_frame v (k, po, ch) (k', po', ch')"
proof -
  note U = epoll_update_result [OF assms(1)]
  have same: "setState (ch_state ch) ch = ch" by (simp add: setState_def)
  from reg consider "ch_state ch = kChannelInitialized" | "ch_state ch = kChannelRemoved"
    | "ch_state ch = kChannelAdded"
    by (auto simp: chan_reg_simp)
  then show ?thesis
  proof cases
    case 1
    then have u: "epoll_update os EPOLL_CTL_ADD p (k, po\<lparr>channels := (channels po)(ch_fd ch \<mapsto> p)\<rparr>,
        setState kChannelAdded ch) = Inr (k', po', ch')"
      using assms(3) by (simp add: updateChannel_def Let_def)
    show ?thesis
      using 1 U(1-4) [OF u] U(6) [OF u] by (auto simp: next_state_def chan_sync_def chan_reg_simp poll_frame_def)
  next
    case 2
    then have u: "epoll_update os EPOLL_CTL_ADD p (k, po, setState kChannelAdded ch) = Inr (k', po', ch')"
      using assms(3) by (simp add: updateChannel_def Let_def)
    show ?thesis
      using 2 reg U(1-4) [OF u] U(6) [OF u] by (auto simp: next_state_def chan_sync_def chan_reg_simp poll_frame_def)
  next
    case 3
    show ?thesis
    proof (cases "isSilent ch")
      case True
      then obtain k1 po1 ch1 where u: "epoll_update os EPOLL_CTL_DEL p (k, po, ch) = Inr (k1, po1, ch1)"
          "k' = k1" "po' = po1" "ch' = setState kChannelRemoved ch1"
        using assms(3) 3 by (auto simp: updateChannel_def Let_def res_iff)
      show ?thesis
        using True 3 reg U(1-4) [OF u(1)] U(5) [OF u(1)] u(2-)
        by (auto simp: next_state_def chan_sync_def chan_reg_simp poll_frame_def)
    next
      case False
      then have u: "epoll_update os EPOLL_CTL_MOD p (k, po, ch) = Inr (k', po', ch')"
        using assms(3) 3 by (simp add: updateChannel_def Let_def)
      show ?thesis
        using False 3 reg U(1-4) [OF u] U(6) [OF u] same
        by (auto simp: next_state_def chan_sync_def chan_reg_simp poll_frame_def)
    qed
  qed
qed

lemma updateChannel_sound: "sound (\<lambda>_. True) (updateChannel os p s)"
proof (cases s)
  case (fields k po ch)
  show ?thesis
    by (auto simp: fields updateChannel_def Let_def epoll_update_sound intro!: sound_bind [OF epoll_update_sound])
qed

section \<open>One connection in its context\<close>

definition cx_ok :: "('k \<Rightarrow> interest_view) \<Rightarrow> nat \<Rightarrow> 'k cctx \<Rightarrow> bool" where
  "cx_ok v c x \<longleftrightarrow> cx_reg v c x \<and> buf_inv (output_buffer (cx_conn x))"

text \<open>Functors that an operation on connection \<open>c\<close> queues: calls of user code that hold \<open>c\<close>.\<close>

fun user_note :: "nat \<Rightarrow> Functor \<Rightarrow> bool" where
  "user_note c (FWriteComplete cb d) \<longleftrightarrow> d = c"
| "user_note c (FHighWater cb d n) \<longleftrightarrow> d = c"
| "user_note c f \<longleftrightarrow> False"

definition chan_same :: "'cb channel \<Rightarrow> 'cb channel \<Rightarrow> bool" where
  "chan_same ch ch' \<longleftrightarrow> ch_fd ch' = ch_fd ch \<and> read_callback ch' = read_callback ch
     \<and> write_callback ch' = write_callback ch \<and> ch_close_callback ch' = ch_close_callback ch
     \<and> error_callback ch' = error_callback ch"

definition loop_frame :: "event_loop \<Rightarrow> event_loop \<Rightarrow> bool" where
  "loop_frame lp lp' \<longleftrightarrow> loop_grows lp lp' \<and> wakeup_fd lp' = wakeup_fd lp
     \<and> wakeup_channel lp' = wakeup_channel lp \<and> active_channels lp' = active_channels lp
     \<and> poll_return_time lp' = poll_return_time lp"

definition cx_step :: "('k \<Rightarrow> interest_view) \<Rightarrow> ('k \<Rightarrow> int set) \<Rightarrow> nat \<Rightarrow> 'k cctx \<Rightarrow> 'k cctx \<Rightarrow> bool" where
  "cx_step v opn c x x' \<longleftrightarrow> cx_grows x x' \<and> opn (cx_kern x') = opn (cx_kern x)
     \<and> loop_frame (cx_loop x) (cx_loop x') \<and> chan_same (tc_channel (cx_conn x)) (tc_channel (cx_conn x'))
     \<and> (\<exists>fs. pending (cx_loop x') = pending (cx_loop x) @ fs \<and> (\<forall>f \<in> set fs. user_note c f))
     \<and> (\<exists>po po'. poller (cx_loop x) = Some po \<and> poller (cx_loop x') = Some po'
          \<and> poll_frame v (cx_kern x, po, tc_channel (cx_conn x)) (cx_kern x', po', tc_channel (cx_conn x')))"

lemma chan_same_refl [simp, intro]: "chan_same ch ch"
  by (simp add: chan_same_def)

lemma chan_same_trans: "chan_same a b \<Longrightarrow> chan_same b c \<Longrightarrow> chan_same a c"
  by (simp add: chan_same_def)

lemma chan_same_fields [simp]:
  "chan_same ch (ch'\<lparr>ch_events := ev\<rparr>) \<longleftrightarrow> chan_same ch ch'"
  "chan_same ch (ch'\<lparr>ch_revents := ev\<rparr>) \<longleftrightarrow> chan_same ch ch'"
  "chan_same ch (setState st ch') \<longleftrightarrow> chan_same ch ch'"
  "chan_same ch (tie obj ch') \<longleftrightarrow> chan_same ch ch'"
  "chan_same ch (setRevents ev ch') \<longleftrightarrow> chan_same ch ch'"
  by (simp_all add: chan_same_def setState_def tie_def setRevents_def)

lemma loop_frame_refl [simp, intro]: "loop_frame lp lp"
  by (simp add: loop_frame_def)

lemma loop_frame_trans: "loop_frame a b \<Longrightarrow> loop_frame b c \<Longrightarrow> loop_frame a c"
  using loop_grows_trans [of a b c] by (simp add: loop_frame_def)

declare poll_frame_refl [simp, intro]

lemma cx_ok_poller: "cx_ok v c x \<Longrightarrow> \<exists>po. poller (cx_loop x) = Some po"
  by (auto simp: cx_ok_def cx_reg_def split: option.splits)

lemma cx_step_refl: "cx_reg v c x \<Longrightarrow> cx_step v opn c x x"
  by (auto simp: cx_step_def cx_reg_def split: option.splits)

lemma cx_step_trans:
  assumes "cx_step v opn c x y" and "cx_step v opn c y z"
  shows "cx_step v opn c x z"
proof -
  obtain fs gs where q: "pending (cx_loop y) = pending (cx_loop x) @ fs" "\<forall>f \<in> set fs. user_note c f"
      "pending (cx_loop z) = pending (cx_loop y) @ gs" "\<forall>f \<in> set gs. user_note c f"
    using assms unfolding cx_step_def by blast
  have "\<exists>hs. pending (cx_loop z) = pending (cx_loop x) @ hs \<and> (\<forall>f \<in> set hs. user_note c f)"
    using q by (intro exI [of _ "fs @ gs"]) (simp add: ball_Un)
  moreover obtain p1 p2 where "poller (cx_loop x) = Some p1" "poller (cx_loop y) = Some p2"
      "poll_frame v (cx_kern x, p1, tc_channel (cx_conn x)) (cx_kern y, p2, tc_channel (cx_conn y))"
    using assms(1) unfolding cx_step_def by blast
  moreover obtain p3 p4 where "poller (cx_loop y) = Some p3" "poller (cx_loop z) = Some p4"
      "poll_frame v (cx_kern y, p3, tc_channel (cx_conn y)) (cx_kern z, p4, tc_channel (cx_conn z))"
    using assms(2) unfolding cx_step_def by blast
  ultimately have more: "\<exists>po po'. poller (cx_loop x) = Some po \<and> poller (cx_loop z) = Some po'
      \<and> poll_frame v (cx_kern x, po, tc_channel (cx_conn x)) (cx_kern z, po', tc_channel (cx_conn z))"
      "\<exists>hs. pending (cx_loop z) = pending (cx_loop x) @ hs \<and> (\<forall>f \<in> set hs. user_note c f)"
    by (auto intro: poll_frame_trans)
  have "cx_grows x z" "loop_frame (cx_loop x) (cx_loop z)"
      "chan_same (tc_channel (cx_conn x)) (tc_channel (cx_conn z))" "opn (cx_kern z) = opn (cx_kern x)"
    using assms cx_grows_trans [of x y z] loop_frame_trans [of "cx_loop x" "cx_loop y" "cx_loop z"]
      chan_same_trans [of "tc_channel (cx_conn x)" "tc_channel (cx_conn y)"]
    by (simp_all add: cx_step_def)
  then show ?thesis unfolding cx_step_def using more by blast
qed

text \<open>The building blocks: pushes, updates of the registration, changes of the other fields.\<close>

lemma cx_push_step:
  assumes k: "kernel_ok os v opn" and x: "cx_reg v c x" and f: "user_note c f"
  shows "cx_step v opn c x (cx_push os f x)" "cx_reg v c (cx_push os f x)"
proof -
  have kv: "keeps_views v opn (cx_kern x) (cx_kern (cx_push os f x))"
    using cx_push_kern [of os f x] kernel_quiet(10) [OF k] by (auto simp: keeps_views_def)
  obtain po where po: "poller (cx_loop x) = Some po"
    using x by (auto simp: cx_reg_def split: option.splits)
  have g: "loop_grows (cx_loop x) ((cx_loop x)\<lparr>pending := pending (cx_loop x) @ [f]\<rparr>)"
    by (rule loop_grows_fields)
  show "cx_step v opn c x (cx_push os f x)"
    using kv po f g cx_push_grows [of x os f]
    by (auto simp: cx_step_def loop_frame_def keeps_views_def poll_frame_def)
  show "cx_reg v c (cx_push os f x)"
    using x kv by (simp add: cx_reg_def chan_reg_def keeps_views_def split: option.splits)
qed

lemma cx_push_opt_step:
  assumes "kernel_ok os v opn" and "cx_reg v c x" and "\<And>cb. user_note c (mk cb)"
  shows "cx_step v opn c x (cx_push_opt os mk cb x)" "cx_reg v c (cx_push_opt os mk cb x)"
  using cx_push_step [OF assms(1,2)] assms(2,3) cx_step_refl [OF assms(2)]
  by (simp_all add: cx_push_opt_def split: option.splits)

lemma cx_reg_same_chan:
  assumes "cx_kern x' = cx_kern x" "cx_loop x' = cx_loop x"
    and "ch_fd (tc_channel (cx_conn x')) = ch_fd (tc_channel (cx_conn x))"
    and "ch_state (tc_channel (cx_conn x')) = ch_state (tc_channel (cx_conn x))"
  shows "cx_reg v c x' \<longleftrightarrow> cx_reg v c x"
  using assms by (simp add: cx_reg_def chan_reg_simp split: option.splits)

lemma cx_step_local:
  assumes "cx_reg v c x" and "cx_grows x x'" and "cx_kern x' = cx_kern x" "cx_loop x' = cx_loop x"
    and "chan_same (tc_channel (cx_conn x)) (tc_channel (cx_conn x'))"
  shows "cx_step v opn c x x'"
  using assms
  by (auto simp: cx_step_def cx_reg_def poll_frame_def chan_same_def split: option.splits)

lemma cx_step_kern:
  assumes "cx_reg v c x" and "keeps_views v opn (cx_kern x) k"
  shows "cx_step v opn c x (x\<lparr>cx_kern := k\<rparr>)" "cx_reg v c (x\<lparr>cx_kern := k\<rparr>)"
  using assms by (auto simp: cx_step_def cx_reg_def chan_reg_def poll_frame_def keeps_views_def split: option.splits)

lemma cx_update_sound:
  assumes k: "kernel_ok os v opn" and x: "cx_reg v c x"
    and ch: "chan_same (tc_channel (cx_conn x)) ch" "ch_state ch = ch_state (tc_channel (cx_conn x))"
  shows "sound (\<lambda>x'. cx_step v opn c x x' \<and> cx_reg v c x'
    \<and> cx_conn x' = (cx_conn x)\<lparr>tc_channel := setState (next_state ch) ch\<rparr>) (cx_update os c x ch)"
proof -
  obtain po where po: "poller (cx_loop x) = Some po"
      and reg: "chan_reg v (ConnCh c) (cx_kern x, po, tc_channel (cx_conn x))"
    using x by (auto simp: cx_reg_def split: option.splits)
  have fd: "ch_fd ch = ch_fd (tc_channel (cx_conn x))" using ch(1) by (simp add: chan_same_def)
  have reg': "chan_reg v (ConnCh c) (cx_kern x, po, ch)"
    using reg fd ch(2) by (simp add: chan_reg_simp)
  show ?thesis
  proof (cases "updateChannel os (ConnCh c) (cx_kern x, po, ch)")
    case (Inl e)
    then show ?thesis
      using updateChannel_sound [of os "ConnCh c" "(cx_kern x, po, ch)"]
      by (simp add: cx_update_def loop_updateChannel_def po)
  next
    case (Inr s)
    obtain k' po' ch' where s: "s = (k', po', ch')" by (cases s)
    note R = updateChannel_result [OF k reg' Inr [unfolded s]]
    define x' where "x' = x\<lparr>cx_kern := k', cx_loop := (cx_loop x)\<lparr>poller := Some po'\<rparr>,
        cx_conn := (cx_conn x)\<lparr>tc_channel := ch'\<rparr>\<rparr>"
    have u: "cx_update os c x ch = Inr x'"
      using Inr s by (simp add: cx_update_def loop_updateChannel_def po x'_def)
    have "cx_step v opn c x x'"
      using R fd ch(1) po cx_update_grows [OF u] loop_grows_fields(1) [of "cx_loop x" "Some po'"]
      by (simp add: cx_step_def x'_def loop_frame_def poll_frame_def)
    moreover have "cx_reg v c x'" using R by (auto simp: cx_reg_def x'_def chan_sync_reg)
    moreover have "cx_conn x' = (cx_conn x)\<lparr>tc_channel := setState (next_state ch) ch\<rparr>"
      using R by (auto simp: x'_def)
    ultimately show ?thesis using u by simp
  qed
qed

lemma cx_remove_sound:
  assumes k: "kernel_ok os v opn" and x: "cx_reg v c x"
  shows "sound (\<lambda>x'. cx_step v opn c x x' \<and> cx_reg v c x'
    \<and> cx_conn x' = (cx_conn x)\<lparr>tc_channel := setState kChannelInitialized (tc_channel (cx_conn x))\<rparr>)
    (cx_remove os c x)"
proof -
  let ?ch = "tc_channel (cx_conn x)"
  obtain po where po: "poller (cx_loop x) = Some po" and reg: "chan_reg v (ConnCh c) (cx_kern x, po, ?ch)"
    using x by (auto simp: cx_reg_def split: option.splits)
  obtain k' po' where r: "removeChannel os (ConnCh c) (cx_kern x, po, ?ch)
        = Inr (k', po', setState kChannelInitialized ?ch)"
      "chan_reg v (ConnCh c) (k', po', setState kChannelInitialized ?ch)"
      "poll_frame v (cx_kern x, po, ?ch) (k', po', setState kChannelInitialized ?ch)"
    using removeChannel_sync [OF kernel_okD(1) [OF k] reg] by (auto simp: chan_sync_def)
  have ou: "epoll_update os op p (ka, poa, ch) = Inr (kb, pob, ch') \<Longrightarrow> opn kb = opn ka"
    for op p ka poa kb pob and ch ch' :: "handler channel"
    by (rule epoll_update_result(3) [OF k])
  have o: "opn k' = opn (cx_kern x)"
    using r(1) by (auto simp: removeChannel_def Let_def res_iff split: if_split_asm dest!: ou)
  define x' where "x' = x\<lparr>cx_kern := k', cx_loop := (cx_loop x)\<lparr>poller := Some po'\<rparr>,
      cx_conn := (cx_conn x)\<lparr>tc_channel := setState kChannelInitialized ?ch\<rparr>\<rparr>"
  have u: "cx_remove os c x = Inr x'"
    using r(1) by (simp add: cx_remove_def loop_removeChannel_def po x'_def)
  have "cx_step v opn c x x'"
    using r o po cx_remove_grows [OF u] loop_grows_fields(1) [of "cx_loop x" "Some po'"]
    by (simp add: cx_step_def x'_def loop_frame_def)
  moreover have "cx_reg v c x'" using r by (simp add: cx_reg_def x'_def)
  ultimately show ?thesis using u by (simp add: x'_def)
qed

section \<open>The operations on a connection\<close>

lemma cx_okD: "cx_ok v c x \<Longrightarrow> cx_reg v c x" "cx_ok v c x \<Longrightarrow> buf_inv (output_buffer (cx_conn x))"
  by (simp_all add: cx_ok_def)

lemma cx_ok_cong:
  "cx_reg v c x' \<Longrightarrow> output_buffer (cx_conn x') = output_buffer (cx_conn x) \<Longrightarrow> cx_ok v c x \<Longrightarrow> cx_ok v c x'"
  by (simp add: cx_ok_def)

lemma cx_setState_step:
  assumes "cx_ok v c x"
  shows "cx_step v opn c x (cx_setState st x)" "cx_ok v c (cx_setState st x)"
proof -
  have r: "cx_reg v c (cx_setState st x)"
    using assms cx_reg_same_chan [of "cx_setState st x" x] by (simp add: cx_ok_def cx_setState_def)
  show "cx_step v opn c x (cx_setState st x)"
    by (rule cx_step_local [OF cx_okD(1) [OF assms]]) (simp_all add: cx_setState_def cx_grows_def same_conn_def)
  show "cx_ok v c (cx_setState st x)"
    using cx_ok_cong [OF r _ assms] by (simp add: cx_setState_def)
qed

lemma cx_output_step:
  assumes "cx_reg v c x" and "buf_inv b"
  shows "cx_step v opn c x (x\<lparr>cx_conn := (cx_conn x)\<lparr>output_buffer := b\<rparr>\<rparr>)"
    "cx_ok v c (x\<lparr>cx_conn := (cx_conn x)\<lparr>output_buffer := b\<rparr>\<rparr>)"
proof -
  let ?x = "x\<lparr>cx_conn := (cx_conn x)\<lparr>output_buffer := b\<rparr>\<rparr>"
  show "cx_step v opn c x ?x"
    by (rule cx_step_local [OF assms(1)]) (simp_all add: cx_grows_def)
  show "cx_ok v c ?x"
    using assms cx_reg_same_chan [of ?x x] by (simp add: cx_ok_def)
qed

lemma sendInLoop_write_sound:
  assumes k: "kernel_ok os v opn" and x: "cx_ok v c x"
    and w: "sendInLoop_write os c d x = (x1, wrote, remained, fault)"
  shows "cx_step v opn c x x1 \<and> cx_ok v c x1 \<and> cx_conn x1 = cx_conn x
    \<and> wrote \<le> length d \<and> remained = length d - wrote"
proof (cases "\<not> isWriteSet (tc_channel (cx_conn x)) \<and> readableBytes (output_buffer (cx_conn x)) = 0")
  case False
  then show ?thesis
    using w x cx_step_refl [OF cx_okD(1) [OF x]] by (auto simp: sendInLoop_write_def Let_def)
next
  case True
  obtain r k1 where rk: "sys_write os (ch_fd (tc_channel (cx_conn x))) d (cx_kern x) = (r, k1)" by fastforce
  note W = kernel_write [OF k rk]
  let ?x = "x\<lparr>cx_kern := k1\<rparr>"
  note S = cx_step_kern [OF cx_okD(1) [OF x] W(1)]
  have ok: "cx_ok v c ?x" using cx_ok_cong [OF S(2) _ x] by simp
  note P = cx_push_opt_step [OF k S(2), of "\<lambda>cb. FWriteComplete cb c"
      "write_complete_callback (cx_conn x)"]
  have push: "cx_step v opn c x (cx_push_opt os (\<lambda>cb. FWriteComplete cb c) (write_complete_callback (cx_conn x)) ?x)"
      "cx_ok v c (cx_push_opt os (\<lambda>cb. FWriteComplete cb c) (write_complete_callback (cx_conn x)) ?x)"
    using P cx_step_trans [OF S(1)] cx_ok_cong [OF _ _ ok] by simp_all
  show ?thesis
  proof (cases r)
    case (Inl e)
    then show ?thesis
      using w rk True S(1) ok by (auto simp: sendInLoop_write_def Let_def)
  next
    case (Inr n)
    then show ?thesis
      using w rk True S(1) ok W(2) push
      by (auto simp: sendInLoop_write_def Let_def size_sub_exact split: if_split_asm)
  qed
qed

lemma crossed_mark_step:
  assumes k: "kernel_ok os v opn" and x: "cx_reg v c x"
  shows "cx_step v opn c x (crossed_mark os c n x)" "cx_reg v c (crossed_mark os c n x)"
    "cx_conn (crossed_mark os c n x) = cx_conn x"
  using cx_push_opt_step [OF k x] cx_step_refl [OF x] x by (simp_all add: crossed_mark_def Let_def)

text \<open>An interest change after the output buffer was replaced.\<close>

lemma cx_interest_sound:
  assumes k: "kernel_ok os v opn" and s: "cx_step v opn c x x2" and ok: "cx_ok v c x2"
    and cn: "cx_conn x2 = (cx_conn x)\<lparr>output_buffer := b\<rparr>"
  shows "sound (\<lambda>x'. cx_step v opn c x x' \<and> cx_ok v c x' \<and> tc_state (cx_conn x') = tc_state (cx_conn x))
    (cx_update os c x2 ((tc_channel (cx_conn x))\<lparr>ch_events := e\<rparr>))"
proof -
  let ?ch = "(tc_channel (cx_conn x))\<lparr>ch_events := e\<rparr>"
  have ch: "chan_same (tc_channel (cx_conn x2)) ?ch" "ch_state ?ch = ch_state (tc_channel (cx_conn x2))"
    using cn by simp_all
  show ?thesis
    by (rule sound_mono [OF cx_update_sound [OF k cx_okD(1) [OF ok] ch]])
       (use ok cn cx_step_trans [OF s] in \<open>auto simp: cx_ok_def\<close>)
qed

lemma sendInLoop_queue_sound:
  assumes k: "kernel_ok os v opn" and x: "cx_ok v c x"
    and len: "wrote \<le> length d" "length d \<le> vec_max"
  shows "sound (\<lambda>x'. cx_step v opn c x x' \<and> cx_ok v c x' \<and> tc_state (cx_conn x') = tc_state (cx_conn x))
    (sendInLoop_queue os A c d (x, wrote, length d - wrote, fault))"
proof (cases "\<not> fault \<and> wrote < length d")
  case False
  then show ?thesis
    using x cx_step_refl [OF cx_okD(1) [OF x]] by (auto simp: sendInLoop_queue_def)
next
  case True
  let ?cn = "cx_conn x" and ?x1 = "crossed_mark os c (length d - wrote) x"
  note x1 = crossed_mark_step [OF k cx_okD(1) [OF x], of "length d - wrote"]
  have run: "sendInLoop_queue os A c d (x, wrote, length d - wrote, fault)
      = sendInLoop_queue os A c d (x, wrote, length d - wrote, False)" using True by simp
  show ?thesis
    unfolding run sendInLoop_queue_run [OF conjunct2 [OF True]]
  proof (rule sound_bind)
    show "sound buf_inv (buffer_put A (drop wrote d) (output_buffer ?cn))"
      using buffer_put_sound [OF cx_okD(2) [OF x]] len by simp
  next
    fix b assume b: "buf_inv b"
    let ?x2 = "?x1\<lparr>cx_conn := ?cn\<lparr>output_buffer := b\<rparr>\<rparr>"
    have x2: "cx_step v opn c x ?x2" "cx_ok v c ?x2"
      using cx_output_step [OF x1(2) b] cx_step_trans [OF x1(1)] x1(3) by simp_all
    show "sound (\<lambda>x'. cx_step v opn c x x' \<and> cx_ok v c x' \<and> tc_state (cx_conn x') = tc_state ?cn)
        (let x2 = ?x1\<lparr>cx_conn := ?cn\<lparr>output_buffer := b\<rparr>\<rparr> in
          if \<not> isWriteSet (tc_channel ?cn) then enableWriteEvent (cx_update os c x2) (tc_channel ?cn)
          else Inr x2)"
      using x2 cx_interest_sound [OF k x2, of b] by (simp add: Let_def enableWriteEvent_def)
  qed
qed

lemma sendInLoop_sound:
  assumes k: "kernel_ok os v opn" and x: "cx_ok v c x" and len: "length d \<le> vec_max"
  shows "sound (\<lambda>x'. cx_step v opn c x x' \<and> cx_ok v c x' \<and> tc_state (cx_conn x') = kDisconnected)
    (sendInLoop os A c d x)"
proof -
  let ?x = "cx_setState kDisconnected x"
  note S = cx_setState_step [OF x]
  obtain x1 wl rl fault where w: "sendInLoop_write os c d ?x = (x1, wl, rl, fault)"
    by (metis prod_cases4)
  note W = sendInLoop_write_sound [OF k S(2) w]
  have "tc_state (cx_conn x1) = kDisconnected" using W by (simp add: cx_setState_def)
  moreover have "cx_step v opn c x x1" using W cx_step_trans [OF S(1)] by blast
  ultimately show ?thesis
    using sound_mono [OF sendInLoop_queue_sound [OF k, of c x1 wl d A fault]] W len
      cx_step_trans [of v opn c x x1]
    by (auto simp: sendInLoop_def w)
qed

lemma shutdownInLoop_step:
  assumes k: "kernel_ok os v opn" and x: "cx_ok v c x"
  shows "cx_step v opn c x (shutdownInLoop os x)" "cx_ok v c (shutdownInLoop os x)"
    "cx_conn (shutdownInLoop os x) = cx_conn x"
  using cx_step_kern [OF cx_okD(1) [OF x] kernel_quiet(2) [OF k]] cx_step_refl [OF cx_okD(1) [OF x]] x
  by (simp_all add: shutdownInLoop_def shutdownWrite_def cx_ok_def)

lemma handleError_step:
  assumes k: "kernel_ok os v opn" and x: "cx_ok v c x"
  shows "cx_step v opn c x (handleError os x)" "cx_ok v c (handleError os x)"
    "cx_conn (handleError os x) = cx_conn x"
  using cx_step_kern [OF cx_okD(1) [OF x] kernel_quiet(6) [OF k]] x
  by (simp_all add: handleError_def cx_ok_def)

lemma all_written_step:
  assumes k: "kernel_ok os v opn" and y: "cx_ok v c y"
  shows "cx_step v opn c y (all_written os c y)" "cx_ok v c (all_written os c y)"
    "cx_conn (all_written os c y) = cx_conn y"
proof -
  let ?z = "cx_push_opt os (\<lambda>cb. FWriteComplete cb c) (write_complete_callback (cx_conn y)) y"
  have z: "cx_step v opn c y ?z" "cx_ok v c ?z"
    using cx_push_opt_step [OF k cx_okD(1) [OF y], of "\<lambda>cb. FWriteComplete cb c" "write_complete_callback (cx_conn y)"]
      cx_ok_cong [OF _ _ y] by simp_all
  then show "cx_step v opn c y (all_written os c y)" "cx_ok v c (all_written os c y)"
      "cx_conn (all_written os c y) = cx_conn y"
    using shutdownInLoop_step [OF k z(2)] cx_step_trans [OF z(1)] by (simp_all add: all_written_def Let_def)
qed

lemma handleWrite_sound:
  assumes k: "kernel_ok os v opn" and x: "cx_ok v c x"
  shows "sound (\<lambda>x'. cx_step v opn c x x' \<and> cx_ok v c x' \<and> tc_state (cx_conn x') = tc_state (cx_conn x))
    (handleWrite os c x)"
proof (cases "isWriteSet (tc_channel (cx_conn x))")
  case False
  then show ?thesis
    using x cx_step_refl [OF cx_okD(1) [OF x]] by (simp add: handleWrite_def)
next
  case True
  let ?cn = "cx_conn x" and ?b = "output_buffer (cx_conn x)"
  obtain d where d: "bytes_read (read_index ?b) (readableBytes ?b) (mem ?b) = Inr d"
    using cx_okD(2) [OF x] buf_invD [of ?b] by (simp add: bytes_read_ok readableBytes_def size_sub_exact)
  obtain r k1 where rk: "sys_write os (ch_fd (tc_channel ?cn)) d (cx_kern x) = (r, k1)" by fastforce
  have wr: "buffer_write (sys_write os (ch_fd (tc_channel ?cn))) (cx_kern x) ?b = Inr (r, k1)"
    by (simp add: buffer_write_def d rk)
  note run = handleWrite_run [OF True wr, where self = c]
  let ?x = "x\<lparr>cx_kern := k1\<rparr>"
  note S = cx_step_kern [OF cx_okD(1) [OF x] kernel_write(1) [OF k rk]]
  have ok: "cx_ok v c ?x" using cx_ok_cong [OF S(2) _ x] by simp
  show ?thesis
  proof (cases "\<exists>n. r = Inr n \<and> 0 < n")
    case False
    then have "handleWrite os c x = Inr ?x" using run(1,2) by (cases r) auto
    then show ?thesis using S(1) ok by simp
  next
    case n: True
    then obtain n where n: "r = Inr n" "0 < n" by blast
    let ?x2 = "x\<lparr>cx_kern := k1, cx_conn := ?cn\<lparr>output_buffer := pushState n ?b\<rparr>\<rparr>"
    have x2: "cx_step v opn c x ?x2" "cx_ok v c ?x2"
      using cx_output_step [OF S(2) pushState_inv [OF cx_okD(2) [OF x]]] cx_step_trans [OF S(1)] by simp_all
    have "sound (\<lambda>x'. cx_step v opn c x x' \<and> cx_ok v c x' \<and> tc_state (cx_conn x') = tc_state ?cn)
        (bind_res (disableWriteEvent (cx_update os c ?x2) (tc_channel ?cn)) (\<lambda>x. Inr (all_written os c x)))"
      unfolding disableWriteEvent_def
      by (rule sound_bind [OF cx_interest_sound [OF k x2, of "pushState n ?b"]])
         (auto simp: all_written_step [OF k] intro: cx_step_trans all_written_step [OF k])
    then show ?thesis unfolding run(3) [OF n] using x2 by (simp add: Let_def)
  qed
qed

text \<open>An interest change that the caller makes after setting the state.\<close>

lemma cx_set_sound:
  assumes k: "kernel_ok os v opn" and x: "cx_ok v c x"
    and ch: "chan_same (tc_channel (cx_conn x)) (g (tc_channel (cx_conn x)))"
      "ch_state (g (tc_channel (cx_conn x))) = ch_state (tc_channel (cx_conn x))"
  shows "sound (\<lambda>x'. cx_step v opn c x x' \<and> cx_ok v c x' \<and> tc_state (cx_conn x') = st)
    (cx_update os c (cx_setState st x) (g (tc_channel (cx_conn x))))"
proof -
  note S = cx_setState_step [OF x]
  have same: "tc_channel (cx_conn (cx_setState st x)) = tc_channel (cx_conn x)"
      "tc_state (cx_conn (cx_setState st x)) = st"
    by (simp_all add: cx_setState_def)
  show ?thesis
    by (rule sound_mono [OF cx_update_sound [OF k cx_okD(1) [OF S(2)]]])
       (use ch same S cx_step_trans [OF S(1)] in \<open>auto simp: cx_ok_def\<close>)
qed

end
