(* ===== verification/SafeWorld.thy ===== *)
theory SafeWorld
  imports EchoServer Sound
begin

text \<open>
  The invariant of a running server under which no operation ever reads or writes memory it does not
  own. Its parts: what is registered with a poller points to a living object of that loop; every
  connection agrees with its poller and owns its descriptor; every queued functor refers to living
  connections of its loop; and a connection that still may be called back is in the server's table or
  has its \<open>connDestory\<close> queued. \<open>l\<close> is the loop that is running functors, \<open>B\<close> those of its vector that
  are still to run, \<open>H\<close> the connections that its vector holds.
\<close>

section \<open>The invariant\<close>

definition epfd :: "('k, 'z) net_scheme \<Rightarrow> nat \<Rightarrow> int option" where
  "epfd w l = map_option epollfd (poller (loops w l))"

definition chans :: "('k, 'z) net_scheme \<Rightarrow> nat \<Rightarrow> int \<Rightarrow> chan_ptr option" where
  "chans w l fd = (case poller (loops w l) of None \<Rightarrow> None | Some po \<Rightarrow> channels po fd)"

definition seen :: "('k \<Rightarrow> interest_view) \<Rightarrow> ('k, 'z) net_scheme \<Rightarrow> nat \<Rightarrow> int \<Rightarrow> (32 word \<times> chan_ptr) option" where
  "seen v w l fd = (case poller (loops w l) of None \<Rightarrow> None | Some po \<Rightarrow> v (kern w) (epollfd po) fd)"

text \<open>Where a pointer may be registered.\<close>

fun place :: "'k world \<Rightarrow> nat \<Rightarrow> int \<Rightarrow> chan_ptr \<Rightarrow> bool" where
  "place w l fd (WakeupCh l') \<longleftrightarrow> l' = l \<and> fd = wakeup_fd (loops w l)"
| "place w l fd AcceptCh \<longleftrightarrow> (\<exists>sv. server w = Some sv \<and> l = acc_loop (srv_acceptor sv)
     \<and> fd = accept_socket (srv_acceptor sv))"
| "place w l fd (ConnCh c) \<longleftrightarrow> (\<exists>cn. conns w c = Some cn \<and> tc_loop cn = l \<and> fd = tc_sockfd cn)"

definition handlers_in :: "handler set \<Rightarrow> handler channel \<Rightarrow> bool" where
  "handlers_in hs ch \<longleftrightarrow> set_option (read_callback ch) \<subseteq> hs \<and> set_option (write_callback ch) \<subseteq> hs
     \<and> set_option (ch_close_callback ch) \<subseteq> hs \<and> set_option (error_callback ch) \<subseteq> hs"

definition slots_ok :: "('k \<Rightarrow> interest_view) \<Rightarrow> 'k world \<Rightarrow> bool" where
  "slots_ok v w \<longleftrightarrow> (\<forall>l < fresh_loop w. epfd w l \<noteq> None
     \<and> (\<forall>fd p. chans w l fd = Some p \<longrightarrow> place w l fd p)
     \<and> (\<forall>fd m p. seen v w l fd = Some (m, p) \<longrightarrow> place w l fd p)
     \<and> handlers_in (range HAwake) (wakeup_channel (loops w l)))
     \<and> inj_on (epfd w) {..< fresh_loop w}"

definition conn_handlers :: "nat \<Rightarrow> handler set" where
  "conn_handlers c = {HConnRead c, HConnWrite c, HConnClose c, HConnError c}"

definition conn_ok :: "('k \<Rightarrow> interest_view) \<Rightarrow> 'k world \<Rightarrow> nat \<Rightarrow> tcp_connection \<Rightarrow> bool" where
  "conn_ok v w c cn \<longleftrightarrow> tc_loop cn < fresh_loop w \<and> ch_fd (tc_channel cn) = tc_sockfd cn
     \<and> handlers_in (conn_handlers c) (tc_channel cn) \<and> cx_ok v c (conn_cx w cn)
     \<and> front_inv (input_buffer cn)"

definition conns_ok :: "('k \<Rightarrow> interest_view) \<Rightarrow> 'k world \<Rightarrow> bool" where
  "conns_ok v w \<longleftrightarrow> (\<forall>c cn. conns w c = Some cn \<longrightarrow> conn_ok v w c cn)"

definition infra_fds :: "'k world \<Rightarrow> int set" where
  "infra_fds w = (\<Union>l < fresh_loop w. insert (wakeup_fd (loops w l)) (set_option (epfd w l)))
     \<union> (\<Union>sv \<in> set_option (server w). {accept_socket (srv_acceptor sv)})"

definition fds_ok :: "('k \<Rightarrow> int set) \<Rightarrow> 'k world \<Rightarrow> bool" where
  "fds_ok opn w \<longleftrightarrow> infra_fds w \<subseteq> opn (kern w)
     \<and> (\<forall>c cn. conns w c = Some cn \<longrightarrow> tc_sockfd cn \<in> opn (kern w) \<and> tc_sockfd cn \<notin> infra_fds w)
     \<and> (\<forall>c d cn dn. conns w c = Some cn \<and> conns w d = Some dn \<and> tc_sockfd cn = tc_sockfd dn \<longrightarrow> c = d)"

definition acceptor_ok :: "'k world \<Rightarrow> bool" where
  "acceptor_ok w \<longleftrightarrow> (\<exists>sv. server w = Some sv \<and> server_ok sv w
     \<and> new_connection_callback (srv_acceptor sv)
     \<and> ch_fd (accept_channel (srv_acceptor sv)) = accept_socket (srv_acceptor sv)
     \<and> handlers_in {HAcceptRead} (accept_channel (srv_acceptor sv))
     \<and> acc_loop (srv_acceptor sv) < fresh_loop w \<and> srv_loop sv < fresh_loop w
     \<and> base_loop (srv_pool sv) < fresh_loop w \<and> (\<forall>l \<in> set (pool_loops (srv_pool sv)). l < fresh_loop w))"

text \<open>The functors of a loop that are still to run.\<close>

definition queue_of :: "nat \<Rightarrow> Functor list \<Rightarrow> ('k, 'z) net_scheme \<Rightarrow> nat \<Rightarrow> Functor list" where
  "queue_of l B w l' = (if l' = l then B else []) @ pending (loops w l')"

definition queued :: "nat \<Rightarrow> Functor list \<Rightarrow> 'k world \<Rightarrow> Functor \<Rightarrow> bool" where
  "queued l B w f \<longleftrightarrow> (\<exists>l' < fresh_loop w. f \<in> set (queue_of l B w l'))"

definition live_at :: "('k, 'z) net_scheme \<Rightarrow> nat \<Rightarrow> nat \<Rightarrow> bool" where
  "live_at w l c \<longleftrightarrow> (\<exists>cn. conns w c = Some cn \<and> tc_loop cn = l)"

fun functor_ok :: "('k, 'z) net_scheme \<Rightarrow> nat \<Rightarrow> Functor \<Rightarrow> bool" where
  "functor_ok w l (FSendInLoop c s n) \<longleftrightarrow> False"
| "functor_ok w l (FShutdownInLoop c) \<longleftrightarrow> False"
| "functor_ok w l (FConnEstablish c) \<longleftrightarrow> live_at w l c"
| "functor_ok w l (FConnDestory c) \<longleftrightarrow> live_at w l c"
| "functor_ok w l (FWriteComplete cb c) \<longleftrightarrow> live_at w l c"
| "functor_ok w l (FHighWater cb c n) \<longleftrightarrow> live_at w l c"
| "functor_ok w l FListen \<longleftrightarrow> True"
| "functor_ok w l (FRemoveConnection c) \<longleftrightarrow> conns w c \<noteq> None"
| "functor_ok w l (FUser u) \<longleftrightarrow> True"

fun is_establish :: "Functor \<Rightarrow> bool" where
  "is_establish (FConnEstablish c) \<longleftrightarrow> True"
| "is_establish _ \<longleftrightarrow> False"

definition queues_ok :: "nat \<Rightarrow> Functor list \<Rightarrow> 'k world \<Rightarrow> bool" where
  "queues_ok l B w \<longleftrightarrow> (\<forall>l' < fresh_loop w. (\<forall>f \<in> set (queue_of l B w l'). functor_ok w l' f)
     \<and> distinct (filter is_establish (queue_of l B w l')))"

text \<open>A connection the poller no longer knows and that will not register itself again.\<close>

definition quiet :: "tcp_connection \<Rightarrow> bool" where
  "quiet cn \<longleftrightarrow> ch_state (tc_channel cn) = kChannelInitialized \<and> tc_state cn \<noteq> kConnected"

definition kept :: "nat \<Rightarrow> Functor list \<Rightarrow> 'k world \<Rightarrow> nat \<Rightarrow> bool" where
  "kept l B w c \<longleftrightarrow> in_table c (server w) \<or> queued l B w (FConnDestory c)"

definition awaiting :: "nat \<Rightarrow> Functor list \<Rightarrow> 'k world \<Rightarrow> nat \<Rightarrow> bool" where
  "awaiting l B w c \<longleftrightarrow> queued l B w (FConnEstablish c)"

definition parting :: "nat \<Rightarrow> Functor list \<Rightarrow> 'k world \<Rightarrow> nat \<Rightarrow> bool" where
  "parting l B w c \<longleftrightarrow> queued l B w (FConnDestory c) \<or> queued l B w (FRemoveConnection c)"

definition stage_ok :: "nat \<Rightarrow> Functor list \<Rightarrow> 'k world \<Rightarrow> nat \<Rightarrow> tcp_connection \<Rightarrow> bool" where
  "stage_ok l B w c cn \<longleftrightarrow> (kept l B w c \<or> quiet cn)
     \<and> (awaiting l B w c \<longrightarrow> tc_state cn = kConnecting
          \<and> ch_state (tc_channel cn) = kChannelInitialized \<and> in_table c (server w) \<and> \<not> parting l B w c)"

definition stages_ok :: "nat \<Rightarrow> Functor list \<Rightarrow> nat set \<Rightarrow> 'k world \<Rightarrow> bool" where
  "stages_ok l B H w \<longleftrightarrow> (\<forall>c cn. conns w c = Some cn \<longrightarrow>
     stage_ok l B w c cn \<and> (referenced c w \<or> c \<in> H))"

definition safe ::
  "('k \<Rightarrow> interest_view) \<Rightarrow> ('k \<Rightarrow> int set) \<Rightarrow> nat \<Rightarrow> Functor list \<Rightarrow> nat set \<Rightarrow> 'k world \<Rightarrow> bool" where
  "safe v opn l B H w \<longleftrightarrow> slots_ok v w \<and> conns_ok v w \<and> fds_ok opn w \<and> acceptor_ok w
     \<and> queues_ok l B w \<and> stages_ok l B H w"

lemma safeD:
  assumes "safe v opn l B H w"
  shows "slots_ok v w" "conns_ok v w" "fds_ok opn w" "acceptor_ok w" "queues_ok l B w" "stages_ok l B H w"
  using assms by (simp_all add: safe_def)

lemma safe_conn: "safe v opn l B H w \<Longrightarrow> conns w c = Some cn \<Longrightarrow> conn_ok v w c cn"
  by (simp add: safe_def conns_ok_def)

lemma safe_stage:
  "safe v opn l B H w \<Longrightarrow> conns w c = Some cn \<Longrightarrow> stage_ok l B w c cn"
  "safe v opn l B H w \<Longrightarrow> conns w c = Some cn \<Longrightarrow> referenced c w \<or> c \<in> H"
  by (simp_all add: safe_def stages_ok_def)

text \<open>The registration of a connection in terms of the slots of its poller.\<close>

definition slot_state :: "int \<Rightarrow> chan_ptr \<Rightarrow> chan_ptr option \<Rightarrow> (32 word \<times> chan_ptr) option \<Rightarrow> bool" where
  "slot_state st p reg sn \<longleftrightarrow> st = kChannelInitialized \<and> reg = None \<and> sn = None
     \<or> st = kChannelRemoved \<and> reg = Some p \<and> sn = None
     \<or> st = kChannelAdded \<and> reg = Some p \<and> (\<exists>ev. sn = Some (ev, p))"

lemma cx_reg_slots:
  "cx_reg v c (conn_cx w cn) \<longleftrightarrow> epfd w (tc_loop cn) \<noteq> None
     \<and> slot_state (ch_state (tc_channel cn)) (ConnCh c)
         (chans w (tc_loop cn) (ch_fd (tc_channel cn))) (seen v w (tc_loop cn) (ch_fd (tc_channel cn)))"
  by (auto simp: cx_reg_def conn_cx_def chan_reg_def Let_def slot_state_def epfd_def chans_def seen_def
      split: option.splits)

section \<open>Preservation\<close>

definition world_frame :: "'k world \<Rightarrow> 'k world \<Rightarrow> bool" where
  "world_frame w w' \<longleftrightarrow> evolves w w' \<and> (\<forall>l. epfd w' l = epfd w l
     \<and> wakeup_fd (loops w' l) = wakeup_fd (loops w l)
     \<and> wakeup_channel (loops w' l) = wakeup_channel (loops w l))"

lemma world_frameD:
  assumes "world_frame w w'"
  shows "evolves w w'" "epfd w' l = epfd w l" "wakeup_fd (loops w' l) = wakeup_fd (loops w l)"
    "wakeup_channel (loops w' l) = wakeup_channel (loops w l)" "server w' = server w"
    "fresh_loop w' = fresh_loop w" "fresh_conn w' = fresh_conn w"
  using assms evolves_world [of w w'] by (simp_all add: world_frame_def)

lemma same_connD: "same_conn cn cn' \<Longrightarrow> tc_loop cn' = tc_loop cn" "same_conn cn cn' \<Longrightarrow> tc_sockfd cn' = tc_sockfd cn"
  by (simp_all add: same_conn_def)

lemma evolves_fields:
  assumes "evolves w w'"
  shows "conns w c = Some cn \<Longrightarrow> \<exists>cn'. conns w' c = Some cn' \<and> tc_loop cn' = tc_loop cn \<and> tc_sockfd cn' = tc_sockfd cn"
    and "conns w' c = Some cn' \<Longrightarrow> \<exists>cn. conns w c = Some cn \<and> tc_loop cn' = tc_loop cn \<and> tc_sockfd cn' = tc_sockfd cn"
  using evolves_conn [OF assms, of c cn] evolves_conn_back [OF assms, of c cn'] by (auto simp: same_conn_def)

lemma live_at_evolves: "evolves w w' \<Longrightarrow> live_at w' l c \<longleftrightarrow> live_at w l c"
  unfolding live_at_def by (auto dest: evolves_fields)

lemma functor_ok_evolves: "evolves w w' \<Longrightarrow> functor_ok w l f \<Longrightarrow> functor_ok w' l f"
  by (cases f) (simp_all add: live_at_evolves evolves_dom)

lemma place_frame:
  assumes "world_frame w w'"
  shows "place w' l fd p \<longleftrightarrow> place w l fd p"
proof (cases p)
  case (ConnCh c)
  note F = world_frameD(1) [OF assms]
  show ?thesis
    unfolding ConnCh place.simps by (auto dest: evolves_fields [OF F])
qed (simp_all add: world_frameD(3,5) [OF assms])

lemma infra_frame: "world_frame w w' \<Longrightarrow> infra_fds w' = infra_fds w"
  by (simp add: infra_fds_def world_frameD)

lemma acceptor_frame:
  assumes "world_frame w w'" and "acceptor_ok w"
  shows "acceptor_ok w'"
  using assms server_ok_evolves [OF world_frameD(1) [OF assms(1)]]
  by (auto simp: acceptor_ok_def world_frameD(5,6) [OF assms(1)])

lemma fds_frame:
  assumes f: "world_frame w w'" and "opn (kern w') = opn (kern w)" and "fds_ok opn w"
  shows "fds_ok opn w'"
proof -
  note E = world_frameD(1) [OF f]
  have old: "\<exists>cn0. conns w c = Some cn0 \<and> tc_sockfd cn0 = tc_sockfd cn" if "conns w' c = Some cn" for c cn
    using evolves_fields(2) [OF E that] by auto
  show ?thesis
    unfolding fds_ok_def infra_frame [OF f] assms(2)
  proof (intro conjI allI impI)
    show "infra_fds w \<subseteq> opn (kern w)" using assms(3) by (simp add: fds_ok_def)
  next
    fix c cn assume "conns w' c = Some cn"
    then show "tc_sockfd cn \<in> opn (kern w)" "tc_sockfd cn \<notin> infra_fds w"
      using old assms(3) unfolding fds_ok_def by metis+
  next
    fix c d cn dn assume "conns w' c = Some cn \<and> conns w' d = Some dn \<and> tc_sockfd cn = tc_sockfd dn"
    then show "c = d" using old assms(3) unfolding fds_ok_def by metis
  qed
qed

text \<open>Functors may be appended to the queues.\<close>

definition pends :: "(nat \<Rightarrow> Functor \<Rightarrow> bool) \<Rightarrow> ('k, 'z) net_scheme \<Rightarrow> ('k, 'z) net_scheme \<Rightarrow> bool" where
  "pends P w w' \<longleftrightarrow> (\<forall>l. \<exists>fs. pending (loops w' l) = pending (loops w l) @ fs \<and> (\<forall>f \<in> set fs. P l f))"

definition pushable :: "nat \<Rightarrow> Functor list \<Rightarrow> 'k world \<Rightarrow> nat \<Rightarrow> Functor \<Rightarrow> bool" where
  "pushable l B w l' f \<longleftrightarrow> functor_ok w l' f \<and> \<not> is_establish f
     \<and> (\<forall>d. f = FConnDestory d \<or> f = FRemoveConnection d \<longrightarrow> \<not> awaiting l B w d)"

lemma pends_refl [simp]: "pends P w w"
  by (simp add: pends_def)

lemma pends_mono: "pends P w w' \<Longrightarrow> (\<And>l f. P l f \<Longrightarrow> Q l f) \<Longrightarrow> pends Q w w'"
  unfolding pends_def by blast

lemma pends_queued:
  assumes "pends P w w'" and "fresh_loop w' = fresh_loop w"
  shows "queued l B w f \<Longrightarrow> queued l B w' f"
    and "queued l B w' f \<Longrightarrow> queued l B w f \<or> (\<exists>l' < fresh_loop w. P l' f)"
  using assms unfolding pends_def queued_def queue_of_def by (metis Un_iff set_append)+

lemma pushable_same:
  assumes "pends (pushable l B w) w w'" and "fresh_loop w' = fresh_loop w"
  shows "awaiting l B w' d \<longleftrightarrow> awaiting l B w d"
    and "awaiting l B w d \<Longrightarrow> parting l B w' d \<longleftrightarrow> parting l B w d"
  using pends_queued [OF assms] unfolding awaiting_def parting_def pushable_def
  by (metis is_establish.simps(1))+

lemma queues_frame:
  assumes f: "world_frame w w'" and p: "pends (pushable l B w) w w'" and q: "queues_ok l B w"
  shows "queues_ok l B w'"
  unfolding queues_ok_def world_frameD(6) [OF f]
proof (intro allI impI)
  fix l' assume l': "l' < fresh_loop w"
  obtain fs where fs: "pending (loops w' l') = pending (loops w l') @ fs" "\<forall>f \<in> set fs. pushable l B w l' f"
    using p unfolding pends_def by blast
  have q': "queue_of l B w' l' = queue_of l B w l' @ fs"
    by (simp add: queue_of_def fs(1))
  have "filter is_establish fs = []"
    using fs(2) by (simp add: filter_empty_conv pushable_def)
  moreover have "\<forall>f \<in> set (queue_of l B w' l'). functor_ok w' l' f"
  proof
    fix f0 assume "f0 \<in> set (queue_of l B w' l')"
    then have "functor_ok w l' f0"
      using q l' fs(2) by (auto simp: q' queues_ok_def pushable_def)
    then show "functor_ok w' l' f0" by (rule functor_ok_evolves [OF world_frameD(1) [OF f]])
  qed
  ultimately show "(\<forall>f \<in> set (queue_of l B w' l'). functor_ok w' l' f)
      \<and> distinct (filter is_establish (queue_of l B w' l'))"
    using q l' by (simp add: q' queues_ok_def)
qed

lemma kept_frame: "world_frame w w' \<Longrightarrow> pends P w w' \<Longrightarrow> kept l B w c \<Longrightarrow> kept l B w' c"
  unfolding kept_def using pends_queued(1) [of P w w'] world_frameD(5,6) [of w w'] by auto

lemma referenced_frame:
  assumes f: "world_frame w w'" and p: "pends P w w'" and r: "referenced c w"
  shows "referenced c w'"
proof -
  have "set (pending (loops w l')) \<subseteq> set (pending (loops w' l'))" for l'
    using p unfolding pends_def by (metis set_append sup_ge1)
  then show ?thesis
    using r unfolding referenced_def world_frameD(5,6) [OF f] list_ex_iff by blast
qed

lemma slots_frame:
  assumes f: "world_frame w w'" and s: "slots_ok v w"
    and new: "\<And>l fd. l < fresh_loop w \<Longrightarrow> chans w' l fd = chans w l fd \<or> (\<forall>p. chans w' l fd = Some p \<longrightarrow> place w l fd p)"
      "\<And>l fd. l < fresh_loop w \<Longrightarrow> seen v w' l fd = seen v w l fd \<or> (\<forall>m p. seen v w' l fd = Some (m, p) \<longrightarrow> place w l fd p)"
  shows "slots_ok v w'"
  using s new unfolding slots_ok_def place_frame [OF f] world_frameD [OF f]
  by (metis (mono_tags, opaque_lifting) epfd_def inj_on_cong world_frameD(2) [OF f])

text \<open>The slots of one connection.\<close>

definition slot_of :: "('k, 'z) net_scheme \<Rightarrow> nat \<Rightarrow> nat \<Rightarrow> int \<Rightarrow> bool" where
  "slot_of w c l fd \<longleftrightarrow> (\<exists>cn. conns w c = Some cn \<and> l = tc_loop cn \<and> fd = tc_sockfd cn)"

definition slots_but :: "('k \<Rightarrow> interest_view) \<Rightarrow> nat \<Rightarrow> 'k world \<Rightarrow> 'k world \<Rightarrow> bool" where
  "slots_but v c w w' \<longleftrightarrow> (\<forall>l < fresh_loop w. \<forall>fd. \<not> slot_of w c l fd \<longrightarrow>
     chans w' l fd = chans w l fd \<and> seen v w' l fd = seen v w l fd)"

text \<open>What a step may do to connection \<open>c\<close>: nothing, or leave it in order.\<close>

definition conn_change ::
  "('k \<Rightarrow> interest_view) \<Rightarrow> nat \<Rightarrow> Functor list \<Rightarrow> nat \<Rightarrow> 'k world \<Rightarrow> 'k world \<Rightarrow> bool" where
  "conn_change v l B c w w' \<longleftrightarrow> (\<forall>cn'. conns w' c = Some cn' \<longrightarrow> conn_ok v w' c cn'
     \<and> (kept l B w c \<or> quiet cn') \<and> (awaiting l B w c \<longrightarrow> tc_state cn' = kConnecting
          \<and> ch_state (tc_channel cn') = kChannelInitialized))"

definition ready :: "nat \<Rightarrow> Functor list \<Rightarrow> 'k world \<Rightarrow> nat \<Rightarrow> bool" where
  "ready l B w c \<longleftrightarrow> conns w c \<noteq> None \<and> kept l B w c \<and> \<not> awaiting l B w c"

definition own_thread :: "('k, 'z) net_scheme \<Rightarrow> nat \<Rightarrow> bool" where
  "own_thread w c \<longleftrightarrow> (case conns w c of None \<Rightarrow> False
     | Some cn \<Rightarrow> isInLoopThread (cur_tid w) (loops w (tc_loop cn)))"

lemma own_thread_evolves: "evolves w w' \<Longrightarrow> own_thread w c \<Longrightarrow> own_thread w' c"
proof -
  assume e: "evolves w w'" and o: "own_thread w c"
  then obtain cn cn' where "conns w c = Some cn" "conns w' c = Some cn'" "tc_loop cn' = tc_loop cn"
    using evolves_fields(1) [OF e, of c] by (auto simp: own_thread_def split: option.splits)
  moreover have "cur_tid w' = cur_tid w" "thread_id (loops w' l) = thread_id (loops w l)" for l
    using evolves_loops [OF e] by (simp_all add: loops_grow_def loop_grows_def)
  ultimately show ?thesis using o by (simp add: own_thread_def isInLoopThread_def)
qed

text \<open>What an operation keeps for the connections that are still to be called.\<close>

definition readies :: "nat \<Rightarrow> Functor list \<Rightarrow> 'k world \<Rightarrow> 'k world \<Rightarrow> bool" where
  "readies l B w w' \<longleftrightarrow> fresh_loop w' = fresh_loop w
     \<and> (\<forall>d. (ready l B w d \<longrightarrow> ready l B w' d) \<and> (own_thread w d \<longrightarrow> own_thread w' d))"

lemma readies_refl [simp]: "readies l B w w"
  by (simp add: readies_def)

lemma readies_trans: "readies l B a b \<Longrightarrow> readies l B b c \<Longrightarrow> readies l B a c"
  by (simp add: readies_def)

lemma readyD: "readies l B w w' \<Longrightarrow> ready l B w c \<Longrightarrow> ready l B w' c"
  by (simp add: readies_def)

lemma conn_ok_same_slots:
  assumes f: "world_frame w w'" and ok: "conn_ok v w c cn"
    and "chans w' (tc_loop cn) (tc_sockfd cn) = chans w (tc_loop cn) (tc_sockfd cn)"
      "seen v w' (tc_loop cn) (tc_sockfd cn) = seen v w (tc_loop cn) (tc_sockfd cn)"
  shows "conn_ok v w' c cn"
  using ok assms(3,4) unfolding conn_ok_def cx_ok_def cx_reg_slots world_frameD(2,6) [OF f]
  by (auto simp: conn_cx_def)

lemma slots_but_place:
  assumes s: "safe v opn l B H w" and f: "world_frame w w'" and b: "slots_but v c w w'"
    and c: "\<And>cn'. conns w' c = Some cn' \<Longrightarrow> conn_ok v w' c cn'"
  shows "slots_ok v w'"
proof (rule slots_frame [OF f safeD(1) [OF s]])
  fix l' fd assume l': "l' < fresh_loop w"
  have own: "(\<forall>p. chans w' l' fd = Some p \<longrightarrow> p = ConnCh c) \<and> (\<forall>m p. seen v w' l' fd = Some (m, p) \<longrightarrow> p = ConnCh c)"
      and pl: "place w l' fd (ConnCh c)" if mine: "slot_of w c l' fd"
  proof -
    obtain cn where cn: "conns w c = Some cn" "l' = tc_loop cn" "fd = tc_sockfd cn"
      using mine by (auto simp: slot_of_def)
    obtain cn' where cn': "conns w' c = Some cn'" "tc_loop cn' = l'" "tc_sockfd cn' = fd"
      using evolves_fields(1) [OF world_frameD(1) [OF f] cn(1)] cn(2,3) by auto
    then have "ch_fd (tc_channel cn') = fd" "cx_reg v c (conn_cx w' cn')"
      using c [OF cn'(1)] by (simp_all add: conn_ok_def cx_ok_def)
    then show "(\<forall>p. chans w' l' fd = Some p \<longrightarrow> p = ConnCh c) \<and> (\<forall>m p. seen v w' l' fd = Some (m, p) \<longrightarrow> p = ConnCh c)"
      using cn'(2) by (auto simp: cx_reg_slots slot_state_def)
    show "place w l' fd (ConnCh c)" using cn by simp
  qed
  show "chans w' l' fd = chans w l' fd \<or> (\<forall>p. chans w' l' fd = Some p \<longrightarrow> place w l' fd p)"
    using own pl b l' unfolding slots_but_def by blast
  show "seen v w' l' fd = seen v w l' fd \<or> (\<forall>m p. seen v w' l' fd = Some (m, p) \<longrightarrow> place w l' fd p)"
    using own pl b l' unfolding slots_but_def by blast
qed

lemma safe_frame:
  assumes s: "safe v opn l B H w" and f: "world_frame w w'" and o: "opn (kern w') = opn (kern w)"
    and p: "pends (pushable l B w) w w'" and b: "slots_but v c w w'"
    and others: "\<And>d. d \<noteq> c \<Longrightarrow> conns w' d = conns w d"
    and c: "conn_change v l B c w w'"
  shows "safe v opn l B H w' \<and> readies l B w w'"
proof -
  note E = world_frameD(1) [OF f]
  note same = pushable_same [OF p world_frameD(6) [OF f]]
  have k: "kept l B w d \<Longrightarrow> kept l B w' d" for d by (rule kept_frame [OF f p])
  have other_slot: "\<not> slot_of w c (tc_loop dn) (tc_sockfd dn)" if "conns w d = Some dn" "d \<noteq> c" for d dn
    using safeD(3) [OF s] that unfolding fds_ok_def slot_of_def by metis
  have conn: "conn_ok v w' d dn \<and> stage_ok l B w' d dn \<and> (referenced d w' \<or> d \<in> H)"
    if d: "conns w' d = Some dn" for d dn
  proof (cases "d = c")
    case True
    obtain cn where cn: "conns w c = Some cn" using evolves_fields(2) [OF E d] True by auto
    have "awaiting l B w c \<Longrightarrow> in_table c (server w) \<and> \<not> parting l B w c"
      using safe_stage(1) [OF s cn] by (simp add: stage_ok_def)
    moreover have "conn_ok v w' c dn" "kept l B w c \<or> quiet dn" "awaiting l B w c \<Longrightarrow> tc_state dn = kConnecting
        \<and> ch_state (tc_channel dn) = kChannelInitialized"
      using c d True by (auto simp: conn_change_def)
    moreover have "referenced c w' \<or> c \<in> H"
      using safe_stage(2) [OF s cn] referenced_frame [OF f p, of c] by blast
    ultimately show ?thesis
      using True k [of c] same [of c] by (simp add: stage_ok_def world_frameD(5) [OF f]) blast
  next
    case False
    then have dn: "conns w d = Some dn" using others d by simp
    have "conn_ok v w d dn" by (rule safe_conn [OF s dn])
    moreover have "tc_loop dn < fresh_loop w" using \<open>conn_ok v w d dn\<close> by (simp add: conn_ok_def)
    ultimately have "conn_ok v w' d dn"
      using b other_slot [OF dn False] by (intro conn_ok_same_slots [OF f]) (auto simp: slots_but_def)
    moreover have "stage_ok l B w' d dn"
      using safe_stage(1) [OF s dn] k [of d] same [of d]
      by (simp add: stage_ok_def world_frameD(5) [OF f]) blast
    moreover have "referenced d w' \<or> d \<in> H"
      using safe_stage(2) [OF s dn] referenced_frame [OF f p, of d] by blast
    ultimately show ?thesis by blast
  qed
  have "slots_ok v w'"
    by (rule slots_but_place [OF s f b]) (use conn in blast)
  moreover have "readies l B w w'"
    using k same(1) evolves_dom [OF E] own_thread_evolves [OF E] world_frameD(6) [OF f]
    by (simp add: readies_def ready_def)
  ultimately show ?thesis
    using conn fds_frame [OF f o safeD(3) [OF s]] acceptor_frame [OF f safeD(4) [OF s]]
      queues_frame [OF f p safeD(5) [OF s]]
    by (simp add: safe_def conns_ok_def stages_ok_def)
qed

section \<open>Operations on one connection\<close>

definition conn_put :: "nat \<Rightarrow> tcp_connection \<Rightarrow> 'k cctx \<Rightarrow> ('k, 'z) net_scheme \<Rightarrow> ('k, 'z) net_scheme" where
  "conn_put c cn x w = w\<lparr>kern := cx_kern x, loops := (loops w)(tc_loop cn := cx_loop x),
     conns := (conns w)(c := Some (cx_conn x))\<rparr>"

lemma conn_put_simps [simp]:
  "kern (conn_put c cn x w) = cx_kern x"
  "loops (conn_put c cn x w) l = (if l = tc_loop cn then cx_loop x else loops w l)"
  "conns (conn_put c cn x w) d = (if d = c then Some (cx_conn x) else conns w d)"
  "cur_tid (conn_put c cn x w) = cur_tid w" "strs (conn_put c cn x w) = strs w"
  "trace (conn_put c cn x w) = trace w" "net.more (conn_put c cn x w) = net.more w"
  by (simp_all add: conn_put_def)

lemma in_conn_put: "conns w c = Some cn \<Longrightarrow>
    in_conn c f w = bind_res (f (conn_cx w cn)) (\<lambda>x. Inr (conn_put c cn x w))"
  by (simp add: in_conn_cx conn_put_def)

lemma conn_put_more [simp]:
  "server (conn_put c cn x w) = server w" "fresh_loop (conn_put c cn x w) = fresh_loop w"
  "fresh_conn (conn_put c cn x w) = fresh_conn w"
  by (simp_all add: conn_put_def)

lemma conn_cx_simps [simp]:
  "cx_kern (conn_cx w cn) = kern w" "cx_tid (conn_cx w cn) = cur_tid w"
  "cx_loop (conn_cx w cn) = loops w (tc_loop cn)" "cx_conn (conn_cx w cn) = cn"
  by (simp_all add: conn_cx_def)

text \<open>A step of one connection leaves the slots of all others alone.\<close>

lemma conn_put_slots:
  assumes s: "safe v opn l B H w" and cn: "conns w c = Some cn" and st: "cx_step v opn c (conn_cx w cn) x"
  shows "epfd (conn_put c cn x w) = epfd w" and "slots_but v c w (conn_put c cn x w)"
proof -
  let ?w = "conn_put c cn x w" and ?l = "tc_loop cn" and ?fd = "tc_sockfd cn"
  have fd: "ch_fd (tc_channel cn) = ?fd" and l: "?l < fresh_loop w"
    using safe_conn [OF s cn] by (simp_all add: conn_ok_def)
  obtain po po' where po: "poller (loops w ?l) = Some po" "poller (cx_loop x) = Some po'"
      and pf: "poll_frame v (kern w, po, tc_channel cn) (cx_kern x, po', tc_channel (cx_conn x))"
    using st by (auto simp: cx_step_def)
  show "epfd ?w = epfd w" using po pf by (simp add: epfd_def poll_frame_def fun_eq_iff)
  show "slots_but v c w ?w"
    unfolding slots_but_def
  proof (intro allI impI conjI)
    fix l' fd' assume l': "l' < fresh_loop w" and "\<not> slot_of w c l' fd'"
    then have n: "l' \<noteq> ?l \<or> fd' \<noteq> ?fd" using cn by (auto simp: slot_of_def)
    show "chans ?w l' fd' = chans w l' fd'"
      using n po pf fd by (auto simp: chans_def poll_frame_def)
    have "epollfd po2 \<noteq> epollfd po" if "poller (loops w l') = Some po2" "l' \<noteq> ?l" for po2
    proof
      assume "epollfd po2 = epollfd po"
      then have "epfd w l' = epfd w ?l" using that po by (simp add: epfd_def)
      moreover have "inj_on (epfd w) {..< fresh_loop w}" using safeD(1) [OF s] by (simp add: slots_ok_def)
      ultimately show False using l l' that(2) by (auto dest: inj_onD)
    qed
    then show "seen v ?w l' fd' = seen v w l' fd'"
      using n po pf fd by (auto simp: seen_def poll_frame_def split: option.splits)
  qed
qed

lemma conn_put_ok:
  assumes s: "safe v opn l B H w" and cn: "conns w c = Some cn"
    and st: "cx_step v opn c (conn_cx w cn) x" and ok: "cx_ok v c x"
  shows "conn_ok v (conn_put c cn x w) c (cx_conn x)"
proof -
  let ?w = "conn_put c cn x w"
  have co: "conn_ok v w c cn" by (rule safe_conn [OF s cn])
  have g: "cx_grows (conn_cx w cn) x" and cs: "chan_same (tc_channel cn) (tc_channel (cx_conn x))"
    using st by (simp_all add: cx_step_def)
  then have l2: "tc_loop (cx_conn x) = tc_loop cn" "tc_sockfd (cx_conn x) = tc_sockfd cn"
      "input_buffer (cx_conn x) = input_buffer cn"
    by (simp_all add: cx_grows_def same_conn_def)
  then have "cx_reg v c (conn_cx ?w (cx_conn x))"
    using cx_okD(1) [OF ok] by (simp add: cx_reg_def cong: option.case_cong)
  then have "cx_ok v c (conn_cx ?w (cx_conn x))" using ok by (simp add: cx_ok_def)
  then show ?thesis
    using co cs l2 by (simp add: conn_ok_def chan_same_def handlers_in_def)
qed

lemma conn_put_safe:
  assumes s: "safe v opn l B H w" and cn: "conns w c = Some cn"
    and st: "cx_step v opn c (conn_cx w cn) x" and ok: "cx_ok v c x"
    and k: "kept l B w c \<or> quiet (cx_conn x)"
    and aw: "awaiting l B w c \<Longrightarrow> tc_state (cx_conn x) = kConnecting
      \<and> ch_state (tc_channel (cx_conn x)) = kChannelInitialized"
  shows "safe v opn l B H (conn_put c cn x w) \<and> readies l B w (conn_put c cn x w)
    \<and> evolves w (conn_put c cn x w)"
proof -
  let ?w = "conn_put c cn x w" and ?l = "tc_loop cn"
  have lf: "loop_frame (loops w ?l) (cx_loop x)" and o: "opn (cx_kern x) = opn (kern w)"
      and sc: "same_conn cn (cx_conn x)"
    using st by (simp_all add: cx_step_def cx_grows_def)
  obtain fs where fs: "pending (cx_loop x) = pending (loops w ?l) @ fs" "\<forall>f \<in> set fs. user_note c f"
    using st by (auto simp: cx_step_def)
  have ev: "evolves w ?w"
    using sc cn lf by (auto simp: evolves_def loops_grow_def loop_frame_def)
  have f: "world_frame w ?w"
    using ev conn_put_slots(1) [OF s cn st] lf by (simp add: world_frame_def loop_frame_def)
  have "pushable l B w ?l h" if "user_note c h" for h
    using that cn by (cases h) (auto simp: pushable_def live_at_def)
  then have p: "pends (pushable l B w) w ?w" using fs by (auto simp: pends_def)
  have ch: "conn_change v l B c w ?w"
    using conn_put_ok [OF s cn st ok] k aw by (simp add: conn_change_def)
  have "safe v opn l B H ?w \<and> readies l B w ?w"
    by (rule safe_frame [OF s f _ p conn_put_slots(2) [OF s cn st] _ ch]) (use o in simp_all)
  then show ?thesis using ev by blast
qed

lemma in_conn_sound:
  assumes s: "safe v opn l B H w" and cn: "conns w c = Some cn"
    and f: "sound (\<lambda>x. cx_step v opn c (conn_cx w cn) x \<and> cx_ok v c x \<and> P (tc_state (cx_conn x))
      (ch_state (tc_channel (cx_conn x)))) (f (conn_cx w cn))"
    and k: "\<And>st cs. P st cs \<Longrightarrow> kept l B w c \<or> cs = kChannelInitialized \<and> st \<noteq> kConnected"
    and aw: "\<And>st cs. awaiting l B w c \<Longrightarrow> P st cs \<Longrightarrow> st = kConnecting \<and> cs = kChannelInitialized"
  shows "sound (\<lambda>w'. safe v opn l B H w' \<and> readies l B w w' \<and> evolves w w'
    \<and> (\<exists>x. w' = conn_put c cn x w \<and> input_buffer (cx_conn x) = input_buffer cn
        \<and> P (tc_state (cx_conn x)) (ch_state (tc_channel (cx_conn x))))) (in_conn c f w)"
  unfolding in_conn_put [OF cn]
proof (rule sound_bind [OF f], clarsimp)
  fix x
  assume st: "cx_step v opn c (conn_cx w cn) x" and ok: "cx_ok v c x"
    and P: "P (tc_state (cx_conn x)) (ch_state (tc_channel (cx_conn x)))"
  have "safe v opn l B H (conn_put c cn x w) \<and> readies l B w (conn_put c cn x w)
      \<and> evolves w (conn_put c cn x w)"
    by (rule conn_put_safe [OF s cn st ok]) (use k [OF P] aw [OF _ P] in \<open>auto simp: quiet_def\<close>)
  moreover have "input_buffer (cx_conn x) = input_buffer cn"
    using st by (simp add: cx_step_def cx_grows_def)
  ultimately show "safe v opn l B H (conn_put c cn x w) \<and> readies l B w (conn_put c cn x w)
      \<and> evolves w (conn_put c cn x w) \<and> (\<exists>xa. conn_put c cn x w = conn_put c cn xa w
        \<and> input_buffer (cx_conn xa) = input_buffer cn
        \<and> P (tc_state (cx_conn xa)) (ch_state (tc_channel (cx_conn xa))))"
    using P by blast
qed

section \<open>Loops\<close>

lemma safe_same:
  assumes s: "safe v opn l B H w" and f: "world_frame w w'" and kv: "keeps_views v opn (kern w) (kern w')"
    and p: "pends (pushable l B w) w w'" and ch: "\<And>l. map_option channels (poller (loops w' l)) = map_option channels (poller (loops w l))"
    and cs: "conns w' = conns w"
  shows "safe v opn l B H w' \<and> readies l B w w'"
proof -
  have c: "chans w' l' = chans w l'" for l'
    using ch [of l'] by (auto simp: chans_def fun_eq_iff split: option.splits)
  have sn: "seen v w' l' = seen v w l'" for l'
  proof (cases "poller (loops w l')")
    case None
    then show ?thesis using world_frameD(2) [OF f, of l'] by (auto simp: seen_def epfd_def)
  next
    case (Some po)
    then obtain po' where "poller (loops w' l') = Some po'" "epollfd po' = epollfd po"
      using world_frameD(2) [OF f, of l'] by (auto simp: epfd_def)
    then show ?thesis using Some kv by (simp add: seen_def keeps_views_def fun_eq_iff)
  qed
  have b: "slots_but v d w w'" for d by (simp add: slots_but_def c sn)
  have "conn_ok v w' d cn" if "conns w d = Some cn" for d cn
    by (rule conn_ok_same_slots [OF f safe_conn [OF s that]]) (simp_all add: c sn)
  then have cc: "conn_change v l B 0 w w'"
    using safe_stage(1) [OF s] by (auto simp: conn_change_def cs stage_ok_def)
  show ?thesis
    by (rule safe_frame [OF s f _ p b _ cc]) (use kv cs in \<open>simp_all add: keeps_views_def\<close>)
qed

lemma on_loop_simps:
  "conns (on_loop l f w) = conns w" "strs (on_loop l f w) = strs w" "cur_tid (on_loop l f w) = cur_tid w"
  "kern (on_loop l f w) = fst (f (kern w, loops w l))"
  "loops (on_loop l f w) l' = (if l' = l then snd (f (kern w, loops w l)) else loops w l')"
  by (simp_all add: on_loop_def split: prod.splits)

text \<open>A change of a loop that touches only its mode and its queue.\<close>

lemma on_loop_safe:
  assumes s: "safe v opn l B H w"
    and f: "f (kern w, loops w l') = (k, lp)" and kv: "keeps_views v opn (kern w) k"
    and lp: "loop_frame (loops w l') lp" "poller lp = poller (loops w l')"
      "pending lp = pending (loops w l') @ fs" and fs: "\<forall>g \<in> set fs. pushable l B w l' g"
  shows "safe v opn l B H (on_loop l' f w) \<and> readies l B w (on_loop l' f w) \<and> evolves w (on_loop l' f w)"
proof -
  let ?w = "on_loop l' f w"
  have w: "?w = w\<lparr>kern := k, loops := (loops w)(l' := lp)\<rparr>" by (simp add: on_loop_def f)
  have ev: "evolves w ?w" using lp(1) by (simp add: w evolves_def loops_grow_def loop_frame_def)
  have fr: "world_frame w ?w"
    using ev lp by (simp add: world_frame_def loop_frame_def w epfd_def)
  have "pends (pushable l B w) w ?w" using lp(3) fs by (auto simp: pends_def w)
  then show ?thesis
    using safe_same [OF s fr, of] kv lp(2) ev by (simp add: w)
qed

lemma net_push_safe:
  assumes k: "kernel_ok os v opn" and s: "safe v opn l B H w" and f: "pushable l B w l' f"
  shows "safe v opn l B H (net_push os l' f w) \<and> readies l B w (net_push os l' f w)
    \<and> evolves w (net_push os l' f w)"
proof -
  obtain k1 lp where q: "pushLoopCallback os (cur_tid w) f (kern w, loops w l') = (k1, lp)" by fastforce
  have lp: "lp = (loops w l')\<lparr>pending := pending (loops w l') @ [f]\<rparr>"
    using pushLoopCallback_loop [of os "cur_tid w" f "kern w" "loops w l'"] q by simp
  have "keeps_views v opn (kern w) k1"
    using pushLoopCallback_wakes [of os "cur_tid w" f "kern w" "loops w l'"] q kernel_quiet(10) [OF k]
    by (auto simp: keeps_views_def split: if_split_asm)
  then show ?thesis
    unfolding net_push_def
    by (rule on_loop_safe [where f = "pushLoopCallback os (cur_tid w) f" and fs = "[f]", OF s q])
       (use f pushLoopCallback_grows [OF q] in \<open>simp_all add: lp loop_frame_def\<close>)
qed

lemma loop_quit_safe:
  assumes k: "kernel_ok os v opn" and s: "safe v opn l B H w"
  shows "safe v opn l B H (on_loop l' (loop_quit os (cur_tid w)) w)
    \<and> readies l B w (on_loop l' (loop_quit os (cur_tid w)) w)
    \<and> evolves w (on_loop l' (loop_quit os (cur_tid w)) w)"
proof -
  obtain k1 lp where q: "loop_quit os (cur_tid w) (kern w, loops w l') = (k1, lp)" by fastforce
  have lp: "lp = (loops w l')\<lparr>quit_flag := True\<rparr>"
    using loop_quit_loop [of os "cur_tid w" "kern w" "loops w l'"] q by simp
  have "keeps_views v opn (kern w) k1"
    using q kernel_quiet(10) [OF k]
    by (auto simp: loop_quit_def Let_def wakeup_def keeps_views_def split: if_split_asm)
  then show ?thesis
    by (rule on_loop_safe [where f = "loop_quit os (cur_tid w)" and fs = "[]", OF s q])
       (use loop_quit_grows [OF q] in \<open>simp_all add: lp loop_frame_def\<close>)
qed

lemma awake_safe:
  assumes k: "kernel_ok os v opn" and s: "safe v opn l B H w"
  shows "safe v opn l B H (on_loop l' (awake os) w) \<and> readies l B w (on_loop l' (awake os) w)
    \<and> evolves w (on_loop l' (awake os) w)"
proof -
  obtain k1 lp where q: "awake os (kern w, loops w l') = (k1, lp)" by fastforce
  have lp: "lp = loops w l'" using awake_loop [of os "kern w" "loops w l'"] q by simp
  have "keeps_views v opn (kern w) k1"
    using q kernel_quiet(9) [OF k] by (auto simp: awake_def)
  then show ?thesis
    by (rule on_loop_safe [where f = "awake os" and fs = "[]", OF s q]) (simp_all add: lp)
qed

lemma runLoopCallback_sound:
  assumes "isInLoopThread t lp \<Longrightarrow> sound Q (run f w)" and "\<not> isInLoopThread t lp \<Longrightarrow> Q (push f w)"
  shows "sound Q (runLoopCallback t lp run push f w)"
  using assms by (simp add: runLoopCallback_def)

end
