(* ===== verification/SafeOps.thy ===== *)
theory SafeOps
  imports SafeWorld
begin

text \<open>
  The operations of the running server keep the invariant of \<open>SafeWorld\<close> and never make a memory
  error: calls of user code, establishing and destroying connections, the handlers of a connection's
  channel, accepting and removing. \<open>app_ok\<close> is what user code must keep to.
\<close>

section \<open>User code\<close>

text \<open>
  A callback may use its own connection, strings it made, and the loops there are. It must not take a
  part of the input only: see \<open>read_after_get_undefined\<close> for what \<open>Buffer::read\<close> does then. \<open>n\<close> is the
  number of bytes in the input buffer, \<open>S\<close> the strings that exist.
\<close>

fun acts_ok :: "nat option \<Rightarrow> nat \<Rightarrow> nat \<Rightarrow> (nat \<Rightarrow> bool) \<Rightarrow> action list \<Rightarrow> bool" where
  "acts_ok me N n S [] \<longleftrightarrow> True"
| "acts_ok me N n S (ASend c s # as) \<longleftrightarrow> me = Some c \<and> S s \<and> acts_ok me N n S as"
| "acts_ok me N n S (AShutdown c # as) \<longleftrightarrow> me = Some c \<and> acts_ok me N n S as"
| "acts_ok me N n S (AGet c m # as) \<longleftrightarrow> me = Some c \<and> m = n \<and> acts_ok me N 0 S as"
| "acts_ok me N n S (AGetAll c # as) \<longleftrightarrow> me = Some c \<and> acts_ok me N 0 S as"
| "acts_ok me N n S (ANewString s d # as) \<longleftrightarrow> acts_ok me N n (S(s := length d \<le> vec_max)) as"
| "acts_ok me N n S (AFreeString s # as) \<longleftrightarrow> S s \<and> acts_ok me N n (S(s := False)) as"
| "acts_ok me N n S (APush l u # as) \<longleftrightarrow> l < N \<and> acts_ok me N n S as"
| "acts_ok me N n S (AQuit l # as) \<longleftrightarrow> l < N \<and> acts_ok me N n S as"
| "acts_ok me N n S (ASetHighWater c cb # as) \<longleftrightarrow> me = Some c \<and> acts_ok me N n S as"

definition good_str :: "('k, 'z) net_scheme \<Rightarrow> nat \<Rightarrow> bool" where
  "good_str w s \<longleftrightarrow> (case strs w s of None \<Rightarrow> False | Some d \<Rightarrow> length d \<le> vec_max)"

definition input_len :: "('k, 'z) net_scheme \<Rightarrow> nat \<Rightarrow> nat" where
  "input_len w c = (case conns w c of None \<Rightarrow> 0 | Some cn \<Rightarrow> readableBytes (input_buffer cn))"

definition view_ok :: "('k, 'z) net_scheme \<Rightarrow> nat \<Rightarrow> bool" where
  "view_ok w c \<longleftrightarrow> (case conns w c of None \<Rightarrow> False | Some cn \<Rightarrow> buf_inv (input_buffer cn))"

definition own_ok :: "'k world \<Rightarrow> nat \<Rightarrow> action list \<Rightarrow> bool" where
  "own_ok w c as \<longleftrightarrow> acts_ok (Some c) (fresh_loop w) (input_len w c) (good_str w) as"

definition app_ok :: "'k world app \<Rightarrow> bool" where
  "app_ok app \<longleftrightarrow> (\<forall>cb w c. view_ok w c \<longrightarrow> own_ok w c (on_connection app cb w c)
       \<and> (\<forall>t. own_ok w c (on_message app cb w c t)) \<and> own_ok w c (on_write_complete app cb w c)
       \<and> (\<forall>n. own_ok w c (on_high_water app cb w c n)))
     \<and> (\<forall>u w. acts_ok None (fresh_loop w) 0 (good_str w) (on_user app u w))
     \<and> (\<forall>cb w l. acts_ok None (fresh_loop w) 0 (good_str w) (on_init app cb w l))"

definition acts_inv ::
  "('k \<Rightarrow> interest_view) \<Rightarrow> ('k \<Rightarrow> int set) \<Rightarrow> nat \<Rightarrow> Functor list \<Rightarrow> nat set \<Rightarrow> nat option \<Rightarrow> nat \<Rightarrow>
   (nat \<Rightarrow> bool) \<Rightarrow> 'k world \<Rightarrow> bool" where
  "acts_inv v opn l B H me n S w \<longleftrightarrow> safe v opn l B H w \<and> (\<forall>s. S s \<longrightarrow> good_str w s)
     \<and> (\<forall>c. me = Some c \<longrightarrow> own_thread w c \<and> input_len w c = n)"

text \<open>A change of the fields of a connection that no other part of the state depends on.\<close>

lemma conn_local_safe:
  assumes s: "safe v opn l B H w" and cn: "conns w c = Some cn"
    and sc: "same_conn cn cn'" and ch: "chan_same (tc_channel cn) (tc_channel cn')"
      "ch_state (tc_channel cn') = ch_state (tc_channel cn)" "tc_state cn' = tc_state cn"
      "output_buffer cn' = output_buffer cn" and ib: "front_inv (input_buffer cn')"
    and w': "w' = w\<lparr>conns := (conns w)(c := Some cn')\<rparr>"
  shows "safe v opn l B H w' \<and> readies l B w w' \<and> evolves w w'"
proof -
  have ev: "evolves w w'" using sc cn by (simp add: w' evolves_def loops_grow_def)
  have same: "epfd w' = epfd w" "chans w' = chans w" "seen v w' = seen v w"
    by (simp_all add: w' fun_eq_iff epfd_def chans_def seen_def cong: option.case_cong)
  have f: "world_frame w w'" using ev by (simp add: world_frame_def same) (simp add: w')
  have "conn_ok v w c cn" by (rule safe_conn [OF s cn])
  then have "conn_ok v w' c cn'"
    using sc ch ib unfolding conn_ok_def cx_ok_def cx_reg_slots same
    by (auto simp: same_conn_def w' conn_cx_def chan_same_def handlers_in_def)
  then have cc: "conn_change v l B c w w'"
    using safe_stage(1) [OF s cn] ch by (auto simp: conn_change_def w' stage_ok_def quiet_def)
  have "safe v opn l B H w' \<and> readies l B w w'"
    by (rule safe_frame [OF s f _ _ _ _ cc]) (simp_all add: w' slots_but_def same [unfolded w'] pends_def)
  then show ?thesis using ev by blast
qed

lemma strs_safe:
  assumes "safe v opn l B H w"
  shows "safe v opn l B H (w\<lparr>strs := ss\<rparr>) \<and> readies l B w (w\<lparr>strs := ss\<rparr>) \<and> evolves w (w\<lparr>strs := ss\<rparr>)"
proof -
  have ev: "evolves w (w\<lparr>strs := ss\<rparr>)" by (simp add: evolves_def loops_grow_def)
  then have f: "world_frame w (w\<lparr>strs := ss\<rparr>)" by (simp add: world_frame_def epfd_def)
  show ?thesis
    using safe_same [OF assms f] ev by (simp add: keeps_views_def pends_def)
qed

lemma trace_safe:
  assumes "safe v opn l B H w"
  shows "safe v opn l B H (note_call ob w) \<and> readies l B w (note_call ob w)"
proof -
  have f: "world_frame w (note_call ob w)"
    using note_call_evolves [of w ob] by (simp add: world_frame_def epfd_def note_call_def)
  show ?thesis
    using safe_same [OF assms f] by (simp add: keeps_views_def pends_def note_call_def)
qed

text \<open>The result of one call: the invariant, with what the callback may rely on next.\<close>

lemma conn_call_inv:
  assumes "safe v opn l B H w'" and ev: "evolves w w'" and inv: "acts_inv v opn l B H me n S w"
    and me: "me = Some c" and "strs w' = strs w" and "input_len w' c = n'"
  shows "acts_inv v opn l B H me n' S w'"
  using assms own_thread_evolves [OF ev] by (simp add: acts_inv_def good_str_def)

lemma tcp_send_sound:
  assumes k: "kernel_ok os v opn" and inv: "acts_inv v opn l B H (Some c) n S w" and "S s"
  shows "sound (\<lambda>w'. acts_inv v opn l B H (Some c) n S w' \<and> readies l B w w') (tcp_send os A c s w)"
proof -
  have s: "safe v opn l B H w" using inv by (simp add: acts_inv_def)
  obtain cn where cn: "conns w c = Some cn" and thr: "isInLoopThread (cur_tid w) (loops w (tc_loop cn))"
      and n: "n = readableBytes (input_buffer cn)"
    using inv by (auto simp: acts_inv_def own_thread_def input_len_def split: option.splits)
  obtain d where d: "strs w s = Some d" "length d \<le> vec_max"
    using inv \<open>S s\<close> by (auto simp: acts_inv_def good_str_def split: option.splits)
  show ?thesis
  proof (cases "tc_state cn = kConnected")
    case False
    then show ?thesis using inv cn by (simp add: tcp_send_def)
  next
    case True
    have k': "kept l B w c" "\<not> awaiting l B w c"
      using safe_stage(1) [OF s cn] True by (auto simp: stage_ok_def quiet_def)
    have x: "cx_ok v c (conn_cx w cn)" using safe_conn [OF s cn] by (simp add: conn_ok_def)
    have "sound (\<lambda>x. cx_step v opn c (conn_cx w cn) x \<and> cx_ok v c x \<and> True) (sendInLoop os A c d (conn_cx w cn))"
      by (rule sound_mono [OF sendInLoop_sound [OF k x d(2)]]) simp
    then have "sound (\<lambda>w'. safe v opn l B H w' \<and> readies l B w w' \<and> evolves w w'
        \<and> (\<exists>x. w' = conn_put c cn x w \<and> input_buffer (cx_conn x) = input_buffer cn \<and> True))
        (in_conn c (sendInLoop os A c d) w)"
      by (rule in_conn_sound [OF s cn]) (use k' in simp_all)
    then have "sound (\<lambda>w'. acts_inv v opn l B H (Some c) n S w' \<and> readies l B w w')
        (in_conn c (sendInLoop os A c d) w)"
      by (rule sound_mono) (auto intro!: conn_call_inv [OF _ _ inv refl] simp: input_len_def n)
    then show ?thesis using cn True d(1) thr by (simp add: tcp_send_def)
  qed
qed

lemma tcp_shutdown_sound:
  assumes k: "kernel_ok os v opn" and inv: "acts_inv v opn l B H (Some c) n S w"
  shows "sound (\<lambda>w'. acts_inv v opn l B H (Some c) n S w' \<and> readies l B w w') (tcp_shutdown os A c w)"
proof -
  have s: "safe v opn l B H w" using inv by (simp add: acts_inv_def)
  obtain cn where cn: "conns w c = Some cn" and thr: "isInLoopThread (cur_tid w) (loops w (tc_loop cn))"
      and n: "n = readableBytes (input_buffer cn)"
    using inv by (auto simp: acts_inv_def own_thread_def input_len_def split: option.splits)
  show ?thesis
  proof (cases "tc_state cn = kConnected")
    case False
    then show ?thesis using inv cn by (simp add: tcp_shutdown_def)
  next
    case True
    have r: "ready l B w c"
      using safe_stage(1) [OF s cn] True cn by (auto simp: stage_ok_def quiet_def ready_def)
    have x: "cx_ok v c (conn_cx w cn)" using safe_conn [OF s cn] by (simp add: conn_ok_def)
    let ?x = "cx_setState kDisconnecting (conn_cx w cn)"
    let ?w = "conn_put c cn ?x w"
    have w1: "w\<lparr>conns := (conns w)(c := Some (cn\<lparr>tc_state := kDisconnecting\<rparr>))\<rparr> = ?w"
      by (simp add: conn_put_def cx_setState_def)
    have s1: "safe v opn l B H ?w \<and> readies l B w ?w \<and> evolves w ?w"
      by (rule conn_put_safe [OF s cn cx_setState_step [OF x]]) (use r in \<open>simp_all add: ready_def\<close>)
    have cn1: "conns ?w c = Some (cn\<lparr>tc_state := kDisconnecting\<rparr>)" by (simp add: cx_setState_def)
    have r1: "ready l B ?w c" using s1 r readyD by blast
    have x1: "cx_ok v c (conn_cx ?w (cn\<lparr>tc_state := kDisconnecting\<rparr>))"
      using safe_conn [OF conjunct1 [OF s1] cn1] by (simp add: conn_ok_def)
    have "sound (\<lambda>w'. safe v opn l B H w' \<and> readies l B ?w w' \<and> evolves ?w w'
        \<and> (\<exists>x. w' = conn_put c (cn\<lparr>tc_state := kDisconnecting\<rparr>) x ?w
             \<and> input_buffer (cx_conn x) = input_buffer (cn\<lparr>tc_state := kDisconnecting\<rparr>) \<and> True))
        (in_conn c (\<lambda>x. Inr (shutdownInLoop os x)) ?w)"
      by (rule in_conn_sound [OF conjunct1 [OF s1] cn1])
         (use r1 shutdownInLoop_step [OF k x1] in \<open>simp_all add: ready_def\<close>)
    then have "sound (\<lambda>w'. acts_inv v opn l B H (Some c) n S w' \<and> readies l B w w')
        (in_conn c (\<lambda>x. Inr (shutdownInLoop os x)) ?w)"
    proof (rule sound_mono)
      fix w' assume a: "safe v opn l B H w' \<and> readies l B ?w w' \<and> evolves ?w w'
        \<and> (\<exists>x. w' = conn_put c (cn\<lparr>tc_state := kDisconnecting\<rparr>) x ?w
             \<and> input_buffer (cx_conn x) = input_buffer (cn\<lparr>tc_state := kDisconnecting\<rparr>) \<and> True)"
      then have "strs w' = strs w" "input_len w' c = n" by (auto simp: input_len_def n)
      moreover have "evolves w w'" "readies l B w w'"
        using a s1 evolves_trans [of w ?w w'] readies_trans [of l B w ?w w'] by blast+
      ultimately show "acts_inv v opn l B H (Some c) n S w' \<and> readies l B w w'"
        using a conn_call_inv [OF _ _ inv refl] by blast
    qed
    then show ?thesis
      using cn True thr by (simp add: tcp_shutdown_def w1 runLoopCallback_def run_conn_functor_def)
  qed
qed

text \<open>Taking the whole input, with \<open>getAll\<close> or with a \<open>get\<close> of its length.\<close>

lemma take_input_sound:
  assumes inv: "acts_inv v opn l B H (Some c) n S w"
    and g: "\<And>cn. conns w c = Some cn \<Longrightarrow> get (input_buffer cn) = buffer_getAll (input_buffer cn)"
  shows "sound (\<lambda>w'. acts_inv v opn l B H (Some c) 0 S w' \<and> readies l B w w')
    (upd_conn c (\<lambda>cn. bind_res (get (input_buffer cn)) (\<lambda>(_, b). Inr (cn\<lparr>input_buffer := b\<rparr>))) w)"
proof -
  have s: "safe v opn l B H w" using inv by (simp add: acts_inv_def)
  obtain cn where cn: "conns w c = Some cn"
    using inv by (auto simp: acts_inv_def own_thread_def split: option.splits)
  have b: "front_inv (input_buffer cn)" using safe_conn [OF s cn] by (simp add: conn_ok_def)
  let ?b = "(input_buffer cn)\<lparr>read_index := 0, write_index := 0\<rparr>"
  let ?w = "w\<lparr>conns := (conns w)(c := Some (cn\<lparr>input_buffer := ?b\<rparr>))\<rparr>"
  have run: "upd_conn c (\<lambda>cn. bind_res (get (input_buffer cn)) (\<lambda>(_, b). Inr (cn\<lparr>input_buffer := b\<rparr>))) w = Inr ?w"
    using cn g [OF cn] b buffer_getAll_ok [of "input_buffer cn"] by (simp add: upd_conn_def front_inv_def)
  have "front_inv ?b" using b by (simp add: front_inv_def buf_inv_def)
  then have "safe v opn l B H ?w \<and> readies l B w ?w \<and> evolves w ?w"
    by (intro conn_local_safe [OF s cn _ _ _ _ _ _ refl]) simp_all
  then show ?thesis
    unfolding run using conn_call_inv [OF _ _ inv refl, of ?w 0]
    by (simp add: input_len_def readableBytes_def)
qed

lemma perform_sound:
  assumes k: "kernel_ok os v opn" and inv: "acts_inv v opn l B H me n S w"
    and acts: "acts_ok me N n S (a # as)"
  shows "\<exists>n' S'. acts_ok me N n' S' as
    \<and> sound (\<lambda>w'. acts_inv v opn l B H me n' S' w' \<and> readies l B w w') (perform os A a w)"
proof -
  have s: "safe v opn l B H w" using inv by (simp add: acts_inv_def)
  note keep = own_thread_evolves
  show ?thesis
  proof (cases a)
    case (ASend c i)
    then show ?thesis
      using acts tcp_send_sound [OF k, of l B H c n S w i A] inv by (intro exI [of _ n] exI [of _ S]) auto
  next
    case (AShutdown c)
    then show ?thesis
      using acts tcp_shutdown_sound [OF k, of l B H c n S w A] inv by (intro exI [of _ n] exI [of _ S]) auto
  next
    case (AGet c m)
    have "m = readableBytes (input_buffer cn)" if "conns w c = Some cn" for cn
      using acts inv that by (simp add: AGet acts_inv_def input_len_def)
    then show ?thesis
      using acts take_input_sound [of v opn l B H c n S w "buffer_get m"] inv
      by (intro exI [of _ 0] exI [of _ S]) (auto simp: AGet buffer_getAll_def)
  next
    case (AGetAll c)
    then show ?thesis
      using acts take_input_sound [of v opn l B H c n S w buffer_getAll] inv
      by (intro exI [of _ 0] exI [of _ S]) auto
  next
    case (ANewString i d)
    then show ?thesis
      using acts strs_safe [OF s, of "(strs w)(i := Some d)"] inv keep [of w "w\<lparr>strs := (strs w)(i := Some d)\<rparr>"]
      by (intro exI [of _ n] exI [of _ "S(i := length d \<le> vec_max)"]) (auto simp: acts_inv_def good_str_def input_len_def)
  next
    case (AFreeString i)
    then show ?thesis
      using acts strs_safe [OF s, of "(strs w)(i := None)"] inv keep [of w "w\<lparr>strs := (strs w)(i := None)\<rparr>"]
      by (intro exI [of _ n] exI [of _ "S(i := False)"]) (auto simp: acts_inv_def good_str_def input_len_def)
  next
    case (APush l' u)
    have p: "pushable l B w l' (FUser u)" by (simp add: pushable_def)
    show ?thesis
      using acts net_push_safe [OF k s p] inv keep [of w "net_push os l' (FUser u) w"]
      by (intro exI [of _ n] exI [of _ S])
         (auto simp: APush acts_inv_def good_str_def input_len_def net_push_def on_loop_simps)
  next
    case (AQuit l')
    show ?thesis
      using acts loop_quit_safe [OF k s, of l'] inv keep [of w "on_loop l' (loop_quit os (cur_tid w)) w"]
      by (intro exI [of _ n] exI [of _ S])
         (auto simp: AQuit acts_inv_def good_str_def input_len_def on_loop_simps)
  next
    case (ASetHighWater c cb)
    then obtain cn where cn: "conns w c = Some cn" and me: "me = Some c"
      using acts inv by (auto simp: acts_inv_def own_thread_def split: option.splits)
    let ?w = "w\<lparr>conns := (conns w)(c := Some (setHighWaterCallback (Some cb) cn))\<rparr>"
    have "front_inv (input_buffer cn)" using safe_conn [OF s cn] by (simp add: conn_ok_def)
    then have w: "safe v opn l B H ?w \<and> readies l B w ?w \<and> evolves w ?w"
      by (intro conn_local_safe [OF s cn _ _ _ _ _ _ refl]) (simp_all add: setHighWaterCallback_def)
    then have "acts_inv v opn l B H me n S ?w"
      using inv me cn by (intro conn_call_inv [OF _ _ inv me]) (auto simp: acts_inv_def input_len_def setHighWaterCallback_def)
    then show ?thesis
      using acts cn w by (intro exI [of _ n] exI [of _ S]) (auto simp: ASetHighWater upd_conn_def)
  qed
qed

lemma run_actions_sound:
  assumes k: "kernel_ok os v opn" and "acts_inv v opn l B H me n S w" and "acts_ok me N n S as"
  shows "sound (\<lambda>w'. safe v opn l B H w' \<and> readies l B w w') (run_actions os A as w)"
  using assms(2,3) unfolding run_actions_def
proof (induction as arbitrary: n S w)
  case Nil
  then show ?case by (simp add: acts_inv_def)
next
  case (Cons a as)
  obtain n' S' where a: "acts_ok me N n' S' as"
      "sound (\<lambda>w'. acts_inv v opn l B H me n' S' w' \<and> readies l B w w') (perform os A a w)"
    using perform_sound [OF k Cons.prems] by blast
  show ?case
    unfolding fold_res.simps
  proof (rule sound_bind [OF a(2)])
    fix w1 assume w1: "acts_inv v opn l B H me n' S' w1 \<and> readies l B w w1"
    show "sound (\<lambda>w'. safe v opn l B H w' \<and> readies l B w w') (fold_res (perform os A) as w1)"
      by (rule sound_mono [OF Cons.IH [OF conjunct1 [OF w1] a(1)]]) (use w1 readies_trans in blast)
  qed
qed

section \<open>Calls of user code\<close>

lemma own_call_sound:
  assumes k: "kernel_ok os v opn" and s: "safe v opn l B H w" and t: "own_thread w c"
    and ok: "own_ok w c as"
  shows "sound (\<lambda>w'. safe v opn l B H w' \<and> readies l B w w') (run_actions os A as (note_call ob w))"
proof -
  have same: "fresh_loop (note_call ob w) = fresh_loop w" "input_len (note_call ob w) c = input_len w c"
      "good_str (note_call ob w) = good_str w"
    by (simp_all add: note_call_def input_len_def good_str_def fun_eq_iff)
  have "acts_inv v opn l B H (Some c) (input_len w c) (good_str w) (note_call ob w)"
    using trace_safe [OF s, of ob] own_thread_evolves [OF note_call_evolves t, of ob] same
    by (simp add: acts_inv_def)
  then have "sound (\<lambda>w'. safe v opn l B H w' \<and> readies l B (note_call ob w) w')
      (run_actions os A as (note_call ob w))"
    by (rule run_actions_sound [OF k]) (use ok in \<open>simp add: own_ok_def\<close>)
  then show ?thesis
    by (rule sound_mono) (use trace_safe [OF s, of ob] readies_trans in blast)
qed

lemma free_call_sound:
  assumes k: "kernel_ok os v opn" and s: "safe v opn l B H w"
    and ok: "acts_ok None (fresh_loop w) 0 (good_str w) as"
  shows "sound (\<lambda>w'. safe v opn l B H w' \<and> readies l B w w') (run_actions os A as (note_call ob w))"
proof -
  have same: "good_str (note_call ob w) = good_str w"
    by (simp add: note_call_def good_str_def fun_eq_iff)
  have "acts_inv v opn l B H None 0 (good_str w) (note_call ob w)"
    using trace_safe [OF s, of ob] same by (simp add: acts_inv_def)
  then have "sound (\<lambda>w'. safe v opn l B H w' \<and> readies l B (note_call ob w) w')
      (run_actions os A as (note_call ob w))"
    by (rule run_actions_sound [OF k _ ok])
  then show ?thesis
    by (rule sound_mono) (use trace_safe [OF s, of ob] readies_trans in blast)
qed

lemma safe_view: "safe v opn l B H w \<Longrightarrow> own_thread w c \<Longrightarrow> view_ok w c"
  by (auto simp: own_thread_def view_ok_def conn_ok_def front_inv_def split: option.splits dest!: safe_conn)

lemma call_connection_sound:
  assumes k: "kernel_ok os v opn" and app: "app_ok app" and s: "safe v opn l B H w" and t: "own_thread w c"
  shows "sound (\<lambda>w'. safe v opn l B H w' \<and> readies l B w w') (call_connection os A app c w)"
proof -
  have "own_ok w c (on_connection app cb w c)" for cb
    using app safe_view [OF s t] by (simp add: app_ok_def)
  then have r: "sound (\<lambda>w'. safe v opn l B H w' \<and> readies l B w w')
      (run_actions os A (on_connection app cb w c) (note_call ob w))" for cb ob
    by (rule own_call_sound [OF k s t])
  obtain cn where "conns w c = Some cn" using t by (auto simp: own_thread_def split: option.splits)
  then show ?thesis using r by (auto simp: call_connection_def split: option.splits)
qed

lemma call_message_sound:
  assumes k: "kernel_ok os v opn" and app: "app_ok app" and s: "safe v opn l B H w" and t: "own_thread w c"
  shows "sound (\<lambda>w'. safe v opn l B H w' \<and> readies l B w w') (call_message os A app c time w)"
proof -
  have "own_ok w c (on_message app cb w c time)" for cb
    using app safe_view [OF s t] by (simp add: app_ok_def)
  then have r: "sound (\<lambda>w'. safe v opn l B H w' \<and> readies l B w w')
      (run_actions os A (on_message app cb w c time) (note_call ob w))" for cb ob
    by (rule own_call_sound [OF k s t])
  obtain cn where "conns w c = Some cn" using t by (auto simp: own_thread_def split: option.splits)
  then show ?thesis using r by (auto simp: call_message_def split: option.splits)
qed

text \<open>User code never makes a connection connected.\<close>

definition calm :: "nat \<Rightarrow> ('k, 'z) net_scheme \<Rightarrow> bool" where
  "calm c w \<longleftrightarrow> (case conns w c of None \<Rightarrow> False | Some cn \<Rightarrow> tc_state cn \<noteq> kConnected)"

lemma in_conn_calm:
  assumes "calm c w" and "in_conn d f w = Inr w'"
    and "\<And>x x'. f x = Inr x' \<Longrightarrow> tc_state (cx_conn x) \<noteq> kConnected \<Longrightarrow> tc_state (cx_conn x') \<noteq> kConnected"
  shows "calm c w'"
proof -
  obtain dn where dn: "conns w d = Some dn" using assms(2) by (auto simp: in_conn_def split: option.splits)
  then obtain x where "f (conn_cx w dn) = Inr x" "w' = conn_put d dn x w"
    using assms(2) by (auto simp: in_conn_put res_iff)
  then show ?thesis
    using assms(1) assms(3) [of "conn_cx w dn" x] dn by (auto simp: calm_def)
qed

lemma calm_evolves:
  "calm c w \<Longrightarrow> conns w' = conns w \<Longrightarrow> calm c w'"
  by (simp add: calm_def)

lemma perform_calm:
  assumes c: "calm c w" and p: "perform os A a w = Inr w'"
  shows "calm c w'"
proof -
  have send: "calm c w1" if "calm c w0" "in_conn d (sendInLoop os A d x) w0 = Inr w1" for d x and w0 w1 :: "('a, 'b) net_scheme"
    by (rule in_conn_calm [OF that]) (auto dest: sendInLoop_disconnects)
  have shut: "calm c w1" if "calm c w0" "in_conn d (\<lambda>x. Inr (shutdownInLoop os x)) w0 = Inr w1"
    for d and w0 w1 :: "('a, 'b) net_scheme"
    by (rule in_conn_calm [OF that]) (auto simp: shutdownInLoop_def split: if_split_asm)
  have push: "calm c (net_push os l f w0)" if "calm c w0" for l f and w0 :: "('a, 'b) net_scheme"
    using that by (simp add: calm_def net_push_def on_loop_simps)
  show ?thesis
  proof (cases a)
    case (ASend d i)
    then show ?thesis
      using p c push by (auto simp: tcp_send_def runLoopCallback_def split: option.splits if_split_asm
          dest: send)
  next
    case (AShutdown d)
    then obtain dn where dn: "conns w d = Some dn"
      using p by (auto simp: tcp_shutdown_def split: option.splits)
    have "calm c (w\<lparr>conns := (conns w)(d \<mapsto> dn\<lparr>tc_state := kDisconnecting\<rparr>)\<rparr>)"
      using c by (simp add: calm_def)
    then show ?thesis
      using p c dn push shut by (auto simp: AShutdown tcp_shutdown_def runLoopCallback_def run_conn_functor_def
          split: if_split_asm)
  qed (use p c push in \<open>auto simp: upd_conn_def res_iff calm_def setHighWaterCallback_def on_loop_simps
      split: option.splits if_split_asm\<close>)
qed

lemma run_actions_calm:
  "run_actions os A as w = Inr w' \<Longrightarrow> calm c w \<Longrightarrow> calm c w'"
  unfolding run_actions_def by (erule fold_res_invariant) (auto intro: perform_calm)

lemma call_connection_calm: "call_connection os A app d w = Inr w' \<Longrightarrow> calm c w \<Longrightarrow> calm c w'"
proof -
  assume a: "call_connection os A app d w = Inr w'" and c: "calm c w"
  obtain as ob where "run_actions os A as (note_call ob w) = Inr w'"
    using a by (auto simp: call_connection_def split: option.splits)
  moreover have "calm c (note_call ob w)" using c by (simp add: calm_def note_call_def)
  ultimately show ?thesis by (rule run_actions_calm)
qed

end
