(* ===== verification/SafeConn.thy ===== *)
theory SafeConn
  imports SafeOps
begin

text \<open>
  The operations of \<open>TcpConnection\<close> that call user code, and those of \<open>TcpServer\<close> that take a
  connection out of its table: they keep the invariant of \<open>SafeWorld\<close> and make no memory error.
\<close>

section \<open>Establishing and destroying\<close>

lemma own_thread_conn: "own_thread w c \<Longrightarrow> \<exists>cn. conns w c = Some cn"
  by (auto simp: own_thread_def split: option.splits)

lemma ready_conn: "ready l B w c \<Longrightarrow> \<exists>cn. conns w c = Some cn"
  by (auto simp: ready_def)

lemma readiesD:
  assumes "readies l B w w'"
  shows "fresh_loop w' = fresh_loop w" "ready l B w d \<Longrightarrow> ready l B w' d" "own_thread w d \<Longrightarrow> own_thread w' d"
  using assms by (simp_all add: readies_def)

lemma sound_readies:
  assumes "sound (\<lambda>w2. safe v opn l B H w2 \<and> readies l B w1 w2) r" and "readies l B w w1"
  shows "sound (\<lambda>w2. safe v opn l B H w2 \<and> readies l B w w2) r"
  by (rule sound_mono [OF assms(1)]) (use assms(2) readies_trans in blast)

lemma connEstablish_sound:
  assumes k: "kernel_ok os v opn" and app: "app_ok app" and s: "safe v opn l B H w"
    and r: "ready l B w c" and t: "own_thread w c"
  shows "sound (\<lambda>w'. safe v opn l B H w' \<and> readies l B w w') (connEstablish os A app c w)"
proof -
  obtain cn where cn: "conns w c = Some cn" using ready_conn [OF r] by blast
  have x: "cx_ok v c (conn_cx w cn)" using safe_conn [OF s cn] by (simp add: conn_ok_def)
  let ?f = "\<lambda>x. let x = cx_setState kConnected x in enableReadEvent (cx_update os c x) (tie c (tc_channel (cx_conn x)))"
  have "sound (\<lambda>x. cx_step v opn c (conn_cx w cn) x \<and> cx_ok v c x \<and> tc_state (cx_conn x) = kConnected)
      (cx_update os c (cx_setState kConnected (conn_cx w cn))
        ((\<lambda>ch. (tie c ch)\<lparr>ch_events := ch_events (tie c ch) OR kReadable\<rparr>) (tc_channel (cx_conn (conn_cx w cn)))))"
    by (rule cx_set_sound [OF k x]) (simp_all add: tie_def chan_same_def)
  then have "sound (\<lambda>x. cx_step v opn c (conn_cx w cn) x \<and> cx_ok v c x
      \<and> tc_state (cx_conn x) = kConnected) (?f (conn_cx w cn))"
    by (simp add: Let_def enableReadEvent_def cx_setState_def)
  note I = in_conn_sound [where P = "\<lambda>st cs. st = kConnected" and f = "?f", OF s cn this]
  show ?thesis
    unfolding connEstablish_def
  proof (rule sound_bind [OF I])
    fix w1
    assume w1: "safe v opn l B H w1 \<and> readies l B w w1 \<and> evolves w w1
      \<and> (\<exists>x. w1 = conn_put c cn x w \<and> input_buffer (cx_conn x) = input_buffer cn \<and> tc_state (cx_conn x) = kConnected)"
    then have "own_thread w1 c" using t readiesD(3) by blast
    then show "sound (\<lambda>w'. safe v opn l B H w' \<and> readies l B w w') (call_connection os A app c w1)"
      using w1 call_connection_sound [OF k app] sound_readies by blast
  qed (use r in \<open>auto simp: ready_def\<close>)
qed

text \<open>Switching off every event.\<close>

lemma disable_sound:
  assumes k: "kernel_ok os v opn" and s: "safe v opn l B H w" and r: "ready l B w c"
  shows "sound (\<lambda>w'. safe v opn l B H w' \<and> readies l B w w' \<and> calm c w')
    (in_conn c (\<lambda>x. let x = cx_setState kDisconnected x in
        disableAllEvent (cx_update os c x) (tc_channel (cx_conn x))) w)"
proof -
  obtain cn where cn: "conns w c = Some cn" using ready_conn [OF r] by blast
  have x: "cx_ok v c (conn_cx w cn)" using safe_conn [OF s cn] by (simp add: conn_ok_def)
  let ?f = "\<lambda>x. let x = cx_setState kDisconnected x in disableAllEvent (cx_update os c x) (tc_channel (cx_conn x))"
  have "sound (\<lambda>x. cx_step v opn c (conn_cx w cn) x \<and> cx_ok v c x \<and> tc_state (cx_conn x) = kDisconnected)
      (cx_update os c (cx_setState kDisconnected (conn_cx w cn))
        ((\<lambda>ch. ch\<lparr>ch_events := kNoneEvent\<rparr>) (tc_channel (cx_conn (conn_cx w cn)))))"
    by (rule cx_set_sound [OF k x]) simp_all
  then have "sound (\<lambda>x. cx_step v opn c (conn_cx w cn) x \<and> cx_ok v c x
      \<and> tc_state (cx_conn x) = kDisconnected) (?f (conn_cx w cn))"
    by (simp add: Let_def disableAllEvent_def cx_setState_def)
  note I = in_conn_sound [where P = "\<lambda>st cs. st = kDisconnected" and f = "?f", OF s cn this]
  show ?thesis
    by (rule sound_mono [OF I]) (use r in \<open>auto simp: ready_def calm_def\<close>)
qed

definition hushed :: "nat \<Rightarrow> ('k, 'z) net_scheme \<Rightarrow> bool" where
  "hushed c w \<longleftrightarrow> (\<forall>cn. conns w c = Some cn \<longrightarrow> quiet cn)"

lemma cx_remove_quiet:
  assumes k: "kernel_ok os v opn" and s: "safe v opn l B H w" and r: "ready l B w c" and c: "calm c w"
  shows "sound (\<lambda>w'. (safe v opn l B H w' \<and> readies l B w w') \<and> hushed c w') (in_conn c (cx_remove os c) w)"
proof -
  obtain cn where cn: "conns w c = Some cn" using ready_conn [OF r] by blast
  have x: "cx_ok v c (conn_cx w cn)" using safe_conn [OF s cn] by (simp add: conn_ok_def)
  have "sound (\<lambda>x. cx_step v opn c (conn_cx w cn) x \<and> cx_ok v c x
      \<and> tc_state (cx_conn x) \<noteq> kConnected \<and> ch_state (tc_channel (cx_conn x)) = kChannelInitialized)
      (cx_remove os c (conn_cx w cn))"
    by (rule sound_mono [OF cx_remove_sound [OF k cx_okD(1) [OF x]]])
       (use c cn x in \<open>auto simp: calm_def cx_ok_def\<close>)
  note I = in_conn_sound [where P = "\<lambda>st cs. st \<noteq> kConnected \<and> cs = kChannelInitialized" and f = "cx_remove os c", OF s cn this]
  show ?thesis
    by (rule sound_mono [OF I]) (use r in \<open>auto simp: ready_def hushed_def quiet_def\<close>)
qed

lemma connDestory_sound:
  assumes k: "kernel_ok os v opn" and app: "app_ok app" and s: "safe v opn l B H w"
    and r: "ready l B w c" and t: "own_thread w c"
  shows "sound (\<lambda>w'. (safe v opn l B H w' \<and> readies l B w w') \<and> hushed c w') (connDestory os A app c w)"
proof -
  obtain cn where cn: "conns w c = Some cn" using ready_conn [OF r] by blast
  let ?off = "in_conn c (\<lambda>x. let x = cx_setState kDisconnected x in
                    disableAllEvent (cx_update os c x) (tc_channel (cx_conn x))) w"
  have first: "sound (\<lambda>w1. (safe v opn l B H w1 \<and> readies l B w w1) \<and> calm c w1)
      (bind_res ?off (call_connection os A app c))"
  proof (rule sound_bind [OF disable_sound [OF k s r]])
    fix w1 assume w1: "safe v opn l B H w1 \<and> readies l B w w1 \<and> calm c w1"
    then have "own_thread w1 c" using t readiesD(3) by blast
    then have "sound (\<lambda>w'. safe v opn l B H w' \<and> readies l B w w') (call_connection os A app c w1)"
      using w1 call_connection_sound [OF k app] sound_readies by blast
    then show "sound (\<lambda>w1. (safe v opn l B H w1 \<and> readies l B w w1) \<and> calm c w1)
        (call_connection os A app c w1)"
      by (rule sound_conj) (use w1 call_connection_calm in blast)
  qed
  have body: "sound (\<lambda>w1. (safe v opn l B H w1 \<and> readies l B w w1) \<and> calm c w1)
      (if tc_state cn = kConnected then bind_res ?off (call_connection os A app c) else Inr w)"
    using first s cn by (simp add: calm_def)
  have "sound (\<lambda>w'. (safe v opn l B H w' \<and> readies l B w w') \<and> hushed c w')
      (bind_res (if tc_state cn = kConnected then bind_res ?off (call_connection os A app c) else Inr w)
        (in_conn c (cx_remove os c)))"
  proof (rule sound_bind [OF body])
    fix w1 assume w1: "(safe v opn l B H w1 \<and> readies l B w w1) \<and> calm c w1"
    then have "ready l B w1 c" using r readiesD(2) by blast
    then have "sound (\<lambda>w'. (safe v opn l B H w' \<and> readies l B w1 w') \<and> hushed c w') (in_conn c (cx_remove os c) w1)"
      using cx_remove_quiet [OF k] w1 by blast
    then show "sound (\<lambda>w'. (safe v opn l B H w' \<and> readies l B w w') \<and> hushed c w') (in_conn c (cx_remove os c) w1)"
      by (rule sound_mono) (use w1 readies_trans in blast)
  qed
  then show ?thesis by (simp add: connDestory_def cn)
qed

section \<open>Leaving the table\<close>

lemma conn_ok_reg:
  "conn_ok v w c cn \<longleftrightarrow> tc_loop cn < fresh_loop w \<and> ch_fd (tc_channel cn) = tc_sockfd cn
     \<and> handlers_in (conn_handlers c) (tc_channel cn) \<and> epfd w (tc_loop cn) \<noteq> None
     \<and> slot_state (ch_state (tc_channel cn)) (ConnCh c)
         (chans w (tc_loop cn) (tc_sockfd cn)) (seen v w (tc_loop cn) (tc_sockfd cn))
     \<and> buf_inv (output_buffer cn) \<and> front_inv (input_buffer cn)"
  unfolding conn_ok_def cx_ok_def cx_reg_slots by (auto simp: conn_cx_def)

lemma safe_server: "safe v opn l B H w \<Longrightarrow> \<exists>sv. server w = Some sv \<and> server_ok sv w"
  by (auto simp: safe_def acceptor_ok_def)

lemma queued_server [simp]: "queued l B (w\<lparr>server := so\<rparr>) f \<longleftrightarrow> queued l B w f"
  by (simp add: queued_def queue_of_def)

lemma in_table_delete:
  assumes "server_ok sv w" and "conns w c = Some cn"
  shows "in_table d (Some (sv\<lparr>connections := AList.delete (tc_name cn) (connections sv)\<rparr>))
    \<longleftrightarrow> in_table d (Some sv) \<and> d \<noteq> c"
proof -
  have "in_table d (Some s) \<longleftrightarrow> d \<in> set (map snd (connections s))" for s
    by (force simp: in_table_def list_ex_iff)
  moreover have "set (map snd (AList.delete (tc_name cn) (connections sv))) = {d \<in> set (map snd (connections sv)). d \<noteq> c}"
    unfolding delete_removes [OF assms] by auto
  ultimately show ?thesis by simp
qed

text \<open>Taking a connection out of the table when its \<open>connDestory\<close> is in a queue or in the vector.\<close>

lemma table_delete_safe:
  assumes s: "safe v opn l B H w" and sv: "server w = Some sv" and cn: "conns w c = Some cn"
    and qc: "queued l B w (FConnDestory c)"
    and q: "c \<in> H \<or> (\<exists>l' < fresh_loop w. FConnDestory c \<in> set (pending (loops w l')))"
    and w': "w' = w\<lparr>server := Some (sv\<lparr>connections := AList.delete (tc_name cn) (connections sv)\<rparr>)\<rparr>"
  shows "safe v opn l B H w' \<and> readies l B w w'"
proof -
  have ok: "server_ok sv w" using safe_server [OF s] sv by auto
  let ?sv = "sv\<lparr>connections := AList.delete (tc_name cn) (connections sv)\<rparr>"
  have server: "server w = Some sv" "server w' = Some ?sv" by (simp_all add: sv w')
  have same: "epfd w' = epfd w" "chans w' = chans w" "seen v w' = seen v w" "conns w' = conns w"
      "loops w' = loops w" "kern w' = kern w" "fresh_loop w' = fresh_loop w" "cur_tid w' = cur_tid w"
    by (simp_all add: w' fun_eq_iff epfd_def chans_def seen_def cong: option.case_cong)
  have tab: "in_table d (server w') \<longleftrightarrow> in_table d (server w) \<and> d \<noteq> c" for d
    unfolding server by (rule in_table_delete [OF ok cn])
  have qu: "queued l B w' = queued l B w" by (simp add: w' fun_eq_iff)
  have kept: "kept l B w' d \<longleftrightarrow> kept l B w d" for d
    using qc by (auto simp: kept_def tab qu)
  have aw: "awaiting l B w' d \<longleftrightarrow> awaiting l B w d" "parting l B w' d \<longleftrightarrow> parting l B w d" for d
    by (simp_all add: awaiting_def parting_def qu)
  have ref: "referenced d w' \<or> d \<in> H" if "referenced d w \<or> d \<in> H" for d
  proof (cases "d = c")
    case True
    have "referenced c w'" if "l' < fresh_loop w" "FConnDestory c \<in> set (pending (loops w l'))" for l'
      unfolding referenced_def list_ex_iff same using that
      by (intro disjI2 bexI [of _ l'] bexI [of _ "FConnDestory c"]) simp_all
    then show ?thesis using q True by blast
  qed (use that in \<open>simp add: referenced_def tab same\<close>)
  have place: "place w' l2 fd p \<longleftrightarrow> place w l2 fd p" for l2 fd p
    by (cases p) (simp_all add: server same)
  have infra: "infra_fds w' = infra_fds w" by (simp add: infra_fds_def same server)
  have "\<not> awaiting l B w c"
    using safe_stage(1) [OF s cn] qc by (auto simp: stage_ok_def parting_def)
  then have "stages_ok l B H w'"
    using safeD(6) [OF s] ref unfolding stages_ok_def stage_ok_def kept aw tab same by blast
  moreover have "slots_ok v w'" using safeD(1) [OF s] unfolding slots_ok_def place same .
  moreover have "conns_ok v w'"
    using safeD(2) [OF s] unfolding conns_ok_def conn_ok_reg same .
  moreover have "fds_ok opn w'" using safeD(3) [OF s] unfolding fds_ok_def infra same .
  moreover have "acceptor_ok w'"
    using safeD(4) [OF s] server_ok_delete [OF ok, of "tc_name cn"] unfolding acceptor_ok_def
    by (simp add: sv) (simp add: w')
  moreover have "queues_ok l B w'"
  proof -
    have "functor_ok w' l2 f \<longleftrightarrow> functor_ok w l2 f" for l2 f
      by (cases f) (simp_all add: live_at_def same)
    then show ?thesis using safeD(5) [OF s] unfolding queues_ok_def queue_of_def same by simp
  qed
  moreover have "own_thread w' d \<longleftrightarrow> own_thread w d" for d
    unfolding own_thread_def same ..
  ultimately show ?thesis
    by (simp add: safe_def readies_def ready_def kept aw same)
qed

lemma net_push_queue:
  "pending (loops (net_push os l f w) l') = (if l' = l then pending (loops w l) @ [f] else pending (loops w l'))"
  using pushLoopCallback_loop [of os "cur_tid w" f "kern w" "loops w l"]
  by (auto simp: net_push_def on_loop_def split: prod.splits)

lemma net_push_server: "net_push os l f (w\<lparr>server := so\<rparr>) = (net_push os l f w)\<lparr>server := so\<rparr>"
  by (simp add: net_push_def on_loop_def split: prod.splits)

lemma removeConnectionInLoop_sound:
  assumes k: "kernel_ok os v opn" and s: "safe v opn l B H w"
    and cn: "conns w c = Some cn" and aw: "\<not> awaiting l B w c"
  shows "sound (\<lambda>w'. safe v opn l B H w' \<and> readies l B w w') (removeConnectionInLoop os c w)"
proof -
  obtain sv where sv: "server w = Some sv" using safe_server [OF s] by blast
  let ?w1 = "net_push os (tc_loop cn) (FConnDestory c) w"
  let ?so = "Some (sv\<lparr>connections := AList.delete (tc_name cn) (connections sv)\<rparr>)"
  have p: "pushable l B w (tc_loop cn) (FConnDestory c)"
    using cn aw by (simp add: pushable_def live_at_def)
  have w1: "safe v opn l B H ?w1 \<and> readies l B w ?w1 \<and> evolves w ?w1" by (rule net_push_safe [OF k s p])
  have l': "tc_loop cn < fresh_loop ?w1"
    using safe_conn [OF s cn] readiesD(1) [of l B w ?w1] w1 by (simp add: conn_ok_def)
  have "server ?w1 = Some sv" "conns ?w1 c = Some cn"
    using sv cn evolves_world(1) [of w ?w1] w1 by (simp_all add: net_push_def on_loop_simps)
  then have "safe v opn l B H (?w1\<lparr>server := ?so\<rparr>) \<and> readies l B ?w1 (?w1\<lparr>server := ?so\<rparr>)"
    using w1 l' by (intro table_delete_safe [where c = c and cn = cn])
      (auto simp: net_push_queue queued_def queue_of_def)
  moreover have "removeConnectionInLoop os c w = Inr (?w1\<lparr>server := ?so\<rparr>)"
    by (simp add: removeConnectionInLoop_def with_server_def sv cn net_push_server)
  ultimately show ?thesis using w1 readies_trans by auto
qed

lemma removeConnection_sound:
  assumes k: "kernel_ok os v opn" and s: "safe v opn l B H w" and r: "ready l B w c"
  shows "sound (\<lambda>w'. safe v opn l B H w' \<and> readies l B w w') (removeConnection os c w)"
proof -
  obtain sv where sv: "server w = Some sv" using safe_server [OF s] by blast
  obtain cn where cn: "conns w c = Some cn" using ready_conn [OF r] by blast
  have aw: "\<not> awaiting l B w c" using r by (simp add: ready_def)
  have p: "pushable l B w (srv_loop sv) (FRemoveConnection c)"
    using cn aw by (simp add: pushable_def)
  show ?thesis
    using removeConnectionInLoop_sound [OF k s cn aw] net_push_safe [OF k s p]
    by (simp add: removeConnection_def with_server_def sv runLoopCallback_def)
qed

section \<open>Handlers of a connection\<close>

lemma handleClose_sound:
  assumes k: "kernel_ok os v opn" and app: "app_ok app" and s: "safe v opn l B H w"
    and r: "ready l B w c" and t: "own_thread w c"
  shows "sound (\<lambda>w'. safe v opn l B H w' \<and> readies l B w w') (handleClose os A app (closer os) c w)"
  unfolding handleClose_def
proof (rule sound_bind [OF disable_sound [OF k s r]])
  fix w1 assume w1: "safe v opn l B H w1 \<and> readies l B w w1 \<and> calm c w1"
  then have t1: "own_thread w1 c" using t readiesD(3) by blast
  show "sound (\<lambda>w'. safe v opn l B H w' \<and> readies l B w w')
      (bind_res (call_connection os A app c w1) (\<lambda>w.
         case conns w c of None \<Rightarrow> Inl DanglingPointer
         | Some cn \<Rightarrow> (case close_callback cn of None \<Rightarrow> Inl BadFunctionCall | Some cb \<Rightarrow> closer os cb c w)))"
  proof (rule sound_bind [OF call_connection_sound [OF k app conjunct1 [OF w1] t1]])
    fix w2 assume w2: "safe v opn l B H w2 \<and> readies l B w1 w2"
    then have r2: "ready l B w2 c" and rr: "readies l B w w2"
      using w1 r readiesD(2) readies_trans by blast+
    then obtain cn where cn: "conns w2 c = Some cn" using ready_conn by blast
    have "sound (\<lambda>w'. safe v opn l B H w' \<and> readies l B w w') (removeConnection os c w2)"
      by (rule sound_readies [OF removeConnection_sound [OF k _ r2] rr]) (use w2 in blast)
    then show "sound (\<lambda>w'. safe v opn l B H w' \<and> readies l B w w')
        (case conns w2 c of None \<Rightarrow> Inl DanglingPointer
         | Some cn \<Rightarrow> (case close_callback cn of None \<Rightarrow> Inl BadFunctionCall | Some cb \<Rightarrow> closer os cb c w2))"
      by (simp add: cn closer_def split: option.splits)
  qed
qed

lemma in_conn_ready:
  assumes s: "safe v opn l B H w" and r: "ready l B w c"
    and f: "\<And>cn. conns w c = Some cn \<Longrightarrow> cx_ok v c (conn_cx w cn) \<Longrightarrow>
      sound (\<lambda>x. cx_step v opn c (conn_cx w cn) x \<and> cx_ok v c x) (f (conn_cx w cn))"
  shows "sound (\<lambda>w'. safe v opn l B H w' \<and> readies l B w w') (in_conn c f w)"
proof -
  obtain cn where cn: "conns w c = Some cn" using ready_conn [OF r] by blast
  have "cx_ok v c (conn_cx w cn)" using safe_conn [OF s cn] by (simp add: conn_ok_def)
  then have "sound (\<lambda>x. cx_step v opn c (conn_cx w cn) x \<and> cx_ok v c x \<and> True) (f (conn_cx w cn))"
    using f [OF cn] by simp
  note I = in_conn_sound [where P = "\<lambda>_ _. True" and f = f, OF s cn this]
  show ?thesis by (rule sound_mono [OF I]) (use r in \<open>auto simp: ready_def\<close>)
qed

lemma handleError_sound:
  assumes "kernel_ok os v opn" and "safe v opn l B H w" and "ready l B w c"
  shows "sound (\<lambda>w'. safe v opn l B H w' \<and> readies l B w w') (in_conn c (\<lambda>x. Inr (handleError os x)) w)"
  by (rule in_conn_ready [OF assms(2,3)]) (use handleError_step [OF assms(1)] in simp)

lemma conn_write_sound:
  assumes "kernel_ok os v opn" and "safe v opn l B H w" and "ready l B w c"
  shows "sound (\<lambda>w'. safe v opn l B H w' \<and> readies l B w w') (in_conn c (handleWrite os c) w)"
  by (rule in_conn_ready [OF assms(2,3)], rule sound_mono [OF handleWrite_sound [OF assms(1)]]) simp_all

lemma kern_safe:
  assumes s: "safe v opn l B H w" and kv: "keeps_views v opn (kern w) k"
  shows "safe v opn l B H (w\<lparr>kern := k\<rparr>) \<and> readies l B w (w\<lparr>kern := k\<rparr>) \<and> evolves w (w\<lparr>kern := k\<rparr>)"
proof -
  have ev: "evolves w (w\<lparr>kern := k\<rparr>)" by (simp add: evolves_def loops_grow_def)
  then have f: "world_frame w (w\<lparr>kern := k\<rparr>)" by (simp add: world_frame_def epfd_def)
  show ?thesis
    using safe_same [OF s f] kv ev by (simp add: pends_def)
qed

lemma input_safe:
  assumes s: "safe v opn l B H w" and cn: "conns w c = Some cn" and kv: "keeps_views v opn (kern w) k"
    and new: "front_inv b"
  shows "safe v opn l B H (w\<lparr>kern := k, conns := (conns w)(c := Some (cn\<lparr>input_buffer := b\<rparr>))\<rparr>)
    \<and> readies l B w (w\<lparr>kern := k, conns := (conns w)(c := Some (cn\<lparr>input_buffer := b\<rparr>))\<rparr>)"
proof -
  let ?w = "w\<lparr>kern := k, conns := (conns w)(c := Some (cn\<lparr>input_buffer := b\<rparr>))\<rparr>"
  note K = kern_safe [OF s kv]
  have cn1: "conns (w\<lparr>kern := k\<rparr>) c = Some cn" by (simp add: cn)
  have "?w = (w\<lparr>kern := k\<rparr>)\<lparr>conns := (conns (w\<lparr>kern := k\<rparr>))(c := Some (cn\<lparr>input_buffer := b\<rparr>))\<rparr>"
    by simp
  then have "safe v opn l B H ?w \<and> readies l B (w\<lparr>kern := k\<rparr>) ?w"
    using conn_local_safe [OF conjunct1 [OF K] cn1 _ _ _ _ _ _ refl, of "cn\<lparr>input_buffer := b\<rparr>"] new by simp
  then show ?thesis using K readies_trans by blast
qed

lemma kernel_readv:
  assumes k: "kernel_ok os v opn" and r: "sys_readv os fd lens ka = (r, kb)"
  shows "keeps_views v opn ka kb" "r = Inr d \<Longrightarrow> length d \<le> sum_list lens \<and> length d \<le> vec_max"
proof -
  have "keeps_views v opn ka kb \<and> (\<forall>d. r = Inr d \<longrightarrow> length d \<le> sum_list lens \<and> length d \<le> vec_max)"
    using conjunct1 [OF kernel_okD(3) [OF k, unfolded transfers_ok_def]] r by (elim allE impE)
  then show "keeps_views v opn ka kb" "r = Inr d \<Longrightarrow> length d \<le> sum_list lens \<and> length d \<le> vec_max"
    by blast+
qed

lemma handleRead_sound:
  assumes k: "kernel_ok os v opn" and app: "app_ok app" and s: "safe v opn l B H w"
    and r: "ready l B w c" and t: "own_thread w c"
  shows "sound (\<lambda>w'. safe v opn l B H w' \<and> readies l B w w')
    (handleRead os A app (closer os) c time w)"
proof -
  obtain cn where cn: "conns w c = Some cn" using ready_conn [OF r] by blast
  let ?b = "input_buffer cn" and ?fd = "ch_fd (tc_channel cn)"
  have b: "front_inv ?b" using safe_conn [OF s cn] by (simp add: conn_ok_def)
  obtain rr k1 where rk: "sys_readv os ?fd (buffer_iov ?b) (kern w) = (rr, k1)" by fastforce
  note kv = kernel_readv(1) [OF k rk] and len = kernel_readv(2) [OF k rk]
  let ?w = "\<lambda>b. w\<lparr>kern := k1, conns := (conns w)(c := Some (cn\<lparr>input_buffer := b\<rparr>))\<rparr>"
  note w = input_safe [OF s cn kv]
  have rest: "ready l B (?w b) c" "own_thread (?w b) c" if new: "front_inv b" for b
    using w [OF new] readiesD(2,3) [OF conjunct2 [OF w [OF new]]] r t by blast+
  show ?thesis
  proof (cases rr)
    case (Inl e)
    then show ?thesis
      using sound_readies [OF handleError_sound [OF k conjunct1 [OF w [OF b]] rest(1) [OF b]] conjunct2 [OF w [OF b]]]
      by (simp add: handleRead_def cn buffer_read_def rk)
  next
    case (Inr d)
    have call: "sound (\<lambda>w'. safe v opn l B H w' \<and> readies l B w w')
        (if 0 < length d then call_message os A app c time (?w b)
         else handleClose os A app (closer os) c (?w b))" if new: "front_inv b" for b
    proof -
      note W = w [OF new] and R = rest [OF new]
      show ?thesis
        by (intro sound_if sound_readies [OF call_message_sound [OF k app conjunct1 [OF W] R(2)] conjunct2 [OF W]]
            sound_readies [OF handleClose_sound [OF k app conjunct1 [OF W] R] conjunct2 [OF W]])
    qed
    have run: "handleRead os A app (closer os) c time w = bind_res (buffer_absorb A d ?b)
        (\<lambda>b. if 0 < length d then call_message os A app c time (?w b)
         else handleClose os A app (closer os) c (?w b))"
      by (cases "buffer_absorb A d ?b") (simp_all add: handleRead_def cn buffer_read_def rk Inr)
    have "sound front_inv (buffer_absorb A d ?b)"
      using buffer_absorb_sound [OF b, of d A] len [OF Inr] by blast
    then show ?thesis unfolding run by (rule sound_bind) (rule call)
  qed
qed

end
