(* ===== verification/SafeServer.thy ===== *)
theory SafeServer
  imports SafeConn
begin

text \<open>
  The acceptor, the functors and the handlers: what is left of a turn. \<open>inert\<close> describes the small
  changes that the invariant does not see; \<open>drop\<close> takes a functor out of the vector that is run.
\<close>

section \<open>Changes the invariant does not see\<close>

definition srv_same :: "tcp_server \<Rightarrow> tcp_server \<Rightarrow> bool" where
  "srv_same sv sv' \<longleftrightarrow> (\<exists>ac. sv' = sv\<lparr>srv_acceptor := ac\<rparr> \<and> acc_loop ac = acc_loop (srv_acceptor sv)
     \<and> accept_socket ac = accept_socket (srv_acceptor sv)
     \<and> new_connection_callback ac = new_connection_callback (srv_acceptor sv)
     \<and> chan_same (accept_channel (srv_acceptor sv)) (accept_channel ac))"

definition inert :: "('k \<Rightarrow> interest_view) \<Rightarrow> ('k \<Rightarrow> int set) \<Rightarrow> 'k world \<Rightarrow> 'k world \<Rightarrow> bool" where
  "inert v opn w w' \<longleftrightarrow> epfd w' = epfd w \<and> chans w' = chans w \<and> seen v w' = seen v w \<and> conns w' = conns w
     \<and> fresh_loop w' = fresh_loop w \<and> fresh_conn w' = fresh_conn w \<and> opn (kern w) \<subseteq> opn (kern w')
     \<and> (\<forall>l. wakeup_fd (loops w' l) = wakeup_fd (loops w l)
          \<and> chan_same (wakeup_channel (loops w l)) (wakeup_channel (loops w' l)))
     \<and> rel_option srv_same (server w) (server w')"

definition same_queues :: "('k, 'z) net_scheme \<Rightarrow> ('k, 'z) net_scheme \<Rightarrow> bool" where
  "same_queues w w' \<longleftrightarrow> (\<forall>l. pending (loops w' l) = pending (loops w l))"

lemma srv_same_refl [simp, intro]: "srv_same sv sv"
  unfolding srv_same_def by (rule exI [of _ "srv_acceptor sv"]) simp

lemma inert_table:
  assumes "inert v opn w w'"
  shows "in_table c (server w') \<longleftrightarrow> in_table c (server w)"
  using assms by (cases "server w"; cases "server w'") (auto simp: in_table_def inert_def srv_same_def)

text \<open>The queues may be cut differently into the vector that is run and what is pending.\<close>

lemma inert_requeue:
  assumes s: "safe v opn l B H w" and i: "inert v opn w w'"
    and q: "\<And>l'. queue_of m C w' l' = queue_of l B w l'"
    and h: "\<And>c. referenced c w \<or> c \<in> H \<Longrightarrow> referenced c w' \<or> c \<in> J"
  shows "safe v opn m C J w'"
proof -
  have same: "epfd w' = epfd w" "chans w' = chans w" "seen v w' = seen v w" "conns w' = conns w"
      "fresh_loop w' = fresh_loop w" "fresh_conn w' = fresh_conn w" "opn (kern w) \<subseteq> opn (kern w')"
    using i by (simp_all add: inert_def)
  have lp: "wakeup_fd (loops w' l) = wakeup_fd (loops w l)"
      "chan_same (wakeup_channel (loops w l)) (wakeup_channel (loops w' l))" for l
    using i by (simp_all add: inert_def)
  obtain sv where sv: "server w = Some sv" "server_ok sv w" using safe_server [OF s] by blast
  then obtain ac where sv': "server w' = Some (sv\<lparr>srv_acceptor := ac\<rparr>)"
      and ac: "acc_loop ac = acc_loop (srv_acceptor sv)" "accept_socket ac = accept_socket (srv_acceptor sv)"
        "new_connection_callback ac = new_connection_callback (srv_acceptor sv)"
        "chan_same (accept_channel (srv_acceptor sv)) (accept_channel ac)"
    using i by (auto simp: inert_def srv_same_def option_rel_Some1)
  have place: "place w' l fd p \<longleftrightarrow> place w l fd p" for l fd p
    by (cases p) (simp_all add: sv sv' ac same lp)
  have infra: "infra_fds w' = infra_fds w" by (simp add: infra_fds_def sv sv' ac same lp)
  note tab = inert_table [OF i]
  have qd: "queued m C w' = queued l B w" by (simp add: queued_def q same fun_eq_iff)
  have "slots_ok v w'"
    using safeD(1) [OF s] lp(2) unfolding slots_ok_def place same
    by (simp add: handlers_in_def chan_same_def)
  moreover have "conns_ok v w'" using safeD(2) [OF s] unfolding conns_ok_def conn_ok_reg same .
  moreover have "fds_ok opn w'" using safeD(3) [OF s] same(7) unfolding fds_ok_def infra same(4) by blast
  moreover have "acceptor_ok w'"
    using safeD(4) [OF s] ac sv' sv(1) unfolding acceptor_ok_def
    by (auto simp: same server_ok_def handlers_in_def chan_same_def named_conns_def made_by_def table_ok_def
        conn_name_of_def)
  moreover have "queues_ok m C w'"
  proof -
    have "functor_ok w' l2 f \<longleftrightarrow> functor_ok w l2 f" for l2 f
      by (cases f) (simp_all add: live_at_def same)
    then show ?thesis using safeD(5) [OF s] by (simp add: queues_ok_def q same)
  qed
  moreover have "stages_ok m C J w'"
    using safeD(6) [OF s] h
    by (simp add: stages_ok_def stage_ok_def kept_def awaiting_def parting_def tab qd same)
  ultimately show ?thesis by (simp add: safe_def)
qed

lemma inert_safe:
  assumes s: "safe v opn l B H w" and i: "inert v opn w w'" and q: "same_queues w w'"
  shows "safe v opn l B H w'"
proof (rule inert_requeue [OF s i])
  show "queue_of l B w' l' = queue_of l B w l'" for l' using q by (simp add: queue_of_def same_queues_def)
  show "referenced c w' \<or> c \<in> H" if "referenced c w \<or> c \<in> H" for c
    using that q i unfolding referenced_def inert_table [OF i] by (simp add: same_queues_def inert_def)
qed

lemma inert_readies:
  assumes i: "inert v opn w w'" and q: "same_queues w w'" and t: "cur_tid w' = cur_tid w" "\<And>l. thread_id (loops w' l) = thread_id (loops w l)"
  shows "readies l B w w'"
proof -
  have "queued l B w' = queued l B w"
    using i q by (simp add: queued_def queue_of_def inert_def same_queues_def fun_eq_iff)
  moreover note inert_table [OF i]
  moreover have "conns w' = conns w" "fresh_loop w' = fresh_loop w" using i by (simp_all add: inert_def)
  moreover have "own_thread w' = own_thread w"
    using \<open>conns w' = conns w\<close> t
    by (simp add: fun_eq_iff own_thread_def isInLoopThread_def cong: option.case_cong)
  ultimately show ?thesis
    by (simp add: readies_def ready_def kept_def awaiting_def)
qed

section \<open>Listening\<close>

text \<open>What an update does, wherever the channel stands.\<close>

lemma updateChannel_frame:
  assumes k: "kernel_ok os v opn" and u: "updateChannel os p (k0, po, ch) = Inr (k', po', ch')"
  shows "epollfd po' = epollfd po \<and> opn k' = opn k0 \<and> chan_same ch ch'
    \<and> (\<forall>fd. fd \<noteq> ch_fd ch \<longrightarrow> channels po' fd = channels po fd)
    \<and> (\<forall>q. channels po' (ch_fd ch) = Some q \<longrightarrow> q = p \<or> channels po (ch_fd ch) = Some q)
    \<and> (\<forall>ep fd. (ep, fd) \<noteq> (epollfd po, ch_fd ch) \<longrightarrow> v k' ep fd = v k0 ep fd)
    \<and> (\<forall>m q. v k' (epollfd po) (ch_fd ch) = Some (m, q) \<longrightarrow> q = p)"
proof -
  note U = epoll_update_result [OF k]
  consider (init) "ch_state ch = kChannelInitialized" | (rem) "ch_state ch = kChannelRemoved"
    | (add) "ch_state ch \<noteq> kChannelInitialized" "ch_state ch \<noteq> kChannelRemoved" by blast
  then show ?thesis
  proof cases
    case init
    then have u: "epoll_update os EPOLL_CTL_ADD p (k0, po\<lparr>channels := (channels po)(ch_fd ch \<mapsto> p)\<rparr>,
        setState kChannelAdded ch) = Inr (k', po', ch')"
      using u by (simp add: updateChannel_def Let_def)
    show ?thesis using U(1-4) [OF u] U(6) [OF u] by auto
  next
    case rem
    then have u: "epoll_update os EPOLL_CTL_ADD p (k0, po, setState kChannelAdded ch) = Inr (k', po', ch')"
      using u by (simp add: updateChannel_def Let_def)
    show ?thesis using U(1-4) [OF u] U(6) [OF u] by auto
  next
    case add
    show ?thesis
    proof (cases "isSilent ch")
      case True
      then obtain k1 po1 ch1 where u: "epoll_update os EPOLL_CTL_DEL p (k0, po, ch) = Inr (k1, po1, ch1)"
          "k' = k1" "po' = po1" "ch' = setState kChannelRemoved ch1"
        using u add by (auto simp: updateChannel_def Let_def res_iff)
      show ?thesis using U(1-4) [OF u(1)] U(5) [OF u(1)] u(2-) by auto
    next
      case False
      then have u: "epoll_update os EPOLL_CTL_MOD p (k0, po, ch) = Inr (k', po', ch')"
        using u add by (simp add: updateChannel_def Let_def)
      show ?thesis using U(1-4) [OF u] U(6) [OF u] by auto
    qed
  qed
qed

text \<open>A change of the slot of the acceptor only.\<close>

lemma accept_slot_safe:
  assumes s: "safe v opn l B H w" and f: "world_frame w w'" and o: "opn (kern w') = opn (kern w)"
    and p: "\<And>l. pending (loops w' l) = pending (loops w l)" and cs: "conns w' = conns w"
    and sv: "server w = Some sv" and al: "al = acc_loop (srv_acceptor sv)" "fa = accept_socket (srv_acceptor sv)"
    and others: "\<And>l fd. l < fresh_loop w \<Longrightarrow> (l, fd) \<noteq> (al, fa) \<Longrightarrow>
        chans w' l fd = chans w l fd \<and> seen v w' l fd = seen v w l fd"
    and own: "\<And>q. chans w' al fa = Some q \<Longrightarrow> q = AcceptCh \<or> chans w al fa = Some q"
      "\<And>m q. seen v w' al fa = Some (m, q) \<Longrightarrow> q = AcceptCh"
  shows "safe v opn l B H w' \<and> readies l B w w'"
proof -
  note E = world_frameD(1) [OF f]
  have pe: "pends (pushable l B w) w w'" by (simp add: pends_def p)
  have pl: "place w al fa AcceptCh" using sv al by simp
  have slots: "slots_ok v w'"
  proof (rule slots_frame [OF f safeD(1) [OF s]])
    fix l fd assume l: "l < fresh_loop w"
    show "chans w' l fd = chans w l fd \<or> (\<forall>p. chans w' l fd = Some p \<longrightarrow> place w l fd p)"
      using others [OF l] own(1) pl safeD(1) [OF s] l unfolding slots_ok_def by (metis prod.inject)
    show "seen v w' l fd = seen v w l fd \<or> (\<forall>m p. seen v w' l fd = Some (m, p) \<longrightarrow> place w l fd p)"
      using others [OF l] own(2) pl by (metis prod.inject)
  qed
  have conns: "conns_ok v w'"
    unfolding conns_ok_def cs
  proof (intro allI impI)
    fix c cn assume cn: "conns w c = Some cn"
    have fd: "tc_sockfd cn \<noteq> fa"
      using safeD(3) [OF s] cn sv al by (fastforce simp: fds_ok_def infra_fds_def)
    have ok: "conn_ok v w c cn" by (rule safe_conn [OF s cn])
    then have "tc_loop cn < fresh_loop w" by (simp add: conn_ok_def)
    then show "conn_ok v w' c cn"
      using others fd by (intro conn_ok_same_slots [OF f ok]) auto
  qed
  have st: "stages_ok l B H w'"
    using safeD(6) [OF s] kept_frame [OF f pe] pushable_same [OF pe world_frameD(6) [OF f]]
      referenced_frame [OF f pe] world_frameD(5) [OF f] cs
    unfolding stages_ok_def stage_ok_def by metis
  have rd: "readies l B w w'"
    using kept_frame [OF f pe] pushable_same(1) [OF pe world_frameD(6) [OF f]] cs own_thread_evolves [OF E]
      world_frameD(6) [OF f]
    by (simp add: readies_def ready_def)
  show ?thesis
    using slots conns st rd fds_frame [OF f o safeD(3) [OF s]] acceptor_frame [OF f safeD(4) [OF s]]
      queues_frame [OF f pe safeD(5) [OF s]]
    by (simp add: safe_def)
qed

lemma loop_updateChannel_result:
  assumes "loop_updateChannel os p (k, lp, ch) = Inr (k', lp', ch')"
  shows "\<exists>po po'. poller lp = Some po \<and> updateChannel os p (k, po, ch) = Inr (k', po', ch')
    \<and> lp' = lp\<lparr>poller := Some po'\<rparr>"
  using assms by (auto simp: loop_updateChannel_def res_iff split: option.splits)

lemma loop_updateChannel_sound:
  "poller lp \<noteq> None \<Longrightarrow> sound (\<lambda>_. True) (loop_updateChannel os p (k, lp, ch))"
  using updateChannel_sound [of os p] by (auto simp: loop_updateChannel_def intro!: sound_bind)

lemma acceptor_update_safe:
  assumes k: "kernel_ok os v opn" and s: "safe v opn l B H w"
    and sv: "server w = Some sv" and al: "al = acc_loop (srv_acceptor sv)"
    and ch: "ch_fd ch = accept_socket (srv_acceptor sv)"
    and u: "loop_updateChannel os AcceptCh (kern w, loops w al, ch) = Inr (k', lp', ch')"
  shows "safe v opn l B H (w\<lparr>kern := k', loops := (loops w)(al := lp')\<rparr>)
    \<and> readies l B w (w\<lparr>kern := k', loops := (loops w)(al := lp')\<rparr>) \<and> chan_same ch ch'"
proof -
  let ?w = "w\<lparr>kern := k', loops := (loops w)(al := lp')\<rparr>"
  obtain po po' where po: "poller (loops w al) = Some po" "updateChannel os AcceptCh (kern w, po, ch) = Inr (k', po', ch')"
      and lp: "lp' = (loops w al)\<lparr>poller := Some po'\<rparr>"
    using loop_updateChannel_result [OF u] by blast
  note U = updateChannel_frame [OF k po(2)]
  have ev: "evolves w ?w"
    using loop_updateChannel_grows [OF u] by (simp add: evolves_def loops_grow_def)
  have ep: "epfd ?w = epfd w" using U po lp by (simp add: epfd_def fun_eq_iff)
  have f: "world_frame w ?w" using ev ep lp by (simp add: world_frame_def)
  have al': "al < fresh_loop w" using safeD(4) [OF s] sv al by (auto simp: acceptor_ok_def)
  have inj: "inj_on (epfd w) {..< fresh_loop w}" using safeD(1) [OF s] by (simp add: slots_ok_def)
  have others: "chans ?w l fd = chans w l fd \<and> seen v ?w l fd = seen v w l fd"
    if l: "l < fresh_loop w" and ne: "(l, fd) \<noteq> (al, ch_fd ch)" for l fd
  proof
    show "chans ?w l fd = chans w l fd" using ne U po lp by (auto simp: chans_def)
    show "seen v ?w l fd = seen v w l fd"
    proof (cases "l = al")
      case True
      then show ?thesis using ne U po lp by (simp add: seen_def)
    next
      case False
      then have "epfd w l \<noteq> epfd w al" using inj l al' by (auto dest: inj_onD)
      then show ?thesis
        using False U po by (auto simp: seen_def epfd_def split: option.splits)
    qed
  qed
  have "safe v opn l B H ?w \<and> readies l B w ?w"
    by (rule accept_slot_safe [OF s f _ _ _ sv al refl]) (use U others po lp ch in \<open>auto simp: chans_def seen_def\<close>)
  then show ?thesis using U by blast
qed

lemma acceptor_registered:
  assumes k: "kernel_ok os v opn" and s: "safe v opn l B H w" and sv: "server w = Some sv"
    and al: "al = acc_loop (srv_acceptor sv)" and ch: "ch_fd ch = accept_socket (srv_acceptor sv)"
      "chan_same (accept_channel (srv_acceptor sv)) ch"
    and u: "loop_updateChannel os AcceptCh (kern w, loops w al, ch) = Inr (k', lp', ch')"
    and w': "w' = w\<lparr>kern := k', loops := (loops w)(al := lp'),
      server := Some (sv\<lparr>srv_acceptor := (srv_acceptor sv)\<lparr>listenning := True, accept_channel := ch'\<rparr>\<rparr>)\<rparr>"
  shows "safe v opn l B H w' \<and> readies l B w w'"
proof -
  let ?w = "w\<lparr>kern := k', loops := (loops w)(al := lp')\<rparr>"
  let ?ac = "(srv_acceptor sv)\<lparr>listenning := True, accept_channel := ch'\<rparr>"
  have W: "safe v opn l B H ?w \<and> readies l B w ?w \<and> chan_same ch ch'"
    by (rule acceptor_update_safe [OF k s sv al ch(1) u])
  have "chan_same (accept_channel (srv_acceptor sv)) ch'" using chan_same_trans [OF ch(2)] W by blast
  then have "srv_same sv (sv\<lparr>srv_acceptor := ?ac\<rparr>)"
    unfolding srv_same_def by (intro exI [of _ ?ac]) (auto simp: chan_same_def)
  then have i: "inert v opn ?w w'"
    using sv by (simp add: w' inert_def epfd_def chans_def seen_def fun_eq_iff cong: option.case_cong)
  have q: "same_queues ?w w'" by (simp add: same_queues_def w')
  have "safe v opn l B H w'" by (rule inert_safe [OF conjunct1 [OF W] i q])
  moreover have "readies l B ?w w'" by (rule inert_readies [OF i q]) (simp_all add: w')
  ultimately show ?thesis using W readies_trans by blast
qed

lemma server_listen_sound:
  assumes k: "kernel_ok os v opn" and s: "safe v opn l B H w"
  shows "sound (\<lambda>w'. safe v opn l B H w' \<and> readies l B w w') (server_listen os w)"
proof -
  obtain sv where sv: "server w = Some sv" using safe_server [OF s] by blast
  let ?ac = "srv_acceptor sv"
  let ?al = "acc_loop ?ac" and ?fa = "accept_socket ?ac"
    and ?ch = "(accept_channel (srv_acceptor sv))\<lparr>ch_events := ch_events (accept_channel (srv_acceptor sv)) OR kReadable\<rparr>"
  have acc: "ch_fd (accept_channel ?ac) = ?fa" "?al < fresh_loop w"
    using safeD(4) [OF s] sv by (auto simp: acceptor_ok_def)
  have po: "poller (loops w ?al) \<noteq> None"
    using safeD(1) [OF s] acc(2) by (auto simp: slots_ok_def epfd_def)
  have run: "server_listen os w = bind_res (socket_listen os ?fa (kern w)) (\<lambda>k1.
      bind_res (loop_updateChannel os AcceptCh (k1, loops w ?al, ?ch)) (\<lambda>(k2, lp, ch).
        Inr (w\<lparr>kern := k2, loops := (loops w)(?al := lp), server := Some (sv\<lparr>srv_acceptor :=
          ?ac\<lparr>listenning := True, accept_channel := ch\<rparr>\<rparr>)\<rparr>)))"
    by (auto simp: server_listen_def with_server_def sv acceptor_listen_def Let_def enableReadEvent_def
        bind_res_assoc split_def intro!: bind_res_cong)
  have first: "sound (keeps_views v opn (kern w)) (socket_listen os ?fa (kern w))"
    using kernel_quiet(4) [OF k, of "kern w" ?fa kSocketDefaultBacklog] by (auto simp: socket_listen_def split: prod.splits sum.splits)
  show ?thesis
    unfolding run
  proof (rule sound_bind [OF first], rule sound_bind [OF loop_updateChannel_sound [OF po]], clarify)
    fix k1 k2 lp ch assume kv: "keeps_views v opn (kern w) k1"
      and u: "loop_updateChannel os AcceptCh (k1, loops w ?al, ?ch) = Inr (k2, lp, ch)"
    note W = kern_safe [OF s kv]
    have "safe v opn l B H (w\<lparr>kern := k2, loops := (loops w)(?al := lp), server := Some (sv\<lparr>srv_acceptor :=
          ?ac\<lparr>listenning := True, accept_channel := ch\<rparr>\<rparr>)\<rparr>)
        \<and> readies l B (w\<lparr>kern := k1\<rparr>) (w\<lparr>kern := k2, loops := (loops w)(?al := lp), server := Some (sv\<lparr>srv_acceptor :=
          ?ac\<lparr>listenning := True, accept_channel := ch\<rparr>\<rparr>)\<rparr>)"
      by (rule acceptor_registered [OF k conjunct1 [OF W], of sv]) (use sv acc u in simp_all)
    then show "sound (\<lambda>w'. safe v opn l B H w' \<and> readies l B w w') (Inr (w\<lparr>kern := k2, loops := (loops w)(?al := lp),
        server := Some (sv\<lparr>srv_acceptor := ?ac\<lparr>listenning := True, accept_channel := ch\<rparr>\<rparr>)\<rparr>))"
      using W readies_trans by simp blast
  qed
qed

section \<open>Accepting\<close>

text \<open>A descriptor that nothing in the program uses yet.\<close>

definition spare_fd :: "('k \<Rightarrow> int set) \<Rightarrow> 'k world \<Rightarrow> int \<Rightarrow> bool" where
  "spare_fd opn w fd \<longleftrightarrow> fd \<in> opn (kern w) \<and> fd \<notin> infra_fds w
     \<and> (\<forall>c cn. conns w c = Some cn \<longrightarrow> tc_sockfd cn \<noteq> fd)"

lemma spare_slots:
  assumes s: "safe v opn l B H w" and fd: "spare_fd opn w fd" and l: "l' < fresh_loop w"
  shows "chans w l' fd = None \<and> seen v w l' fd = None"
proof -
  have no: "\<not> place w l' fd p" for p
    using fd l by (cases p) (auto simp: spare_fd_def infra_fds_def)
  show ?thesis
    using safeD(1) [OF s] l no unfolding slots_ok_def by (metis option.exhaust prod.exhaust)
qed

lemma queued_live:
  assumes s: "safe v opn l B H w" and "conns w c = None"
  shows "\<not> queued l B w (FConnEstablish c)" "\<not> queued l B w (FConnDestory c)" "\<not> queued l B w (FRemoveConnection c)"
  using safeD(5) [OF s] assms(2) unfolding queues_ok_def queued_def
  by (fastforce simp: live_at_def)+

definition new_conn :: "nat \<Rightarrow> nat \<Rightarrow> int \<Rightarrow> tcp_connection \<Rightarrow> bool" where
  "new_conn c io fd cn \<longleftrightarrow> tc_loop cn = io \<and> tc_sockfd cn = fd \<and> ch_fd (tc_channel cn) = fd
     \<and> tc_state cn = kConnecting \<and> ch_state (tc_channel cn) = kChannelInitialized
     \<and> handlers_in (conn_handlers c) (tc_channel cn)
     \<and> buf_inv (output_buffer cn) \<and> front_inv (input_buffer cn)"

lemma conn_added_safe:
  assumes s: "safe v opn l B H w" and sv: "server w = Some sv" and c: "c = fresh_conn w"
    and cn: "new_conn c io fd cn" and io: "io < fresh_loop w" and fd: "spare_fd opn w fd"
    and w1: "w1 = w\<lparr>conns := (conns w)(c := Some cn), fresh_conn := c + 1, server := Some sv'\<rparr>"
    and ok: "server_ok sv' w1" and new: "connections sv' = connections sv @ [(n, c)]"
      "srv_acceptor sv' = srv_acceptor sv" "srv_loop sv' = srv_loop sv"
      "base_loop (srv_pool sv') = base_loop (srv_pool sv)" "pool_loops (srv_pool sv') = pool_loops (srv_pool sv)"
  shows "safe v opn l B H w1 \<and> readies l B w w1 \<and> in_table c (server w1) \<and> \<not> awaiting l B w1 c \<and> \<not> parting l B w1 c"
proof -
  have fresh: "conns w c = None"
    using safe_server [OF s] sv c server_okD(7) [of sv w c] by auto
  have same: "epfd w1 = epfd w" "chans w1 = chans w" "seen v w1 = seen v w" "loops w1 = loops w"
      "kern w1 = kern w" "fresh_loop w1 = fresh_loop w" "cur_tid w1 = cur_tid w"
    by (simp_all add: w1 fun_eq_iff epfd_def chans_def seen_def cong: option.case_cong)
  have cs: "conns w1 = (conns w)(c := Some cn)" "server w1 = Some sv'" by (simp_all add: w1)
  have tab: "in_table d (server w1) \<longleftrightarrow> in_table d (server w) \<or> d = c" for d
    by (auto simp: in_table_def sv cs new(1))
  have q: "queue_of l B w1 = queue_of l B w" "queued l B w1 = queued l B w"
    by (simp_all add: queue_of_def queued_def same fun_eq_iff)
  note none = queued_live [OF s fresh]
  have place: "place w1 l2 x p" if "place w l2 x p" for l2 x p
    using that fresh by (cases p) (auto simp: sv cs same new)
  have infra: "infra_fds w1 = infra_fds w" by (simp add: infra_fds_def same sv cs new)
  have live: "live_at w l2 d \<Longrightarrow> live_at w1 l2 d" for l2 d using fresh by (auto simp: live_at_def cs)
  have ref: "referenced d w1" if "referenced d w \<or> d = c" for d
    using that unfolding referenced_def tab same by auto
  have slots: "slots_ok v w1" using safeD(1) [OF s] place unfolding slots_ok_def same by blast
  have "slot_state kChannelInitialized (ConnCh c) (chans w io fd) (seen v w io fd)"
    using spare_slots [OF s fd io] by (simp add: slot_state_def)
  then have "conn_ok v w1 c cn"
    using cn io safeD(1) [OF s] unfolding conn_ok_reg same by (simp add: new_conn_def slots_ok_def)
  then have conns: "conns_ok v w1"
    using safeD(2) [OF s] unfolding conns_ok_def cs(1) by (auto simp: conn_ok_reg same)
  have fds: "fds_ok opn w1"
    using safeD(3) [OF s] fd cn unfolding fds_ok_def infra same cs(1) spare_fd_def new_conn_def
    by (auto split: if_split_asm; blast)
  have acc: "acceptor_ok w1"
    using safeD(4) [OF s] ok sv unfolding acceptor_ok_def by (auto simp: cs same new)
  have queues: "queues_ok l B w1"
  proof -
    have "functor_ok w1 l2 f" if "functor_ok w l2 f" for l2 f
      using that live fresh by (cases f) (auto simp: cs)
    then show ?thesis using safeD(5) [OF s] by (simp add: queues_ok_def q same)
  qed
  have stages: "stages_ok l B H w1"
    unfolding stages_ok_def
  proof (intro allI impI)
    fix d dn assume d: "conns w1 d = Some dn"
    show "stage_ok l B w1 d dn \<and> (referenced d w1 \<or> d \<in> H)"
    proof (cases "d = c")
      case True
      then show ?thesis
        using none ref by (simp add: stage_ok_def kept_def awaiting_def tab q)
    next
      case False
      then have "conns w d = Some dn" using d by (simp add: cs)
      then show ?thesis
        using safe_stage(1) [OF s, of d dn] safe_stage(2) [OF s, of d dn] ref [of d] False
        by (auto simp: stage_ok_def kept_def awaiting_def parting_def tab q)
    qed
  qed
  have "own_thread w d \<Longrightarrow> own_thread w1 d" for d
    using fresh by (auto simp: own_thread_def cs same split: option.splits)
  then have "readies l B w w1"
    using fresh by (auto simp: readies_def ready_def kept_def awaiting_def tab q same cs(1))
  then show ?thesis
    using slots conns fds acc queues stages none
    by (simp add: safe_def tab awaiting_def parting_def q)
qed

text \<open>Queueing the \<open>connEstablish\<close> of a connection that has just been put in the table.\<close>

lemma push_establish_safe:
  assumes k: "kernel_ok os v opn" and s: "safe v opn l B H w" and cn: "conns w c = Some cn"
    and new: "tc_state cn = kConnecting" "ch_state (tc_channel cn) = kChannelInitialized"
      "in_table c (server w)" "\<not> awaiting l B w c" "\<not> parting l B w c"
    and io: "io = tc_loop cn" and w': "w' = net_push os io (FConnEstablish c) w"
    and rd: "\<not> ready l B w0 c" "readies l B w0 w"
  shows "safe v opn l B H w' \<and> readies l B w0 w'"
proof -
  have io': "io < fresh_loop w" using safe_conn [OF s cn] io by (simp add: conn_ok_def)
  have ev: "evolves w w'" unfolding w' by (rule net_push_evolves)
  obtain k1 lp where q: "pushLoopCallback os (cur_tid w) (FConnEstablish c) (kern w, loops w io) = (k1, lp)" by fastforce
  have lp: "lp = (loops w io)\<lparr>pending := pending (loops w io) @ [FConnEstablish c]\<rparr>"
    using pushLoopCallback_loop [of os "cur_tid w" "FConnEstablish c" "kern w" "loops w io"] q by simp
  have kv: "keeps_views v opn (kern w) k1"
    using pushLoopCallback_wakes [of os "cur_tid w" "FConnEstablish c" "kern w" "loops w io"] q kernel_quiet(10) [OF k]
    by (auto simp: keeps_views_def split: if_split_asm)
  have w'': "w' = w\<lparr>kern := k1, loops := (loops w)(io := lp)\<rparr>" by (simp add: w' net_push_def on_loop_def q)
  have same: "epfd w' = epfd w" "chans w' = chans w" "seen v w' = seen v w" "conns w' = conns w"
      "fresh_loop w' = fresh_loop w" "server w' = server w" "fresh_conn w' = fresh_conn w"
    using kv by (simp_all add: w'' lp fun_eq_iff epfd_def chans_def seen_def keeps_views_def cong: option.case_cong)
  have f: "world_frame w w'" using ev by (simp add: world_frame_def same) (simp add: w'' lp)
  have pe: "pends (\<lambda>_ _. True) w w'" by (auto simp: pends_def w'' lp)
  have q': "queue_of l B w' l' = queue_of l B w l' @ (if l' = io then [FConnEstablish c] else [])" for l'
    by (simp add: queue_of_def w'' lp)
  have qd: "queued l B w' g \<longleftrightarrow> queued l B w g \<or> g = FConnEstablish c" for g
    using io' by (auto simp: queued_def q' same)
  have kept: "kept l B w' d \<longleftrightarrow> kept l B w d" and part: "parting l B w' d \<longleftrightarrow> parting l B w d"
      and aw: "awaiting l B w' d \<longleftrightarrow> awaiting l B w d \<or> d = c" for d
    by (simp_all add: kept_def parting_def awaiting_def qd same)
  have slots: "slots_ok v w'"
    by (rule slots_frame [OF f safeD(1) [OF s]]) (simp_all add: same)
  have conns: "conns_ok v w'" using safeD(2) [OF s] unfolding conns_ok_def conn_ok_reg same .
  have fds: "fds_ok opn w'" by (rule fds_frame [OF f _ safeD(3) [OF s]]) (use kv in \<open>simp add: w'' keeps_views_def\<close>)
  have queues: "queues_ok l B w'"
    unfolding queues_ok_def same
  proof (intro allI impI conjI)
    fix l' assume l': "l' < fresh_loop w"
    have old: "\<forall>f \<in> set (queue_of l B w l'). functor_ok w l' f" "distinct (filter is_establish (queue_of l B w l'))"
      using safeD(5) [OF s] l' by (simp_all add: queues_ok_def)
    show "\<forall>f \<in> set (queue_of l B w' l'). functor_ok w' l' f"
      using old(1) functor_ok_evolves [OF ev] cn io by (auto simp: q' live_at_def same)
    have "FConnEstablish c \<notin> set (queue_of l B w l')"
      using new(4) l' by (auto simp: awaiting_def queued_def)
    then show "distinct (filter is_establish (queue_of l B w' l'))" using old(2) by (auto simp: q')
  qed
  have "stage_ok l B w' d dn \<and> (referenced d w' \<or> d \<in> H)" if d: "conns w d = Some dn" for d dn
    using safe_stage [OF s d] referenced_frame [OF f pe, of d] new cn d
    by (auto simp: stage_ok_def kept part aw same) 
  then have stages: "stages_ok l B H w'" unfolding stages_ok_def same by blast
  have "readies l B w0 w'"
    using rd own_thread_evolves [OF ev] by (auto simp: readies_def ready_def kept aw same)
  then show ?thesis
    using slots conns fds queues stages acceptor_frame [OF f safeD(4) [OF s]] by (simp add: safe_def)
qed

lemma new_conn_made:
  assumes "TcpConnection_new os A c (Some io) name fd la pa k = Inr (k', cn)"
  shows "new_conn c io fd cn \<and> tc_name cn = name"
proof -
  obtain b where "buffer_new A kInitialSize = Inr b" "input_buffer cn = b" "output_buffer cn = b"
      "tc_loop cn = io" "tc_name cn = name" "tc_sockfd cn = fd" "tc_state cn = kConnecting"
      "tc_channel cn = setErrorCallback (HConnError c) (setCloseCallback (HConnClose c)
         (setWriteCallback (HConnWrite c) (setReadCallback (HConnRead c) (Channel_new io fd))))"
    using TcpConnection_new_result [of os A c io name fd la pa k] assms by auto
  moreover from this(1) have "buf_inv b" "read_index b = 0"
    using buffer_new_inv [of kInitialSize A]
    by (auto simp: kInitialSize_def vec_max_def buffer_new_def vec_resize_def KCheapPrepend_def split: if_split_asm)
  ultimately show ?thesis
    by (simp add: new_conn_def front_inv_def handlers_in_def conn_handlers_def setErrorCallback_def
        setCloseCallback_def setWriteCallback_def setReadCallback_def Channel_new_def kChannelInitialized_def)
qed

text \<open>What \<open>newConnection\<close> makes before it has the connection established.\<close>

lemma newConnection_made:
  assumes s: "safe v opn l B H w" and run: "newConnection os A app fd pa w \<noteq> Inl SignedOverflow"
  obtains sv sv1 io cn n k1 w1 where "server w = Some sv"
    and "k1 = setKeepAlive os fd True (snd (sys_getsockname os fd (kern w)))"
    and "new_conn (fresh_conn w) io fd cn" and "io < fresh_loop w"
    and "w1 = w\<lparr>kern := k1, conns := (conns w)(fresh_conn w := Some cn), fresh_conn := fresh_conn w + 1, server := Some sv1\<rparr>"
    and "server_ok sv1 w1" and "connections sv1 = connections sv @ [(n, fresh_conn w)]"
    and "srv_acceptor sv1 = srv_acceptor sv" and "srv_loop sv1 = srv_loop sv"
    and "base_loop (srv_pool sv1) = base_loop (srv_pool sv)" and "pool_loops (srv_pool sv1) = pool_loops (srv_pool sv)"
    and "newConnection os A app fd pa w = runLoopCallback (cur_tid w1) (loops w1 io)
      (\<lambda>_. connEstablish os A app (fresh_conn w)) (net_push os io) (FConnEstablish (fresh_conn w)) w1"
proof -
  obtain sv where sv: "server w = Some sv" "server_ok sv w" using safe_server [OF s] by blast
  let ?c = "fresh_conn w" and ?k0 = "snd (sys_getsockname os fd (kern w))" and ?n = "conn_name_of sv (next_conn_id sv)"
  obtain io p cn0 cn la k1 w1 where np: "getNextLoop (srv_pool sv) = Inr (io, p)" and id: "next_conn_id sv \<noteq> 2 ^ 31 - 1"
      and k1: "k1 = setKeepAlive os fd True ?k0"
      and new: "TcpConnection_new os A ?c (Some io) ?n fd la pa ?k0 = Inr (k1, cn0)"
      and cn: "cn = conn_setCloseCallback (Some kRemoveConnection)
        (setWriteCompleteCallback (srv_write_complete_callback sv)
        (setMessageCallback (srv_msg_callback sv) (setConnectionCallback (srv_conn_callback sv) cn0)))"
      and w1: "w1 = w\<lparr>kern := k1, conns := (conns w)(?c := Some cn), fresh_conn := ?c + 1,
        server := Some (sv\<lparr>srv_pool := p, next_conn_id := next_conn_id sv + 1,
          connections := connections sv @ [(?n, ?c)]\<rparr>)\<rparr>"
      and r: "newConnection os A app fd pa w = runLoopCallback (cur_tid w1) (loops w1 io)
        (\<lambda>_. connEstablish os A app ?c) (net_push os io) (FConnEstablish ?c) w1"
    using newConnection_run [OF sv, of os A app fd pa] run by metis
  have pool: "pool_inv p" "base_loop p = base_loop (srv_pool sv)" "pool_loops p = pool_loops (srv_pool sv)"
      "io \<in> insert (base_loop (srv_pool sv)) (set (pool_loops (srv_pool sv)))"
    using getNextLoop_inv [OF server_okD(6) [OF sv(2)]] np by auto
  have io: "io < fresh_loop w" using safeD(4) [OF s] sv(1) pool(4) by (auto simp: acceptor_ok_def)
  have nc: "new_conn ?c io fd cn" "tc_name cn = ?n"
    using new_conn_made [OF new]
    by (simp_all add: cn new_conn_def conn_setCloseCallback_def setWriteCompleteCallback_def
        setMessageCallback_def setConnectionCallback_def)
  show ?thesis
    by (rule that [OF sv(1) k1 nc(1) io w1 _ _ _ _ _ _ r])
       (simp_all add: pool w1 server_ok_insert [OF sv(2) id pool(1) nc(2) refl])
qed

text \<open>The state in which the new connection is in the table and not established yet.\<close>

lemma newConnection_added:
  assumes k: "kernel_ok os v opn" and s: "safe v opn l B H w" and fd: "spare_fd opn w fd"
    and run: "newConnection os A app fd pa w \<noteq> Inl SignedOverflow"
  obtains io cn k1 so w1 where "keeps_views v opn (kern w) k1" and "new_conn (fresh_conn w) io fd cn" and "io < fresh_loop w"
    and "w1 = w\<lparr>kern := k1, conns := (conns w)(fresh_conn w := Some cn), fresh_conn := fresh_conn w + 1, server := so\<rparr>"
    and "safe v opn l B H w1" and "readies l B w w1" and "in_table (fresh_conn w) (server w1)"
    and "\<not> awaiting l B w1 (fresh_conn w)" and "\<not> parting l B w1 (fresh_conn w)"
    and "newConnection os A app fd pa w = runLoopCallback (cur_tid w1) (loops w1 io)
      (\<lambda>_. connEstablish os A app (fresh_conn w)) (net_push os io) (FConnEstablish (fresh_conn w)) w1"
proof -
  let ?c = "fresh_conn w"
  obtain sv sv1 io cn n k1 w1 where sv: "server w = Some sv"
      and k1: "k1 = setKeepAlive os fd True (snd (sys_getsockname os fd (kern w)))"
      and nc: "new_conn ?c io fd cn" and io: "io < fresh_loop w"
      and w1: "w1 = w\<lparr>kern := k1, conns := (conns w)(?c := Some cn), fresh_conn := ?c + 1, server := Some sv1\<rparr>"
      and ok: "server_ok sv1 w1" and sv1: "connections sv1 = connections sv @ [(n, ?c)]"
        "srv_acceptor sv1 = srv_acceptor sv" "srv_loop sv1 = srv_loop sv"
        "base_loop (srv_pool sv1) = base_loop (srv_pool sv)" "pool_loops (srv_pool sv1) = pool_loops (srv_pool sv)"
      and r: "newConnection os A app fd pa w = runLoopCallback (cur_tid w1) (loops w1 io)
        (\<lambda>_. connEstablish os A app ?c) (net_push os io) (FConnEstablish ?c) w1"
    by (rule newConnection_made [OF s run])
  let ?w0 = "w\<lparr>kern := k1\<rparr>"
  have kv: "keeps_views v opn (kern w) k1"
    using kernel_quiet(5,7) [OF k] unfolding k1 setKeepAlive_def by (blast intro: keeps_views_simps)
  note W = kern_safe [OF s kv]
  have w1': "w1 = ?w0\<lparr>conns := (conns ?w0)(?c := Some cn), fresh_conn := ?c + 1, server := Some sv1\<rparr>"
    by (simp add: w1)
  have fd0: "spare_fd opn ?w0 fd"
    using fd kv by (simp add: spare_fd_def keeps_views_def infra_fds_def epfd_def)
  have add: "safe v opn l B H w1 \<and> readies l B ?w0 w1 \<and> in_table ?c (server w1) \<and> \<not> awaiting l B w1 ?c
      \<and> \<not> parting l B w1 ?c"
    by (rule conn_added_safe [OF conjunct1 [OF W] _ _ nc _ fd0 w1' ok sv1]) (use sv io in simp_all)
  moreover have "readies l B w w1" using W add readies_trans by blast
  ultimately show ?thesis by (intro that [OF kv nc io w1 _ _ _ _ _ r]) blast+
qed

lemma newConnection_sound:
  assumes k: "kernel_ok os v opn" and app: "app_ok app" and s: "safe v opn l B H w" and fd: "spare_fd opn w fd"
  shows "sound (\<lambda>w'. safe v opn l B H w' \<and> readies l B w w') (newConnection os A app fd pa w)"
proof (cases "newConnection os A app fd pa w = Inl SignedOverflow")
  case False
  let ?c = "fresh_conn w"
  obtain io cn k1 so w1 where nc: "new_conn ?c io fd cn" and io: "io < fresh_loop w"
      and w1: "w1 = w\<lparr>kern := k1, conns := (conns w)(?c := Some cn), fresh_conn := ?c + 1, server := so\<rparr>"
      and add: "safe v opn l B H w1" "readies l B w w1" "in_table ?c (server w1)"
        "\<not> awaiting l B w1 ?c" "\<not> parting l B w1 ?c"
      and run: "newConnection os A app fd pa w = runLoopCallback (cur_tid w1) (loops w1 io)
        (\<lambda>_. connEstablish os A app ?c) (net_push os io) (FConnEstablish ?c) w1"
    by (rule newConnection_added [OF k s fd False])
  have cn1: "conns w1 ?c = Some cn" by (simp add: w1)
  obtain sv' where "server_ok sv' w" using safe_server [OF s] by blast
  then have none: "\<not> ready l B w ?c" using server_okD(7) [of sv' w ?c] by (simp add: ready_def)
  show ?thesis
    unfolding run
  proof (rule runLoopCallback_sound)
    assume "isInLoopThread (cur_tid w1) (loops w1 io)"
    then have "own_thread w1 ?c" using cn1 nc by (simp add: own_thread_def new_conn_def)
    moreover have "ready l B w1 ?c" using add cn1 by (simp add: ready_def kept_def)
    ultimately show "sound (\<lambda>w'. safe v opn l B H w' \<and> readies l B w w') (connEstablish os A app ?c w1)"
      using sound_readies [OF connEstablish_sound [OF k app add(1)] add(2)] by blast
  next
    show "safe v opn l B H (net_push os io (FConnEstablish ?c) w1)
        \<and> readies l B w (net_push os io (FConnEstablish ?c) w1)"
      by (rule push_establish_safe [OF k add(1) cn1 _ _ _ _ _ _ refl none add(2)])
         (use add nc io w1 in \<open>simp_all add: new_conn_def\<close>)
  qed
qed simp

text \<open>What \<open>accept4\<close> returns is a descriptor nobody has.\<close>

lemma accepted_safe:
  assumes k: "kernel_ok os v opn" and s: "safe v opn l B H w" and acc: "sys_accept4 os fa (kern w) = (r, k1)"
  shows "safe v opn l B H (w\<lparr>kern := k1\<rparr>) \<and> readies l B w (w\<lparr>kern := k1\<rparr>)"
    and "v k1 = v (kern w)" and "r = Inr (fd, addr) \<Longrightarrow> spare_fd opn (w\<lparr>kern := k1\<rparr>) fd"
proof -
  let ?w1 = "w\<lparr>kern := k1\<rparr>"
  have o: "opens v opn (kern w) (map_sum id fst r, k1)"
    using kernel_okD(4) [OF k] acc unfolding descriptors_ok_def by blast
  then show "v k1 = v (kern w)" by (simp add: opens_def)
  obtain sv where sv: "server w = Some sv" using safe_server [OF s] by blast
  have i: "inert v opn w ?w1"
    using o sv by (cases r) (auto simp: inert_def opens_def epfd_def chans_def seen_def fun_eq_iff
        option.rel_refl cong: option.case_cong)
  show "safe v opn l B H ?w1 \<and> readies l B w ?w1"
    using inert_safe [OF s i] inert_readies [OF i] by (simp add: same_queues_def)
  show "spare_fd opn ?w1 fd" if "r = Inr (fd, addr)"
  proof -
    have "infra_fds ?w1 = infra_fds w" by (simp add: infra_fds_def epfd_def)
    then show ?thesis
      using o safeD(3) [OF s] that unfolding spare_fd_def fds_ok_def by (auto simp: opens_def)
  qed
qed

lemma accept_sound:
  assumes k: "kernel_ok os v opn" and app: "app_ok app" and s: "safe v opn l B H w"
  shows "sound (\<lambda>w'. safe v opn l B H w' \<and> readies l B w w') (run_handler os A app time HAcceptRead w)"
proof -
  obtain sv where sv: "server w = Some sv" "new_connection_callback (srv_acceptor sv)"
    using safeD(4) [OF s] by (auto simp: acceptor_ok_def)
  obtain r k1 where acc: "sys_accept4 os (accept_socket (srv_acceptor sv)) (kern w) = (r, k1)" by fastforce
  let ?w1 = "w\<lparr>kern := k1\<rparr>"
  note W = conjunct1 [OF accepted_safe(1) [OF k s acc]] conjunct2 [OF accepted_safe(1) [OF k s acc]]
  show ?thesis
  proof (cases r)
    case (Inl e)
    then show ?thesis
      using W by (simp add: run_handler_def with_server_def sv acceptor_handleRead_def socket_accept_def acc Let_def)
  next
    case (Inr fa)
    obtain fd addr where fa: "fa = (fd, addr)" by fastforce
    have "sound (\<lambda>w'. safe v opn l B H w' \<and> readies l B w w') (newConnection os A app fd pa ?w1)" for pa
      by (rule sound_readies [OF newConnection_sound [OF k app W(1) accepted_safe(3) [OF k s acc]] W(2)])
         (simp add: Inr fa)
    then show ?thesis
      by (simp add: run_handler_def with_server_def sv acceptor_handleRead_def socket_accept_def
          acc Inr fa Let_def)
  qed
qed

end
