(* ===== verification/SafeTurn.thy ===== *)
theory SafeTurn
  imports SafeServer
begin

text \<open>
  A turn of a loop keeps the invariant: handlers, functors, the release of the vector of functors, the
  wait for events. \<open>turns_sound\<close> is the result for any interleaving of turns of the loops.
\<close>

section \<open>Functors\<close>

lemma queued_Cons: "queued l (f # B) w g \<longleftrightarrow> queued l B w g \<or> g = f \<and> l < fresh_loop w"
  by (auto simp: queued_def queue_of_def)

text \<open>Taking a functor out of the vector. A \<open>connDestory\<close> goes when it has run.\<close>

lemma drop_functor:
  assumes s: "safe v opn l (f # B) H w" and l: "l < fresh_loop w"
    and f: "\<And>c. f = FConnDestory c \<Longrightarrow> hushed c w"
  shows "safe v opn l B H w"
proof -
  have "stage_ok l B w c cn" if c: "conns w c = Some cn" for c cn
    using safe_stage(1) [OF s c] f [of c] c
    by (auto simp: stage_ok_def kept_def awaiting_def parting_def queued_Cons hushed_def)
  moreover have "queues_ok l B w"
    using safeD(5) [OF s] by (fastforce simp: queues_ok_def queue_of_def split: if_split_asm)
  ultimately show ?thesis
    using s by (simp add: safe_def stages_ok_def)
qed

text \<open>What may be relied on when a functor is taken from the vector.\<close>

lemma functor_at:
  assumes "safe v opn l (f # B) H w" and "l < fresh_loop w"
  shows "functor_ok w l f"
  using safeD(5) [OF assms(1)] assms(2) by (auto simp: queues_ok_def queue_of_def)

lemma establish_ready:
  assumes s: "safe v opn l (FConnEstablish c # B) H w" and l: "l < fresh_loop w"
  shows "ready l B w c"
proof -
  obtain cn where cn: "conns w c = Some cn" using functor_at [OF s l] by (auto simp: live_at_def)
  then have loop: "tc_loop cn = l" using functor_at [OF s l] by (auto simp: live_at_def)
  have "awaiting l (FConnEstablish c # B) w c" using l by (simp add: awaiting_def queued_Cons)
  then have "in_table c (server w)" using safe_stage(1) [OF s cn] by (simp add: stage_ok_def)
  moreover have "\<not> queued l B w (FConnEstablish c)"
  proof
    assume "queued l B w (FConnEstablish c)"
    then obtain l' where l': "l' < fresh_loop w" "FConnEstablish c \<in> set (queue_of l B w l')"
      by (auto simp: queued_def)
    then have "FConnEstablish c \<in> set (queue_of l (FConnEstablish c # B) w l')" by (auto simp: queue_of_def)
    then have "live_at w l' c" using safeD(5) [OF s] l'(1) by (fastforce simp: queues_ok_def)
    then have "l' = l" using cn loop by (simp add: live_at_def)
    then have "\<not> distinct (filter is_establish (queue_of l (FConnEstablish c # B) w l))"
      using l' by (simp add: queue_of_def)
    then show False using safeD(5) [OF s] l unfolding queues_ok_def by blast
  qed
  ultimately show ?thesis using cn by (simp add: ready_def kept_def awaiting_def)
qed

lemma destroy_ready:
  assumes s: "safe v opn l (FConnDestory c # B) H w" and l: "l < fresh_loop w"
  shows "ready l (FConnDestory c # B) w c"
proof -
  obtain cn where cn: "conns w c = Some cn" using functor_at [OF s l] by (auto simp: live_at_def)
  then show ?thesis
    using safe_stage(1) [OF s cn] l
    by (auto simp: ready_def kept_def stage_ok_def parting_def queued_Cons)
qed

lemma remove_not_awaiting:
  assumes s: "safe v opn l (FRemoveConnection c # B) H w" and l: "l < fresh_loop w"
  shows "\<exists>cn. conns w c = Some cn \<and> \<not> awaiting l B w c"
proof -
  obtain cn where cn: "conns w c = Some cn" using functor_at [OF s l] by auto
  then show ?thesis
    using safe_stage(1) [OF s cn] l by (auto simp: stage_ok_def parting_def awaiting_def queued_Cons)
qed

lemma run_functor_sound:
  assumes k: "kernel_ok os v opn" and app: "app_ok app" and s: "safe v opn l (f # B) H w"
    and l: "l < fresh_loop w" and t: "isInLoopThread (cur_tid w) (loops w l)"
  shows "sound (\<lambda>w'. safe v opn l B H w' \<and> fresh_loop w' = fresh_loop w) (run_functor os A app f w)"
proof -
  note ok = functor_at [OF s l]
  have own: "own_thread w c" if "live_at w l c" for c
    using that t by (auto simp: live_at_def own_thread_def)
  have d: "safe v opn l B H w" if "\<And>c. f \<noteq> FConnDestory c"
    using drop_functor [OF s l] that by blast
  have weak: "sound (\<lambda>w'. safe v opn l B H w' \<and> fresh_loop w' = fresh_loop w) r"
    if "sound (\<lambda>w'. safe v opn l B H w' \<and> readies l B w w') r" for r
    by (rule sound_mono [OF that]) (use readiesD(1) in blast)
  have call: "sound (\<lambda>w'. safe v opn l B H w' \<and> readies l B w w') (run_actions os A as (note_call ob w))"
    if "safe v opn l B H w" "live_at w l c" "view_ok w c \<Longrightarrow> own_ok w c as" for c as ob
    using own_call_sound [OF k that(1) own [OF that(2)]] safe_view [OF that(1) own [OF that(2)]] that(3) by blast
  show ?thesis
  proof (cases f)
    case (FSendInLoop c a n)
    then show ?thesis using ok by simp
  next
    case (FShutdownInLoop c)
    then show ?thesis using ok by simp
  next
    case (FConnEstablish c)
    then have "ready l B w c" "own_thread w c" using establish_ready s l own ok by auto
    then show ?thesis
      using weak [OF connEstablish_sound [OF k app d]] by (simp add: FConnEstablish run_functor_def)
  next
    case (FConnDestory c)
    have c: "ready l (f # B) w c" "own_thread w c" using destroy_ready s l own ok FConnDestory by auto
    have "sound (\<lambda>w'. safe v opn l B H w' \<and> fresh_loop w' = fresh_loop w) (connDestory os A app c w)"
    proof (rule sound_mono [OF connDestory_sound [OF k app s c]])
      fix w' assume a: "(safe v opn l (f # B) H w' \<and> readies l (f # B) w w') \<and> hushed c w'"
      then have fl: "fresh_loop w' = fresh_loop w" using readiesD(1) by blast
      moreover have "safe v opn l B H w'"
        by (rule drop_functor [of v opn l f B H w']) (use a fl l FConnDestory in auto)
      ultimately show "safe v opn l B H w' \<and> fresh_loop w' = fresh_loop w" by blast
    qed
    then show ?thesis by (simp add: FConnDestory run_functor_def)
  next
    case (FWriteComplete cb c)
    then show ?thesis
      using weak [OF call [OF d]] ok app by (simp add: run_functor_def app_ok_def)
  next
    case (FHighWater cb c n)
    then show ?thesis
      using weak [OF call [OF d]] ok app by (simp add: run_functor_def app_ok_def)
  next
    case FListen
    then show ?thesis using weak [OF server_listen_sound [OF k d]] by (simp add: run_functor_def)
  next
    case (FRemoveConnection c)
    obtain cn where "conns w c = Some cn" "\<not> awaiting l B w c"
      using remove_not_awaiting s l FRemoveConnection by blast
    then show ?thesis
      using weak [OF removeConnectionInLoop_sound [OF k d]] FRemoveConnection by (simp add: run_functor_def)
  next
    case (FUser u)
    then show ?thesis
      using weak [OF free_call_sound [OF k d]] app by (simp add: run_functor_def app_ok_def)
  qed
qed

section \<open>Handlers\<close>

fun target_ok :: "nat \<Rightarrow> Functor list \<Rightarrow> 'k world \<Rightarrow> chan_ptr \<Rightarrow> bool" where
  "target_ok l B w (ConnCh c) \<longleftrightarrow> ready l B w c \<and> own_thread w c"
| "target_ok l B w p \<longleftrightarrow> True"

lemma target_readies: "readies l B w w' \<Longrightarrow> target_ok l B w p \<Longrightarrow> target_ok l B w' p"
  by (cases p) (auto dest: readiesD)

lemma run_handler_sound:
  assumes k: "kernel_ok os v opn" and app: "app_ok app" and s: "safe v opn l B H w"
    and h: "h \<in> range HAwake \<or> h = HAcceptRead \<or> (\<exists>c. h \<in> conn_handlers c \<and> target_ok l B w (ConnCh c))"
  shows "sound (\<lambda>w'. safe v opn l B H w' \<and> readies l B w w') (run_handler os A app time h w)"
proof (cases h)
  case (HAwake l')
  then show ?thesis using awake_safe [OF k s, of l'] by (simp add: run_handler_def)
next
  case HAcceptRead
  then show ?thesis using accept_sound [OF k app s] by simp
qed (use h handleRead_sound [OF k app s] conn_write_sound [OF k s] handleClose_sound [OF k app s]
      handleError_sound [OF k s] in \<open>auto simp: run_handler_def conn_handlers_def\<close>)

lemma handleEvent_sound:
  assumes k: "kernel_ok os v opn" and app: "app_ok app" and s: "safe v opn l B H w"
    and ch: "handlers_in hs ch"
    and hs: "\<And>h. h \<in> hs \<Longrightarrow> h \<in> range HAwake \<or> h = HAcceptRead \<or> (\<exists>c. h \<in> conn_handlers c \<and> target_ok l B w (ConnCh c))"
  shows "sound (\<lambda>w'. safe v opn l B H w' \<and> readies l B w w')
    (handleEvent alive (run_handler os A app time) ch w)"
proof -
  let ?I = "\<lambda>xs w'. safe v opn l B H w' \<and> readies l B w w' \<and> set xs \<subseteq> hs"
  have "set (dispatch ch) \<subseteq> hs" using ch by (auto simp: set_dispatch handlers_in_def split: if_split_asm)
  then have start: "?I (dispatch ch) w" using s by simp
  have step: "sound (?I xs) (run_handler os A app time x w1)" if "?I (x # xs) w1" for x xs w1
  proof -
    have s1: "safe v opn l B H w1" and rd: "readies l B w w1" and x: "x \<in> hs" "set xs \<subseteq> hs" using that by auto
    have "x \<in> range HAwake \<or> x = HAcceptRead \<or> (\<exists>c. x \<in> conn_handlers c \<and> target_ok l B w1 (ConnCh c))"
      using hs [OF x(1)] target_readies [OF rd] by blast
    then show ?thesis
      by (rule sound_mono [OF sound_readies [OF run_handler_sound [OF k app s1] rd]]) (use x in blast)
  qed
  have "sound (?I []) (fold_res (run_handler os A app time) (dispatch ch) w)"
    by (rule sound_fold [where I = ?I, OF start step])
  then have "sound (\<lambda>w'. safe v opn l B H w' \<and> readies l B w w')
      (fold_res (run_handler os A app time) (dispatch ch) w)"
    by (rule sound_mono) simp
  then show ?thesis
    using s by (auto simp: handleEvent_def handleEventWithGuard_dispatch split: option.splits)
qed

lemma release_held: "safe v opn l B {} w \<Longrightarrow> release os c w = w"
  by (auto simp: release_def split: option.splits dest: safe_stage(2))

lemma handle_channel_sound:
  assumes k: "kernel_ok os v opn" and app: "app_ok app" and s: "safe v opn l B {} w" and p: "target_ok l B w p"
    and wl: "\<And>l'. p = WakeupCh l' \<Longrightarrow> l' < fresh_loop w"
  shows "sound (\<lambda>w'. safe v opn l B {} w' \<and> readies l B w w') (handle_channel os A app time p w)"
proof (cases p)
  case (WakeupCh l')
  then have "handlers_in (range HAwake) (wakeup_channel (loops w l'))"
    using safeD(1) [OF s] wl by (simp add: slots_ok_def)
  then show ?thesis
    using handleEvent_sound [OF k app s] by (simp add: WakeupCh handle_channel_def Let_def)
next
  case AcceptCh
  obtain sv where sv: "server w = Some sv" "handlers_in {HAcceptRead} (accept_channel (srv_acceptor sv))"
    using safeD(4) [OF s] by (auto simp: acceptor_ok_def)
  then show ?thesis
    using handleEvent_sound [OF k app s sv(2)] by (simp add: AcceptCh handle_channel_def Let_def with_server_def)
next
  case (ConnCh c)
  then obtain cn where cn: "conns w c = Some cn" using p by (auto simp: ready_def)
  have "handlers_in (conn_handlers c) (tc_channel cn)" using safe_conn [OF s cn] by (simp add: conn_ok_def)
  then have h: "sound (\<lambda>w'. safe v opn l B {} w' \<and> readies l B w w')
      (handleEvent (\<lambda>w c. conns w c \<noteq> None) (run_handler os A app time) (tc_channel cn) w)"
    by (rule handleEvent_sound [OF k app s]) (use p ConnCh in blast)
  have "sound (\<lambda>w'. safe v opn l B {} w' \<and> readies l B w w')
      (bind_res (handleEvent (\<lambda>w c. conns w c \<noteq> None) (run_handler os A app time) (tc_channel cn) w)
        (\<lambda>w. Inr (release os c w)))"
    by (rule sound_bind [OF h]) (simp add: release_held [of v opn l B])
  then show ?thesis by (simp add: handle_channel_def Let_def ConnCh cn)
qed

lemma handle_phase_sound:
  assumes k: "kernel_ok os v opn" and app: "app_ok app" and s: "safe v opn l B {} w"
    and ps: "\<And>p. p \<in> set (active_channels (loops w l')) \<Longrightarrow> target_ok l B w p \<and> (\<forall>m. p = WakeupCh m \<longrightarrow> m < fresh_loop w)"
  shows "sound (\<lambda>w'. safe v opn l B {} w' \<and> readies l B w w') (handle_phase os A app l' w)"
proof -
  let ?I = "\<lambda>xs w'. safe v opn l B {} w' \<and> readies l B w w' \<and> set xs \<subseteq> set (active_channels (loops w l'))"
  have start: "?I (active_channels (loops w l')) w" using s by simp
  have step: "sound (?I xs) (handle_channel os A app (poll_return_time (loops w l')) x w1)" if "?I (x # xs) w1" for x xs w1
  proof -
    have s1: "safe v opn l B {} w1" and rd: "readies l B w w1" and xs: "set xs \<subseteq> set (active_channels (loops w l'))"
        and x: "x \<in> set (active_channels (loops w l'))" using that by auto
    have "target_ok l B w1 x" "\<And>m. x = WakeupCh m \<Longrightarrow> m < fresh_loop w1"
      using ps [OF x] target_readies [OF rd] readiesD(1) [OF rd] by auto
    then show ?thesis
      by (rule sound_mono [OF sound_readies [OF handle_channel_sound [OF k app s1] rd]]) (use xs in auto)
  qed
  have "sound (?I []) (handle_phase os A app l' w)"
    unfolding handle_phase_def by (rule sound_fold [where I = ?I, OF start step])
  then show ?thesis by (rule sound_mono) simp
qed

section \<open>Waiting for events\<close>

lemma set_revents_sound:
  assumes s: "safe v opn l B H w" and p: "target_ok l B w p"
  shows "sound (\<lambda>w'. safe v opn l B H w' \<and> readies l B w w') (set_revents p ev w)"
proof (cases p)
  case (WakeupCh l')
  let ?w = "w\<lparr>loops := (loops w)(l' := (loops w l')\<lparr>wakeup_channel := setRevents ev (wakeup_channel (loops w l'))\<rparr>)\<rparr>"
  have i: "inert v opn w ?w"
    by (auto simp: inert_def epfd_def chans_def seen_def fun_eq_iff option.rel_refl cong: option.case_cong)
  have q: "same_queues w ?w" by (simp add: same_queues_def)
  have "readies l B w ?w" by (rule inert_readies [OF i q]) simp_all
  then show ?thesis using inert_safe [OF s i q] by (simp add: WakeupCh set_revents_def)
next
  case AcceptCh
  obtain sv where sv: "server w = Some sv" using safe_server [OF s] by blast
  let ?ac = "(srv_acceptor sv)\<lparr>accept_channel := setRevents ev (accept_channel (srv_acceptor sv))\<rparr>"
  let ?w = "w\<lparr>server := Some (sv\<lparr>srv_acceptor := ?ac\<rparr>)\<rparr>"
  have "srv_same sv (sv\<lparr>srv_acceptor := ?ac\<rparr>)"
    unfolding srv_same_def by (intro exI [of _ ?ac]) simp
  then have i: "inert v opn w ?w"
    using sv by (simp add: inert_def epfd_def chans_def seen_def fun_eq_iff cong: option.case_cong)
  have q: "same_queues w ?w" by (simp add: same_queues_def)
  have "readies l B w ?w" by (rule inert_readies [OF i q]) simp_all
  then show ?thesis using inert_safe [OF s i q] by (simp add: AcceptCh set_revents_def with_server_def sv)
next
  case (ConnCh c)
  then obtain cn where cn: "conns w c = Some cn" using p by (auto simp: ready_def)
  let ?cn = "cn\<lparr>tc_channel := setRevents ev (tc_channel cn)\<rparr>"
  have "front_inv (input_buffer cn)" using safe_conn [OF s cn] by (simp add: conn_ok_def)
  then have "safe v opn l B H (w\<lparr>conns := (conns w)(c := Some ?cn)\<rparr>)
      \<and> readies l B w (w\<lparr>conns := (conns w)(c := Some ?cn)\<rparr>)"
    using conn_local_safe [OF s cn, of ?cn] by (simp add: setRevents_def)
  then show ?thesis by (simp add: ConnCh set_revents_def upd_conn_def cn)
qed

lemma triggerChannels_sound:
  assumes "safe v opn l B H w" and "\<And>ev p. (ev, p) \<in> set es \<Longrightarrow> target_ok l B w p"
  shows "sound (\<lambda>(w', as). safe v opn l B H w' \<and> readies l B w w' \<and> as = active @ map snd es)
    (triggerChannels set_revents es active w)"
  using assms
proof (induction es arbitrary: w active)
  case (Cons e es)
  obtain ev p where e: "e = (ev, p)" by fastforce
  have "target_ok l B w p" using Cons.prems(2) e by auto
  note S = set_revents_sound [OF Cons.prems(1) this, of ev]
  show ?case
    unfolding e triggerChannels.simps
  proof (rule sound_bind [OF S])
    fix w1 assume w1: "safe v opn l B H w1 \<and> readies l B w w1"
    have "target_ok l B w1 p'" if "(ev', p') \<in> set es" for ev' p'
      using Cons.prems(2) target_readies w1 that by (metis list.set_intros(2))
    then have "sound (\<lambda>(w', as). safe v opn l B H w' \<and> readies l B w1 w' \<and> as = (active @ [p]) @ map snd es)
        (triggerChannels set_revents es (active @ [p]) w1)"
      using Cons.IH w1 by blast
    then show "sound (\<lambda>(w', as). safe v opn l B H w' \<and> readies l B w w' \<and> as = active @ map snd ((ev, p) # es))
        (triggerChannels set_revents es (active @ [p]) w1)"
      by (rule sound_mono) (use w1 readies_trans in auto)
  qed
qed simp

text \<open>What the system reports for a loop belongs to that loop and is alive.\<close>

lemma seen_target:
  assumes s: "safe v opn l B H w" and l': "l' < fresh_loop w" and p: "seen v w l' fd = Some (m, p)"
    and t: "cur_tid w = thread_id (loops w l')"
  shows "target_ok l B w p \<and> (\<forall>n. p = WakeupCh n \<longrightarrow> n < fresh_loop w)"
proof -
  have pl: "place w l' fd p" using safeD(1) [OF s] l' p by (simp add: slots_ok_def)
  show ?thesis
  proof (cases p)
    case (ConnCh c)
    then obtain cn where cn: "conns w c = Some cn" "tc_loop cn = l'" "tc_sockfd cn = fd" using pl by auto
    have "slot_state (ch_state (tc_channel cn)) (ConnCh c) (chans w l' fd) (Some (m, p))"
      using safe_conn [OF s cn(1)] cn(2,3) p by (simp add: conn_ok_reg)
    then have "ch_state (tc_channel cn) = kChannelAdded" by (auto simp: slot_state_def)
    then have "kept l B w c" "\<not> awaiting l B w c"
      using safe_stage(1) [OF s cn(1)] by (auto simp: stage_ok_def quiet_def)
    then show ?thesis
      using cn t by (simp add: ConnCh ready_def own_thread_def isInLoopThread_def)
  qed (use pl l' in auto)
qed

text \<open>What a poll returns, and where it is put.\<close>

lemma poller_poll_result:
  assumes k: "kernel_ok os v opn"
  obtains k2 po' es now where "poller_poll os t (k0, po) = Inr (k2, po', es, now)" and "keeps_views v opn k0 k2"
    and "epollfd po' = epollfd po" and "channels po' = channels po"
    and "\<forall>(ev, p) \<in> set es. \<exists>fd m. v k0 (epollfd po) fd = Some (m, p)"
proof -
  obtain r k1 where wait: "sys_epoll_wait os (epollfd po) (events_size po) t k0 = (r, k1)" by fastforce
  obtain now k2 where time: "sys_time os k1 = (now, k2)" by fastforce
  have rep: "keeps_views v opn k0 k1 \<and>
      (\<forall>es. r = Inr es \<longrightarrow> length es \<le> events_size po \<and> (\<forall>(ev, p) \<in> set es. \<exists>fd m. v k0 (epollfd po) fd = Some (m, p)))"
    using kernel_okD(2) [OF k] wait unfolding wait_reports_def by blast
  let ?es = "case r of Inl _ \<Rightarrow> [] | Inr es \<Rightarrow> es"
  let ?po = "if 0 < length ?es \<and> length ?es = events_size po then po\<lparr>events_size := events_size po * 2\<rparr> else po"
  have "poller_poll os t (k0, po) = Inr (k2, ?po, ?es, now)"
    using rep by (cases r) (auto simp: poller_poll_def wait time)
  moreover have "keeps_views v opn k0 k2"
    using rep kernel_quiet(8) [OF k, of k1] time keeps_views_simps(2) by auto
  ultimately show ?thesis by (rule that) (use rep in \<open>auto split: sum.split\<close>)
qed

lemma loop_fields_safe:
  assumes s: "safe v opn l B H w" and g: "\<And>lp. poller (g lp) = poller lp" "\<And>lp. wakeup_fd (g lp) = wakeup_fd lp"
    "\<And>lp. pending (g lp) = pending lp" "\<And>lp. wakeup_channel (g lp) = wakeup_channel lp"
    "\<And>lp. thread_id (g lp) = thread_id lp"
  shows "safe v opn l B H (upd_loop l' g w) \<and> readies l B w (upd_loop l' g w)"
proof -
  have i: "inert v opn w (upd_loop l' g w)"
    using g by (auto simp: inert_def upd_loop_def epfd_def chans_def seen_def fun_eq_iff option.rel_refl cong: option.case_cong)
  have q: "same_queues w (upd_loop l' g w)" using g by (simp add: same_queues_def upd_loop_def)
  show ?thesis
    using inert_safe [OF s i q] inert_readies [OF i q] g by (simp add: upd_loop_def isInLoopThread_def)
qed

lemma poll_phase_sound:
  assumes k: "kernel_ok os v opn" and s: "safe v opn l B H w" and l': "l' < fresh_loop w"
    and t: "cur_tid w = thread_id (loops w l')"
  shows "sound (\<lambda>w'. safe v opn l B H w' \<and> readies l B w w'
      \<and> (\<forall>p \<in> set (active_channels (loops w' l')). target_ok l B w' p \<and> (\<forall>m. p = WakeupCh m \<longrightarrow> m < fresh_loop w')))
    (poll_phase os l' w)"
proof -
  obtain po where po: "poller (loops w l') = Some po"
    using safeD(1) [OF s] l' by (auto simp: slots_ok_def epfd_def)
  obtain k2 po' es now where poll: "poller_poll os kPollWaitTime (kern w, po) = Inr (k2, po', es, now)"
      "keeps_views v opn (kern w) k2" "epollfd po' = epollfd po" "channels po' = channels po"
      "\<forall>(ev, p) \<in> set es. \<exists>fd m. v (kern w) (epollfd po) fd = Some (m, p)"
    by (rule poller_poll_result [OF k])
  define w1 where "w1 = upd_loop l' (\<lambda>lp. lp\<lparr>poller := Some po'\<rparr>)
      ((upd_loop l' (\<lambda>lp. lp\<lparr>active_channels := []\<rparr>) w)\<lparr>kern := k2\<rparr>)"
  have i: "inert v opn w w1"
    using poll(2-4) po by (auto simp: inert_def w1_def upd_loop_def epfd_def chans_def seen_def keeps_views_def
        fun_eq_iff option.rel_refl cong: option.case_cong)
  have q: "same_queues w w1" by (simp add: same_queues_def w1_def upd_loop_def)
  have W: "safe v opn l B H w1" "readies l B w w1"
    by (rule inert_safe [OF s i q]) (rule inert_readies [OF i q], simp_all add: w1_def upd_loop_def)
  have tgt: "target_ok l B w1 p \<and> (\<forall>n. p = WakeupCh n \<longrightarrow> n < fresh_loop w1)" if e: "(ev, p) \<in> set es" for ev p
  proof -
    obtain fd m where "v (kern w) (epollfd po) fd = Some (m, p)" using bspec [OF poll(5) e] by auto
    then have "seen v w l' fd = Some (m, p)" by (simp add: seen_def po)
    from seen_target [OF s l' this t] show ?thesis
      using target_readies [OF W(2)] readiesD(1) [OF W(2)] by auto
  qed
  have run: "poll_phase os l' w = bind_res (triggerChannels set_revents es [] w1) (\<lambda>(w, active).
      Inr (upd_loop l' (\<lambda>lp. lp\<lparr>active_channels := active, poll_return_time := now\<rparr>) w))"
    using po poll(1) by (simp add: poll_phase_def Let_def w1_def upd_loop_def)
  have trig: "sound (\<lambda>(w', as). safe v opn l B H w' \<and> readies l B w1 w' \<and> as = [] @ map snd es)
      (triggerChannels set_revents es [] w1)"
    using triggerChannels_sound [OF W(1)] tgt by blast
  show ?thesis
    unfolding run
  proof (rule sound_bind [OF trig], clarsimp)
    fix w2 assume w2: "safe v opn l B H w2" "readies l B w1 w2"
    let ?w = "upd_loop l' (\<lambda>lp. lp\<lparr>active_channels := map snd es, poll_return_time := now\<rparr>) w2"
    have W2: "safe v opn l B H ?w \<and> readies l B w2 ?w" by (rule loop_fields_safe [OF w2(1)]) simp_all
    then have rd: "readies l B w1 ?w" using w2(2) readies_trans by blast
    have "target_ok l B ?w p \<and> (\<forall>n. p = WakeupCh n \<longrightarrow> n < fresh_loop ?w)" if "p \<in> snd ` set es" for p
      using that tgt target_readies [OF rd] readiesD(1) [OF rd] by auto
    moreover have "active_channels (loops ?w l') = map snd es" by (simp add: upd_loop_def)
    ultimately show "safe v opn l B H ?w \<and> readies l B w ?w
      \<and> (\<forall>p \<in> set (active_channels (loops ?w l')). target_ok l B ?w p \<and> (\<forall>m. p = WakeupCh m \<longrightarrow> m < fresh_loop ?w))"
      using W2 rd W(2) readies_trans by (metis (no_types, lifting) set_map)
  qed
qed

section \<open>Running the functors\<close>

text \<open>Destroying a connection that nothing refers to and closing its descriptor.\<close>

definition closed_conn :: "('k \<Rightarrow> interest_view) \<Rightarrow> ('k \<Rightarrow> int set) \<Rightarrow> nat \<Rightarrow> int \<Rightarrow> 'k world \<Rightarrow> 'k world \<Rightarrow> bool" where
  "closed_conn v opn c fd w w' \<longleftrightarrow> epfd w' = epfd w \<and> chans w' = chans w \<and> loops w' = loops w \<and> server w' = server w
     \<and> fresh_loop w' = fresh_loop w \<and> fresh_conn w' = fresh_conn w \<and> conns w' = (conns w)(c := None)
     \<and> opn (kern w) - {fd} \<subseteq> opn (kern w')
     \<and> (\<forall>l' < fresh_loop w. \<forall>x. seen v w' l' x = seen v w l' x \<or> x = fd \<and> seen v w' l' x = None)"

lemma closed_connD:
  assumes "closed_conn v opn c fd w w'"
  shows "epfd w' = epfd w" "chans w' = chans w" "loops w' = loops w" "server w' = server w"
    "fresh_loop w' = fresh_loop w" "fresh_conn w' = fresh_conn w" "opn (kern w) - {fd} \<subseteq> opn (kern w')"
    "l' < fresh_loop w \<Longrightarrow> seen v w' l' x = seen v w l' x \<or> x = fd \<and> seen v w' l' x = None"
    "conns w' d = Some dn \<longleftrightarrow> conns w d = Some dn \<and> d \<noteq> c"
  using assms unfolding closed_conn_def by auto

lemma destroy_closed:
  assumes k: "kernel_ok os v opn" and s: "safe v opn l B H w" and cn: "conns w c = Some cn"
  shows "closed_conn v opn c (tc_sockfd cn) w (TcpConnection_destroy os c cn w)"
proof -
  let ?fd = "tc_sockfd cn" and ?w = "TcpConnection_destroy os c cn w"
  have w: "?w = w\<lparr>kern := snd (sys_close os ?fd (kern w)), conns := (conns w)(c := None)\<rparr>"
    by (simp add: TcpConnection_destroy_def Socket_destroy_def)
  have close: "opn (kern w) - {?fd} \<subseteq> opn (kern ?w)"
      "\<And>ep x. ep \<noteq> ?fd \<Longrightarrow> v (kern ?w) ep x = v (kern w) ep x \<or> x = ?fd \<and> v (kern ?w) ep x = None"
    using kernel_okD(4) [OF k] unfolding descriptors_ok_def Let_def w by simp_all
  have fd: "?fd \<notin> infra_fds w" using safeD(3) [OF s] cn unfolding fds_ok_def by blast
  have loops: "loops ?w = loops w" by (simp add: w)
  have "seen v ?w l' x = seen v w l' x \<or> x = ?fd \<and> seen v ?w l' x = None" if l': "l' < fresh_loop w" for l' x
  proof (cases "poller (loops w l')")
    case (Some po)
    then have "epollfd po \<noteq> ?fd" using fd l' by (auto simp: infra_fds_def epfd_def)
    then show ?thesis using close(2) Some by (simp add: seen_def loops)
  qed (simp add: seen_def loops)
  then show ?thesis using close(1) by (simp add: closed_conn_def w epfd_def chans_def fun_eq_iff)
qed

lemma closed_slots:
  assumes s: "safe v opn l B H w" and w': "closed_conn v opn c (tc_sockfd cn) w w'"
    and cn: "conns w c = Some cn" "ch_state (tc_channel cn) = kChannelInitialized"
  shows "slots_ok v w'"
proof -
  note same = closed_connD [OF w']
  have place: "place w' l' x p"
    if p: "place w l' x p" and reg: "chans w l' x = Some p \<or> (\<exists>m. seen v w l' x = Some (m, p))" for l' x p
  proof (cases p)
    case (ConnCh d)
    have "d \<noteq> c"
    proof
      assume "d = c"
      then have "l' = tc_loop cn" "x = tc_sockfd cn" using p ConnCh cn by auto
      then show False using safe_conn [OF s cn(1)] cn(2) reg by (auto simp: conn_ok_reg slot_state_def)
    qed
    then show ?thesis using p ConnCh by (simp add: same)
  qed (use p in \<open>simp_all add: same\<close>)
  show ?thesis
    unfolding slots_ok_def same(1-6)
  proof (intro conjI allI impI)
    fix l' x m p assume l': "l' < fresh_loop w" and "seen v w' l' x = Some (m, p)"
    then have e: "seen v w l' x = Some (m, p)" using same(8) [OF l', of x] by auto
    then have "place w l' x p" using safeD(1) [OF s] l' by (simp add: slots_ok_def)
    then show "place w' l' x p" using place e by blast
  qed (use safeD(1) [OF s] place in \<open>auto simp: slots_ok_def\<close>)
qed

lemma closed_conns:
  assumes s: "safe v opn l B H w" and w': "closed_conn v opn c (tc_sockfd cn) w w'" and cn: "conns w c = Some cn"
  shows "conns_ok v w'" "fds_ok opn w'"
proof -
  note same = closed_connD [OF w']
  have ne: "tc_sockfd dn \<noteq> tc_sockfd cn" if "conns w' d = Some dn" for d dn
    using that safeD(3) [OF s] cn unfolding same(9) fds_ok_def by metis
  show "conns_ok v w'"
    unfolding conns_ok_def
  proof (intro allI impI)
    fix d dn assume d: "conns w' d = Some dn"
    then have "conn_ok v w d dn" using safe_conn [OF s] same(9) by blast
    then show "conn_ok v w' d dn"
      using same(8) [of "tc_loop dn" "tc_sockfd dn"] ne [OF d] unfolding conn_ok_reg same(1-6) by auto
  qed
  have infra: "infra_fds w' = infra_fds w" by (simp add: infra_fds_def same)
  have "tc_sockfd cn \<notin> infra_fds w" using safeD(3) [OF s] cn unfolding fds_ok_def by blast
  then have "infra_fds w \<subseteq> opn (kern w')" using safeD(3) [OF s] same(7) by (auto simp: fds_ok_def)
  moreover have "tc_sockfd dn \<in> opn (kern w') \<and> tc_sockfd dn \<notin> infra_fds w" if d: "conns w' d = Some dn" for d dn
  proof -
    have "conns w d = Some dn" using d same(9) by blast
    then have "tc_sockfd dn \<in> opn (kern w)" "tc_sockfd dn \<notin> infra_fds w"
      using safeD(3) [OF s] unfolding fds_ok_def by blast+
    then show ?thesis using same(7) ne [OF d] by blast
  qed
  moreover have "d = e" if "conns w' d = Some dn" "conns w' e = Some en" "tc_sockfd dn = tc_sockfd en" for d e dn en
    using that same(9) safeD(3) [OF s] unfolding fds_ok_def by blast
  ultimately show "fds_ok opn w'" unfolding fds_ok_def infra by blast
qed

lemma closed_server:
  assumes w': "closed_conn v opn c fd w w'" and nt: "\<not> in_table c (server w)" and a: "acceptor_ok w"
  shows "acceptor_ok w'"
proof -
  note same = closed_connD [OF w']
  have "server_ok sv w'" if sv: "server w = Some sv" "server_ok sv w" for sv
  proof -
    have "(n, d) \<in> set (connections sv) \<Longrightarrow> d \<noteq> c" for n d
      using nt sv(1) by (auto simp: in_table_def list_ex_iff)
    then have "table_ok sv (conns w')"
      using server_okD(2) [OF sv(2)] same(9) by (fastforce simp: table_ok_def)
    moreover have "named_conns sv (conns w')"
      using server_okD(1) [OF sv(2)] unfolding named_conns_def same(9) by blast
    moreover have "conns w' d = None" if "fresh_conn w \<le> d" for d
      using server_okD(7) [OF sv(2) that] same(9) by (metis option.exhaust option.distinct(1))
    ultimately show ?thesis
      using server_okD(3-6) [OF sv(2)] by (simp add: server_ok_def same(6))
  qed
  then show ?thesis using a unfolding acceptor_ok_def same(4,5) by blast
qed

lemma release_safe:
  assumes k: "kernel_ok os v opn" and s: "safe v opn l [] H w"
  shows "safe v opn l [] (H - {c}) (release os c w)"
proof (cases "conns w c = None \<or> referenced c w")
  case True
  then have "release os c w = w" by (auto simp: release_def split: option.splits)
  moreover have "stages_ok l [] (H - {c}) w"
    using safeD(6) [OF s] True by (auto simp: stages_ok_def)
  ultimately show ?thesis using s by (simp add: safe_def)
next
  case False
  then obtain cn where cn: "conns w c = Some cn" and nr: "\<not> referenced c w" by auto
  let ?w = "TcpConnection_destroy os c cn w"
  note w' = destroy_closed [OF k s cn]
  note same = closed_connD [OF w']
  have nq: "functor_holds f \<noteq> Some c" if "l' < fresh_loop w" "f \<in> set (pending (loops w l'))" for l' f
    using nr that by (auto simp: referenced_def list_ex_iff)
  have q0: "queue_of l [] u l' = pending (loops u l')" for u :: "'a world" and l' by (simp add: queue_of_def)
  have nt: "\<not> in_table c (server w)" using nr by (simp add: referenced_def)
  have "\<not> queued l [] w (FConnDestory c)" using nq by (fastforce simp: queued_def q0)
  then have "ch_state (tc_channel cn) = kChannelInitialized"
    using safe_stage(1) [OF s cn] nt by (simp add: stage_ok_def kept_def quiet_def)
  note slots = closed_slots [OF s w' cn this]
  have queues: "queues_ok l [] ?w"
    unfolding queues_ok_def same(1-6)
  proof (intro allI impI conjI)
    fix l' assume l': "l' < fresh_loop w"
    have "functor_ok ?w l' f" if f: "f \<in> set (pending (loops w l'))" for f
    proof -
      have "functor_ok w l' f" using safeD(5) [OF s] l' f by (auto simp: queues_ok_def q0)
      then show ?thesis using nq [OF l' f] by (cases f) (auto simp: live_at_def same(9))
    qed
    then show "\<forall>f \<in> set (queue_of l [] ?w l'). functor_ok ?w l' f" by (simp add: q0 same(3))
    show "distinct (filter is_establish (queue_of l [] ?w l'))"
      using safeD(5) [OF s] l' by (simp add: queues_ok_def q0 same(3))
  qed
  have "queued l [] ?w = queued l [] w" by (simp add: queued_def q0 same(3,5) fun_eq_iff)
  moreover have "referenced d ?w \<longleftrightarrow> referenced d w" for d by (simp add: referenced_def same(3-5))
  ultimately have "stages_ok l [] (H - {c}) ?w"
    using safeD(6) [OF s] unfolding stages_ok_def stage_ok_def kept_def awaiting_def parting_def same(4,9)
    by (metis Diff_iff empty_iff insert_iff)
  then show ?thesis
    using slots queues closed_conns [OF s w' cn] closed_server [OF w' nt safeD(4) [OF s]] nr cn
    by (simp add: safe_def release_def)
qed

lemma safe_no_vector: "safe v opn l [] H w \<longleftrightarrow> safe v opn m [] H w"
proof -
  have "queue_of l [] w = queue_of m [] w" for w :: "'a world" by (simp add: queue_of_def fun_eq_iff)
  then have "queued l [] w = queued m [] w" for w :: "'a world" by (simp add: queued_def fun_eq_iff)
  then show ?thesis
    using \<open>queue_of l [] w = queue_of m [] w\<close>
    by (simp add: safe_def queues_ok_def stages_ok_def stage_ok_def kept_def awaiting_def parting_def)
qed

lemma release_functors_safe:
  assumes "kernel_ok os v opn" and "safe v opn l [] H w" and "H \<subseteq> set (List.map_filter functor_holds fs)"
  shows "safe v opn l [] {} (release_functors os fs w) \<and> fresh_loop (release_functors os fs w) = fresh_loop w"
proof -
  have "safe v opn l [] (H - set cs) (fold (release os) cs w)" if "safe v opn l [] H w" for cs H w
    using that
  proof (induction cs arbitrary: H w)
    case (Cons c cs)
    have "safe v opn l [] (H - {c} - set cs) (fold (release os) cs (release os c w))"
      by (rule Cons.IH [OF release_safe [OF assms(1) Cons.prems]])
    then show ?case by (simp add: Diff_insert2 [symmetric])
  qed simp
  note this [OF assms(2), of "List.map_filter functor_holds fs"]
  moreover have "H - set (List.map_filter functor_holds fs) = {}" using assms(3) by blast
  ultimately show ?thesis by (simp add: release_functors_def fold_release)
qed

text \<open>The vector is swapped out of the queue; its functors hold their connections until the end.\<close>

lemma vector_safe:
  assumes s: "safe v opn l [] {} w" and fs: "fs = pending (loops w l)"
    and w1: "w1 = upd_loop l (\<lambda>lp. lp\<lparr>pending := []\<rparr>) (upd_loop l (\<lambda>lp. lp\<lparr>calling_pending := True\<rparr>) w)"
  shows "safe v opn l fs (set (List.map_filter functor_holds fs)) w1"
proof (rule inert_requeue [OF s])
  show i: "inert v opn w w1"
    by (auto simp: w1 inert_def upd_loop_def epfd_def chans_def seen_def fun_eq_iff option.rel_refl
        cong: option.case_cong)
  show "queue_of l fs w1 l' = queue_of l [] w l'" for l' by (simp add: queue_of_def w1 upd_loop_def fs)
  fix c assume r: "referenced c w \<or> c \<in> {}"
  show "referenced c w1 \<or> c \<in> set (List.map_filter functor_holds fs)"
  proof (cases "\<exists>f \<in> set fs. functor_holds f = Some c")
    case True
    then show ?thesis by (force simp: List.map_filter_def image_iff)
  next
    case False
    then have "\<exists>f \<in> set (pending (loops w l')). functor_holds f = Some c \<Longrightarrow> l' \<noteq> l" for l'
      by (auto simp: fs)
    then show ?thesis
      using r unfolding referenced_def inert_table [OF i] list_ex_iff
      by (auto simp: w1 upd_loop_def)
  qed
qed

lemma run_pending_sound:
  assumes k: "kernel_ok os v opn" and app: "app_ok app" and s: "safe v opn l [] {} w"
    and l: "l < fresh_loop w" and t: "isInLoopThread (cur_tid w) (loops w l)"
  shows "sound (\<lambda>w'. safe v opn l [] {} w' \<and> fresh_loop w' = fresh_loop w) (run_pending os A app l w)"
proof -
  define fs where "fs = pending (loops w l)"
  define H where "H = set (List.map_filter functor_holds fs)"
  define w1 where "w1 = upd_loop l (\<lambda>lp. lp\<lparr>pending := []\<rparr>) (upd_loop l (\<lambda>lp. lp\<lparr>calling_pending := True\<rparr>) w)"
  let ?I = "\<lambda>B w'. safe v opn l B H w' \<and> fresh_loop w' = fresh_loop w \<and> isInLoopThread (cur_tid w') (loops w' l)"
  have start: "?I fs w1"
    using vector_safe [OF s fs_def w1_def] t by (simp add: H_def w1_def upd_loop_def isInLoopThread_def)
  have step: "sound (?I B) (run_functor os A app f w2)" if "?I (f # B) w2" for f B w2
  proof -
    have "sound (\<lambda>w'. (safe v opn l B H w' \<and> fresh_loop w' = fresh_loop w2)
        \<and> isInLoopThread (cur_tid w') (loops w' l)) (run_functor os A app f w2)"
    proof (rule sound_conj)
      show "sound (\<lambda>w'. safe v opn l B H w' \<and> fresh_loop w' = fresh_loop w2) (run_functor os A app f w2)"
        by (rule run_functor_sound [OF k app]) (use that l in auto)
      fix w3 assume "run_functor os A app f w2 = Inr w3"
      then have "loops_grow w2 w3" by (rule run_functor_grows)
      then show "isInLoopThread (cur_tid w3) (loops w3 l)"
        using that by (simp add: loops_grow_def loop_grows_def isInLoopThread_def)
    qed
    then show ?thesis by (rule sound_mono) (use that in auto)
  qed
  have F: "sound (?I []) (fold_res (run_functor os A app) fs w1)"
    by (rule sound_fold [where I = ?I, OF start step])
  have pe: "pending (loops (upd_loop l (\<lambda>lp. lp\<lparr>calling_pending := True\<rparr>) w) l) = fs"
    by (simp add: upd_loop_def fs_def)
  have run: "run_pending os A app l w = bind_res (fold_res (run_functor os A app) fs w1)
      (\<lambda>w. Inr (release_functors os fs (upd_loop l (\<lambda>lp. lp\<lparr>calling_pending := False\<rparr>) w)))"
    by (simp add: run_pending_def executePendingFunctors_def Let_def pe bind_res_assoc w1_def fs_def)
  show ?thesis
    unfolding run
  proof (rule sound_bind [OF F], simp only: outcome_simps)
    fix w2 assume w2: "?I [] w2"
    let ?w = "upd_loop l (\<lambda>lp. lp\<lparr>calling_pending := False\<rparr>) w2"
    have i: "inert v opn w2 ?w"
      by (auto simp: inert_def upd_loop_def epfd_def chans_def seen_def fun_eq_iff option.rel_refl cong: option.case_cong)
    have "safe v opn l [] H ?w"
      by (rule inert_safe [OF conjunct1 [OF w2] i]) (simp add: same_queues_def upd_loop_def)
    then show "safe v opn l [] {} (release_functors os fs ?w) \<and> fresh_loop (release_functors os fs ?w) = fresh_loop w"
      using release_functors_safe [OF k _ eq_refl [OF H_def]] w2 by (simp add: upd_loop_def)
  qed
qed

section \<open>A turn\<close>

text \<open>The invariant between two turns.\<close>

definition healthy :: "('k \<Rightarrow> interest_view) \<Rightarrow> ('k \<Rightarrow> int set) \<Rightarrow> 'k world \<Rightarrow> bool" where
  "healthy v opn w \<longleftrightarrow> safe v opn 0 [] {} w"

lemma healthy_safe: "healthy v opn w \<Longrightarrow> safe v opn l [] {} w"
  unfolding healthy_def by (subst safe_no_vector)

lemma loop_turn_sound:
  assumes k: "kernel_ok os v opn" and app: "app_ok app" and s: "healthy v opn w" and l: "l < fresh_loop w"
  shows "sound (\<lambda>w'. healthy v opn w' \<and> fresh_loop w' = fresh_loop w) (loop_turn os A app l w)"
proof -
  let ?w = "w\<lparr>cur_tid := thread_id (loops w l)\<rparr>"
  have i: "inert v opn w ?w"
    by (simp add: inert_def epfd_def chans_def seen_def fun_eq_iff option.rel_refl cong: option.case_cong)
  have s0: "safe v opn l [] {} ?w"
    by (rule inert_safe [OF healthy_safe [OF s] i]) (simp add: same_queues_def)
  have "thread_id (loops ?w l) = cur_tid ?w" by simp
  show ?thesis
    unfolding loop_turn_def
  proof (rule sound_bind [OF poll_phase_sound [OF k s0]])
    fix w1 assume w1: "poll_phase os l ?w = Inr w1"
      "safe v opn l [] {} w1 \<and> readies l [] ?w w1
      \<and> (\<forall>p \<in> set (active_channels (loops w1 l)). target_ok l [] w1 p \<and> (\<forall>m. p = WakeupCh m \<longrightarrow> m < fresh_loop w1))"
    have g1: "loops_grow ?w w1" by (rule poll_phase_grows [OF w1(1)])
    show "sound (\<lambda>w'. healthy v opn w' \<and> fresh_loop w' = fresh_loop w)
        (bind_res (handle_phase os A app l w1) (run_pending os A app l))"
    proof (rule sound_bind [OF handle_phase_sound [OF k app conjunct1 [OF w1(2)], of l]])
      fix w2 assume w2: "handle_phase os A app l w1 = Inr w2" "safe v opn l [] {} w2 \<and> readies l [] w1 w2"
      have g2: "loops_grow w1 w2" by (rule handle_phase_grows [OF w2(1)])
      have fl: "fresh_loop w2 = fresh_loop w"
        using readiesD(1) [of l "[]" w1 w2] readiesD(1) [of l "[]" ?w w1] w1(2) w2(2) by simp
      have "isInLoopThread (cur_tid w2) (loops w2 l)"
        using g1 g2 by (simp add: loops_grow_def loop_grows_def isInLoopThread_def)
      then have "sound (\<lambda>w'. safe v opn l [] {} w' \<and> fresh_loop w' = fresh_loop w2) (run_pending os A app l w2)"
        using run_pending_sound [OF k app conjunct1 [OF w2(2)]] l fl by simp
      then show "sound (\<lambda>w'. healthy v opn w' \<and> fresh_loop w' = fresh_loop w) (run_pending os A app l w2)"
        by (rule sound_mono) (use fl safe_no_vector [of v opn l "{}" _ 0] in \<open>auto simp: healthy_def\<close>)
    qed (use w1 in auto)
  qed (use l in simp_all)
qed

lemma turns_sound:
  assumes k: "kernel_ok os v opn" and app: "app_ok app" and s: "healthy v opn w"
    and ls: "\<forall>l \<in> set ls. l < fresh_loop w"
  shows "sound (\<lambda>w'. healthy v opn w' \<and> fresh_loop w' = fresh_loop w) (fold_res (loop_turn os A app) ls w)"
proof -
  let ?I = "\<lambda>ls w'. healthy v opn w' \<and> fresh_loop w' = fresh_loop w \<and> (\<forall>l \<in> set ls. l < fresh_loop w)"
  have step: "sound (?I xs) (loop_turn os A app x w1)" if "?I (x # xs) w1" for x xs w1
    by (rule sound_mono [OF loop_turn_sound [OF k app]]) (use that in auto)
  have "sound (?I []) (fold_res (loop_turn os A app) ls w)"
    by (rule sound_fold [where I = ?I, OF _ step]) (use s ls in auto)
  then show ?thesis by (rule sound_mono) simp
qed

end
