(* ===== verification/SafeStart.thy ===== *)
theory SafeStart
  imports SafeTurn
begin

text \<open>
  How a process gets into the invariant: making loops, in \<open>main\<close> and in the threads of the pool,
  making the server, starting it. \<open>plain_env\<close>: none of the environment variables is set that make
  \<open>Poller::newDefaultPoller\<close> return a null pointer.
\<close>

section \<open>A new loop\<close>

definition plain_env :: "(string \<Rightarrow> string option) \<Rightarrow> bool" where
  "plain_env getenv \<longleftrightarrow> getenv ''USE_POLL'' = None \<and> getenv ''USE_SELECT'' = None \<and> getenv ''USE_KQUEUE'' = None"

definition loop_made ::
  "('k \<Rightarrow> interest_view) \<Rightarrow> ('k \<Rightarrow> int set) \<Rightarrow> 'k \<Rightarrow> nat \<Rightarrow> 'k \<Rightarrow> event_loop \<Rightarrow> bool" where
  "loop_made v opn k0 self k lp \<longleftrightarrow> pending lp = [] \<and> handlers_in (range HAwake) (wakeup_channel lp)
     \<and> wakeup_fd lp \<notin> opn k0
     \<and> (\<exists>po. poller lp = Some po \<and> epollfd po \<notin> opn k0 \<and> opn k = insert (wakeup_fd lp) (insert (epollfd po) (opn k0))
          \<and> (\<forall>fd q. channels po fd = Some q \<longrightarrow> q = WakeupCh self \<and> fd = wakeup_fd lp)
          \<and> (\<forall>fd m q. v k (epollfd po) fd = Some (m, q) \<longrightarrow> q = WakeupCh self \<and> fd = wakeup_fd lp)
          \<and> (\<forall>ep fd. ep \<noteq> epollfd po \<longrightarrow> v k ep fd = v k0 ep fd))"

text \<open>The loop before its eventfd is registered, with its two new descriptors.\<close>

definition loop_shell :: "int \<Rightarrow> int \<Rightarrow> int \<Rightarrow> nat \<Rightarrow> event_loop" where
  "loop_shell t ep wk self = \<lparr>looping = False, quit_flag = False, thread_id = t, poll_return_time = 0,
     poller = Some \<lparr>channels = Map.empty, epollfd = ep, events_size = kDefaultChannelListSize\<rparr>, wakeup_fd = wk,
     wakeup_channel = Channel_new self wk, active_channels = [], calling_pending = False, pending = []\<rparr>"

definition wakeup_chan :: "nat \<Rightarrow> int \<Rightarrow> handler channel" where
  "wakeup_chan self wk = (let ch = setReadCallback (HAwake self) (Channel_new self wk)
     in ch\<lparr>ch_events := ch_events ch OR kReadable\<rparr>)"

lemma EventLoop_new_parts:
  assumes k: "kernel_ok os v opn" and env: "plain_env getenv"
  obtains (refused) "EventLoop_new os getenv self t (k0, ts0) = Inl FatalExit"
  | (made) ep wk k2 where "EventLoop_new os getenv self t (k0, ts0) = bind_res
        (loop_updateChannel os (WakeupCh self) (k2, loop_shell t ep wk self, wakeup_chan self wk))
        (\<lambda>(k, lp, ch). Inr (k, ts0(t \<mapsto> self), lp\<lparr>wakeup_channel := ch\<rparr>))"
      and "ep \<notin> opn k0" "wk \<notin> opn k0" "opn k2 = insert wk (insert ep (opn k0))" "v k2 = (v k0)(ep := \<lambda>_. None)"
proof -
  note D = kernel_okD(4) [OF k, unfolded descriptors_ok_def]
  obtain r1 k1 where e1: "sys_epoll_create os k0 = (r1, k1)" by fastforce
  obtain r2 k2 where e2: "sys_eventfd os k1 = (r2, k2)" by fastforce
  have np: "newDefaultPoller os getenv k0 = (case r1 of Inl _ \<Rightarrow> Inl FatalExit
      | Inr fd \<Rightarrow> Inr (k1, Some \<lparr>channels = Map.empty, epollfd = fd, events_size = kDefaultChannelListSize\<rparr>))"
    using env by (simp add: newDefaultPoller_def plain_env_def EpollPoller_new_def e1 split: sum.splits)
  show ?thesis
  proof (cases "(\<exists>e. r1 = Inl e) \<or> (\<exists>e. r2 = Inl e) \<or> ts0 t \<noteq> None")
    case True
    then have "EventLoop_new os getenv self t (k0, ts0) = Inl FatalExit"
      by (cases r1; cases r2) (auto simp: EventLoop_new_def np createEventFd_def e2 Let_def)
    then show ?thesis by (rule refused)
  next
    case False
    then obtain ep wk where r: "r1 = Inr ep" "r2 = Inr wk" and free: "ts0 t = None"
      by (cases r1; cases r2) auto
    have "case r1 of Inl _ \<Rightarrow> keeps_views v opn k0 k1
        | Inr fd \<Rightarrow> fd \<notin> opn k0 \<and> opn k1 = insert fd (opn k0) \<and> v k1 = (v k0)(fd := \<lambda>_. None)"
      using D e1 by blast
    moreover have "opens v opn k1 (sys_eventfd os k1)" using D by blast
    ultimately have o: "ep \<notin> opn k0" "wk \<notin> opn k0" "opn k2 = insert wk (insert ep (opn k0))"
        "v k2 = (v k0)(ep := \<lambda>_. None)"
      by (simp_all add: opens_def e2 r)
    show ?thesis
      by (rule made [OF _ o]) (use free in \<open>simp add: EventLoop_new_def np createEventFd_def e2 r Let_def
          enableReadEvent_def loop_shell_def wakeup_chan_def\<close>)
  qed
qed

lemma wakeup_registered:
  assumes k: "kernel_ok os v opn"
    and u: "loop_updateChannel os (WakeupCh self) (k2, loop_shell t ep wk self, wakeup_chan self wk) = Inr (k3, lp, ch)"
    and o: "ep \<notin> opn k0" "wk \<notin> opn k0" "opn k2 = insert wk (insert ep (opn k0))" "v k2 = (v k0)(ep := \<lambda>_. None)"
  shows "loop_made v opn k0 self k3 (lp\<lparr>wakeup_channel := ch\<rparr>)"
proof -
  obtain po0 po where po: "poller (loop_shell t ep wk self) = Some po0"
      "updateChannel os (WakeupCh self) (k2, po0, wakeup_chan self wk) = Inr (k3, po, ch)"
      "lp = (loop_shell t ep wk self)\<lparr>poller := Some po\<rparr>"
    using loop_updateChannel_result [OF u] by blast
  note U = updateChannel_frame [OF k po(2)]
  have po0: "epollfd po0 = ep" "channels po0 = Map.empty" using po(1) by (auto simp: loop_shell_def)
  have fd: "ch_fd (wakeup_chan self wk) = wk" and h: "handlers_in (range HAwake) (wakeup_chan self wk)"
    by (simp_all add: wakeup_chan_def handlers_in_def setReadCallback_def Channel_new_def Let_def)
  have "channels po x = Some q \<Longrightarrow> q = WakeupCh self \<and> x = wk" for x q
    using U fd po0 by (cases "x = wk") auto
  moreover have "v k3 ep x = Some (m, q) \<Longrightarrow> q = WakeupCh self \<and> x = wk" for x m q
    using U fd po0 o(4) by (cases "x = wk") auto
  moreover have "v k3 e x = v k0 e x" if "e \<noteq> ep" for e x
    using U that po0 o(4) by simp
  moreover have "epollfd po = ep" "opn k3 = insert wk (insert ep (opn k0))" using U po0 o(3) by simp_all
  moreover have "handlers_in (range HAwake) ch" using U h by (simp add: chan_same_def handlers_in_def)
  ultimately show ?thesis
    unfolding loop_made_def by (intro conjI exI [of _ po]) (use o(1,2) in \<open>simp_all add: po(3) loop_shell_def\<close>)
qed

lemma EventLoop_new_sound:
  assumes k: "kernel_ok os v opn" and env: "plain_env getenv"
  shows "sound (\<lambda>(k, ts, lp). loop_made v opn k0 self k lp) (EventLoop_new os getenv self t (k0, ts0))"
proof (rule EventLoop_new_parts [OF k env, of self t k0 ts0])
  fix ep wk k2
  assume run: "EventLoop_new os getenv self t (k0, ts0) = bind_res
        (loop_updateChannel os (WakeupCh self) (k2, loop_shell t ep wk self, wakeup_chan self wk))
        (\<lambda>(k, lp, ch). Inr (k, ts0(t \<mapsto> self), lp\<lparr>wakeup_channel := ch\<rparr>))"
    and o: "ep \<notin> opn k0" "wk \<notin> opn k0" "opn k2 = insert wk (insert ep (opn k0))" "v k2 = (v k0)(ep := \<lambda>_. None)"
  have "sound (\<lambda>_. True) (loop_updateChannel os (WakeupCh self) (k2, loop_shell t ep wk self, wakeup_chan self wk))"
    by (rule loop_updateChannel_sound) (simp add: loop_shell_def)
  then show ?thesis
    unfolding run by (rule sound_bind) (use wakeup_registered [OF k _ o] in auto)
qed simp

text \<open>Adding it to the process.\<close>

definition add_loop :: "'k \<Rightarrow> (int \<Rightarrow> nat option) \<Rightarrow> event_loop \<Rightarrow> 'k world \<Rightarrow> 'k world" where
  "add_loop k ts lp w = w\<lparr>kern := k, tls := ts, loops := (loops w)(fresh_loop w := lp), fresh_loop := fresh_loop w + 1\<rparr>"

lemma add_loop_simps [simp]:
  "kern (add_loop k ts lp w) = k" "conns (add_loop k ts lp w) = conns w" "server (add_loop k ts lp w) = server w"
  "fresh_loop (add_loop k ts lp w) = fresh_loop w + 1" "fresh_conn (add_loop k ts lp w) = fresh_conn w"
  "loops (add_loop k ts lp w) l = (if l = fresh_loop w then lp else loops w l)"
  by (simp_all add: add_loop_def)

lemma add_loop_views:
  assumes m: "loop_made v opn (kern w) (fresh_loop w) k lp" and i: "infra_fds w \<subseteq> opn (kern w)"
  shows "l < fresh_loop w \<Longrightarrow> epfd (add_loop k ts lp w) l = epfd w l"
    "l < fresh_loop w \<Longrightarrow> chans (add_loop k ts lp w) l = chans w l"
    "l < fresh_loop w \<Longrightarrow> seen v (add_loop k ts lp w) l = seen v w l"
    "infra_fds (add_loop k ts lp w) = insert (wakeup_fd lp) (set_option (epfd (add_loop k ts lp w) (fresh_loop w)) \<union> infra_fds w)"
proof -
  show e: "epfd (add_loop k ts lp w) l = epfd w l" if "l < fresh_loop w" for l
    using that by (simp add: epfd_def)
  show "chans (add_loop k ts lp w) l = chans w l" if "l < fresh_loop w"
    using that by (simp add: chans_def fun_eq_iff)
  show "seen v (add_loop k ts lp w) l = seen v w l" if l: "l < fresh_loop w"
  proof (cases "poller (loops w l)")
    case (Some po)
    then have "epollfd po \<in> infra_fds w" using l by (auto simp: infra_fds_def epfd_def)
    then have "epollfd po \<in> opn (kern w)" using i by blast
    then have "v k (epollfd po) fd = v (kern w) (epollfd po) fd" for fd
      using m unfolding loop_made_def by metis
    then show ?thesis using l Some by (simp add: seen_def fun_eq_iff)
  qed (use l in \<open>simp add: seen_def fun_eq_iff\<close>)
  show "infra_fds (add_loop k ts lp w) = insert (wakeup_fd lp) (set_option (epfd (add_loop k ts lp w) (fresh_loop w)) \<union> infra_fds w)"
    using e by (auto simp: infra_fds_def lessThan_Suc)
qed

lemma add_loop_slots:
  assumes m: "loop_made v opn (kern w) (fresh_loop w) k lp" and i: "infra_fds w \<subseteq> opn (kern w)"
    and s: "slots_ok v w"
  shows "slots_ok v (add_loop k ts lp w) \<and> infra_fds (add_loop k ts lp w) \<subseteq> opn k
    \<and> infra_fds (add_loop k ts lp w) \<inter> opn (kern w) \<subseteq> infra_fds w"
proof -
  let ?w = "add_loop k ts lp w" and ?n = "fresh_loop w"
  note V = add_loop_views [OF m i, where ts = ts]
  obtain po where po: "poller lp = Some po" "epollfd po \<notin> opn (kern w)"
      and o: "opn k = insert (wakeup_fd lp) (insert (epollfd po) (opn (kern w)))"
      and c: "\<And>fd q. channels po fd = Some q \<Longrightarrow> q = WakeupCh ?n \<and> fd = wakeup_fd lp"
      and r: "\<And>fd m q. v k (epollfd po) fd = Some (m, q) \<Longrightarrow> q = WakeupCh ?n \<and> fd = wakeup_fd lp"
    using m unfolding loop_made_def by blast
  have place: "place w l fd p \<Longrightarrow> l < ?n \<Longrightarrow> place ?w l fd p" for l fd p
    by (cases p) auto
  have ep: "epfd ?w ?n = Some (epollfd po)" by (simp add: epfd_def po)
  have infra: "infra_fds ?w = insert (wakeup_fd lp) (insert (epollfd po) (infra_fds w))"
    using V(4) ep by simp
  have "epfd w l \<noteq> Some (epollfd po)" if "l < ?n" for l
    using po(2) i that by (auto simp: infra_fds_def)
  moreover have "inj_on (epfd ?w) {..< ?n}"
    using s V(1) inj_on_cong [of "{..< ?n}" "epfd ?w" "epfd w"] by (simp add: slots_ok_def)
  ultimately have inj: "inj_on (epfd ?w) {..< Suc ?n}"
    using ep V(1) by (auto simp: lessThan_Suc inj_on_insert) metis
  have new: "chans ?w ?n fd = Some p \<Longrightarrow> place ?w ?n fd p" "seen v ?w ?n fd = Some (m', p) \<Longrightarrow> place ?w ?n fd p" for fd p m'
    using c [of fd p] r [of fd m' p] po by (auto simp: chans_def seen_def)
  have "slots_ok v ?w"
    unfolding slots_ok_def add_loop_simps
  proof (intro conjI allI impI)
    show "inj_on (epfd ?w) {..< ?n + 1}" using inj by simp
  next
    fix l assume "l < ?n + 1"
    then consider "l = ?n" | "l < ?n" by linarith
    then show "epfd ?w l \<noteq> None" "handlers_in (range HAwake) (wakeup_channel (if l = ?n then lp else loops w l))"
      using s V(1) ep m by (cases; auto simp: slots_ok_def loop_made_def)+
    show "chans ?w l fd = Some p \<Longrightarrow> place ?w l fd p" "seen v ?w l fd = Some (m', p) \<Longrightarrow> place ?w l fd p" for fd p m'
      using \<open>l < ?n + 1\<close> s V(2,3) new place by (cases "l = ?n"; auto simp: slots_ok_def)+
  qed
  moreover have "wakeup_fd lp \<notin> opn (kern w)" using m by (simp add: loop_made_def)
  ultimately show ?thesis using infra i o po(2) by auto
qed

lemma add_loop_safe:
  assumes m: "loop_made v opn (kern w) (fresh_loop w) k lp" and s: "safe v opn l [] H w"
  shows "safe v opn l [] H (add_loop k ts lp w)"
proof -
  let ?w = "add_loop k ts lp w" and ?n = "fresh_loop w"
  have i: "infra_fds w \<subseteq> opn (kern w)" using safeD(3) [OF s] by (simp add: fds_ok_def)
  note V = add_loop_views [OF m i, where ts = ts]
  note S = add_loop_slots [OF m i safeD(1) [OF s], of ts]
  have ok: "opn (kern w) \<subseteq> opn k" and pe: "pending lp = []" using m by (auto simp: loop_made_def)
  have q0: "queue_of l [] u = (\<lambda>l'. pending (loops u l'))" for u :: "'a world" by (simp add: queue_of_def fun_eq_iff)
  have qd: "queued l [] ?w f \<longleftrightarrow> queued l [] w f" for f
    using pe by (auto simp: queued_def q0 less_Suc_eq) (metis nat_neq_iff)
  have ref: "referenced c ?w \<longleftrightarrow> referenced c w" for c
    using pe by (auto simp: referenced_def list_ex_iff less_Suc_eq)
  have conns: "conns_ok v ?w"
    using safeD(2) [OF s] V(1-3) unfolding conns_ok_def conn_ok_reg by (auto simp: less_Suc_eq)
  have fds: "fds_ok opn ?w"
    using safeD(3) [OF s] S ok unfolding fds_ok_def by (auto; blast)
  have acc: "acceptor_ok ?w"
    using safeD(4) [OF s] unfolding acceptor_ok_def by (auto simp: server_ok_def less_Suc_eq)
  have queues: "queues_ok l [] ?w"
    unfolding queues_ok_def
  proof (intro allI impI)
    fix l' assume l': "l' < fresh_loop ?w"
    have "functor_ok ?w l' f \<longleftrightarrow> functor_ok w l' f" for f
      by (cases f) (simp_all add: live_at_def)
    then show "(\<forall>f \<in> set (queue_of l [] ?w l'). functor_ok ?w l' f) \<and> distinct (filter is_establish (queue_of l [] ?w l'))"
      using safeD(5) [OF s] pe l' by (auto simp: queues_ok_def q0 less_Suc_eq)
  qed
  have "stages_ok l [] H ?w"
    using safeD(6) [OF s]
    by (simp add: stages_ok_def stage_ok_def kept_def awaiting_def parting_def qd ref)
  then show ?thesis using S conns fds acc queues by (simp add: safe_def)
qed

section \<open>The threads of the pool\<close>

lemma cur_tid_safe: "safe v opn l B H w \<Longrightarrow> safe v opn l B H (w\<lparr>cur_tid := t\<rparr>)"
  by (rule inert_safe, assumption)
     (simp_all add: inert_def epfd_def chans_def seen_def fun_eq_iff option.rel_refl same_queues_def cong: option.case_cong)

lemma fresh_tid_safe: "safe v opn l B H w \<Longrightarrow> safe v opn l B H (w\<lparr>fresh_tid := t\<rparr>)"
  by (rule inert_safe, assumption)
     (simp_all add: inert_def epfd_def chans_def seen_def fun_eq_iff option.rel_refl same_queues_def cong: option.case_cong)

lemma thread_count_safe: "safe v opn l B H w \<Longrightarrow> safe v opn l B H (w\<lparr>thread_count := t\<rparr>)"
  by (rule inert_safe, assumption)
     (simp_all add: inert_def epfd_def chans_def seen_def fun_eq_iff option.rel_refl same_queues_def cong: option.case_cong)

lemma call_init_sound:
  assumes k: "kernel_ok os v opn" and app: "app_ok app" and s: "safe v opn l B H w"
  shows "sound (\<lambda>w'. safe v opn l B H w' \<and> readies l B w w') (call_init os A app cb i w)"
  unfolding call_init_def
  by (rule free_call_sound [OF k s]) (use app in \<open>simp add: app_ok_def\<close>)

lemma threadFunc_sound:
  assumes k: "kernel_ok os v opn" and app: "app_ok app" and env: "plain_env getenv" and s: "safe v opn l [] H w"
  shows "sound (\<lambda>(i, w'). safe v opn l [] H w' \<and> i = fresh_loop w \<and> fresh_loop w' = fresh_loop w + 1)
    (threadFunc_prologue os A getenv app cb w)"
proof -
  have run: "threadFunc_prologue os A getenv app cb w
      = bind_res (EventLoop_new os getenv (fresh_loop w) (cur_tid w) (kern w, tls w)) (\<lambda>(k, ts, lp).
          bind_res (case cb of None \<Rightarrow> Inr (add_loop k ts lp w)
              | Some cb \<Rightarrow> call_init os A app cb (fresh_loop w) (add_loop k ts lp w))
            (\<lambda>w'. Inr (fresh_loop w, w')))"
    unfolding threadFunc_prologue_def Let_def add_loop_def ..
  show ?thesis
    unfolding run
  proof (rule sound_bind [OF EventLoop_new_sound [OF k env]], clarsimp)
    fix k' ts lp assume m: "loop_made v opn (kern w) (fresh_loop w) k' lp"
    let ?w = "add_loop k' ts lp w"
    have w: "safe v opn l [] H ?w" by (rule add_loop_safe [OF m s])
    have "sound (\<lambda>w'. safe v opn l [] H w' \<and> readies l [] ?w w')
        (case cb of None \<Rightarrow> Inr ?w | Some cb \<Rightarrow> call_init os A app cb (fresh_loop w) ?w)"
      using w call_init_sound [OF k app w] by (simp split: option.splits)
    then show "sound (\<lambda>(i, w'). safe v opn l [] H w' \<and> i = fresh_loop w \<and> fresh_loop w' = Suc (fresh_loop w))
        (bind_res (case cb of None \<Rightarrow> Inr ?w | Some cb \<Rightarrow> call_init os A app cb (fresh_loop w) ?w)
            (\<lambda>w'. Inr (fresh_loop w, w')))"
      by (rule sound_bind) (use readiesD(1) in fastforce)
  qed
qed

lemma spawn_sound:
  assumes k: "kernel_ok os v opn" and app: "app_ok app" and env: "plain_env getenv" and s: "safe v opn l [] H w"
  shows "sound (\<lambda>(i, t, w'). safe v opn l [] H w' \<and> i = fresh_loop w \<and> fresh_loop w' = fresh_loop w + 1)
    (spawn_loop os A getenv app cb name w)"
proof -
  obtain n t0 where "Thread_new name (thread_count w) = (n, t0)" by fastforce
  then obtain t1 where n: "EventLoopThread_new cb name w = (t1, w\<lparr>thread_count := n\<rparr>)" "elt_init_callback t1 = cb"
    by (simp add: EventLoopThread_new_def)
  let ?t = "t1\<lparr>elt_thread := Thread_start (fresh_tid w) (elt_thread t1)\<rparr>"
  let ?w0 = "(w\<lparr>thread_count := n\<rparr>)\<lparr>cur_tid := fresh_tid w, fresh_tid := fresh_tid w + 1\<rparr>"
  have w0: "safe v opn l [] H ?w0"
    by (rule fresh_tid_safe [OF cur_tid_safe [OF thread_count_safe [OF s]]])
  have fl: "fresh_loop ?w0 = fresh_loop w" by simp
  have run: "spawn_loop os A getenv app cb name w
      = bind_res (threadFunc_prologue os A getenv app cb ?w0) (\<lambda>(i, w').
          Inr (i, ?t\<lparr>elt_loop := Some i\<rparr>, w'\<lparr>cur_tid := cur_tid w\<rparr>))"
    by (simp add: spawn_loop_def startLoop_def n Let_def bind_res_assoc split_def)
  show ?thesis
    unfolding run
    by (rule sound_bind [OF threadFunc_sound [OF k app env w0, unfolded fl]]) (auto intro: cur_tid_safe)
qed

lemma pool_fold_sound:
  assumes k: "kernel_ok os v opn" and app: "app_ok app" and env: "plain_env getenv" and s: "safe v opn l [] H w"
    and p: "\<forall>i \<in> set (pool_loops p). i < fresh_loop w"
  shows "sound (\<lambda>(p', w'). safe v opn l [] H w' \<and> fresh_loop w \<le> fresh_loop w' \<and> base_loop p' = base_loop p
      \<and> pool_next p' = pool_next p \<and> thread_num p' = thread_num p
      \<and> (\<exists>ls. pool_loops p' = pool_loops p @ ls) \<and> (\<forall>i \<in> set (pool_loops p'). i < fresh_loop w'))
    (fold_res (pool_add (spawn_loop os A getenv app cb)) is (p, w))"
  using s p
proof (induction "is" arbitrary: p w)
  case (Cons i "is")
  have step: "sound (\<lambda>(p', w'). safe v opn l [] H w' \<and> fresh_loop w' = fresh_loop w + 1
        \<and> base_loop p' = base_loop p \<and> pool_next p' = pool_next p \<and> thread_num p' = thread_num p
        \<and> pool_loops p' = pool_loops p @ [fresh_loop w])
      (pool_add (spawn_loop os A getenv app cb) i (p, w))"
    unfolding pool_add_def Let_def prod.case
    by (rule sound_bind [OF spawn_sound [OF k app env Cons.prems(1)]]) auto
  show ?case
    unfolding fold_res.simps
  proof (rule sound_bind [OF step], clarsimp)
    fix p1 :: "event_loop_thread thread_pool" and w1 assume a: "safe v opn l [] H w1" "fresh_loop w1 = Suc (fresh_loop w)" "base_loop p1 = base_loop p"
        "pool_next p1 = pool_next p" "thread_num p1 = thread_num p" "pool_loops p1 = pool_loops p @ [fresh_loop w]"
    have "\<forall>i \<in> set (pool_loops p1). i < fresh_loop w1" using a(2,6) Cons.prems(2) by auto
    from Cons.IH [OF a(1) this]
    show "sound (\<lambda>(p', w'). safe v opn l [] H w' \<and> fresh_loop w \<le> fresh_loop w' \<and> base_loop p' = base_loop p
      \<and> pool_next p' = pool_next p \<and> thread_num p' = thread_num p
      \<and> (\<exists>ls. pool_loops p' = pool_loops p @ ls) \<and> (\<forall>i \<in> set (pool_loops p'). i < fresh_loop w'))
        (fold_res (pool_add (spawn_loop os A getenv app cb)) is (p1, w1))"
      by (rule sound_mono) (use a in auto)
  qed
qed auto

section \<open>The server\<close>

text \<open>A process without a server: only loops.\<close>

definition bare :: "('k \<Rightarrow> interest_view) \<Rightarrow> ('k \<Rightarrow> int set) \<Rightarrow> 'k world \<Rightarrow> bool" where
  "bare v opn w \<longleftrightarrow> slots_ok v w \<and> infra_fds w \<subseteq> opn (kern w) \<and> (\<forall>c. conns w c = None) \<and> server w = None
     \<and> (\<forall>l < fresh_loop w. pending (loops w l) = [])"

lemma add_loop_bare:
  assumes m: "loop_made v opn (kern w) (fresh_loop w) k lp" and b: "bare v opn w"
  shows "bare v opn (add_loop k ts lp w)"
  using add_loop_slots [OF m, of ts] b m by (simp add: bare_def loop_made_def)

definition acceptor_made :: "('k \<Rightarrow> interest_view) \<Rightarrow> ('k \<Rightarrow> int set) \<Rightarrow> 'k \<Rightarrow> nat \<Rightarrow> acceptor \<times> 'k \<Rightarrow> bool" where
  "acceptor_made v opn k0 l s \<longleftrightarrow> (case s of (ac, k) \<Rightarrow> acc_loop ac = l \<and> accept_socket ac \<notin> opn k0
     \<and> opn k = insert (accept_socket ac) (opn k0) \<and> v k = v k0
     \<and> ch_fd (accept_channel ac) = accept_socket ac \<and> handlers_in {HAcceptRead} (accept_channel ac))"

lemma Acceptor_new_sound:
  assumes k: "kernel_ok os v opn"
  shows "sound (acceptor_made v opn k0 l) (Acceptor_new os l addr reuse k0)"
proof -
  obtain r k1 where e: "sys_socket os k0 = (r, k1)" by fastforce
  have o: "opens v opn k0 (r, k1)" using kernel_okD(4) [OF k] e unfolding descriptors_ok_def by metis
  show ?thesis
  proof (cases r)
    case (Inr fd)
    let ?k2 = "setReuseAddr os fd True k1"
    let ?k3 = "setReusePort os fd True ?k2"
    have kv: "keeps_views v opn k1 ?k3"
      unfolding setReuseAddr_def setReusePort_def
      by (rule keeps_views_simps(2) [OF kernel_quiet(5) [OF k] kernel_quiet(5) [OF k]])
    have b: "sound (keeps_views v opn ?k3) (bindAddress os fd addr ?k3)"
      using kernel_quiet(3) [OF k, of ?k3 fd addr] by (auto simp: bindAddress_def split: prod.splits sum.splits)
    have run: "Acceptor_new os l addr reuse k0 = bind_res (bindAddress os fd addr ?k3) (\<lambda>k.
        Inr (\<lparr>acc_loop = l, accept_socket = fd,
             accept_channel = setReadCallback HAcceptRead (Channel_new l fd),
             new_connection_callback = False, listenning = False\<rparr>, k))"
      by (simp add: Acceptor_new_def createNonblocking_def e Inr Let_def)
    show ?thesis
      unfolding run
      by (rule sound_bind [OF b])
         (use o kv Inr in \<open>auto simp: acceptor_made_def opens_def keeps_views_def handlers_in_def
            setReadCallback_def Channel_new_def\<close>)
  qed (simp add: Acceptor_new_def createNonblocking_def e)
qed

lemma server_made_safe:
  assumes b: "bare v opn w" and l: "l < fresh_loop w" and ac: "acceptor_made v opn (kern w) l (ac, k)"
    and w': "w' = w\<lparr>kern := k, server := Some sv\<rparr>" and sv: "srv_acceptor sv = setNewConnectionCallback ac"
      "srv_loop sv = l" "base_loop (srv_pool sv) = l" "pool_loops (srv_pool sv) = []" "connections sv = []"
    and ok: "server_ok sv w'"
  shows "safe v opn m [] {} w'"
proof -
  have same: "epfd w' = epfd w" "chans w' = chans w" "seen v w' = seen v w" "conns w' c = None" "loops w' = loops w"
      "fresh_loop w' = fresh_loop w" for c
    using ac b by (simp_all add: w' fun_eq_iff epfd_def chans_def seen_def acceptor_made_def bare_def cong: option.case_cong)
  have place: "place w l2 fd p \<Longrightarrow> place w' l2 fd p" for l2 fd p
    using b by (cases p) (simp_all add: same bare_def)
  have infra: "infra_fds w' = insert (accept_socket ac) (infra_fds w)"
    using b sv by (simp add: infra_fds_def same bare_def) (simp add: w' setNewConnectionCallback_def sv)
  have "slots_ok v w'" using b place unfolding bare_def slots_ok_def same by blast
  moreover have "fds_ok opn w'"
    using b ac unfolding fds_ok_def infra same by (auto simp: bare_def acceptor_made_def w')
  moreover have "acceptor_ok w'"
    unfolding acceptor_ok_def
    by (rule exI [of _ sv]) (use ok sv ac l in \<open>simp add: same setNewConnectionCallback_def acceptor_made_def\<close>,
      simp add: w')
  moreover have "queues_ok m [] w'"
    using b by (simp add: queues_ok_def queue_of_def same bare_def)
  ultimately show ?thesis by (simp add: safe_def conns_ok_def stages_ok_def same)
qed

lemma TcpServer_new_sound:
  assumes k: "kernel_ok os v opn" and b: "bare v opn w" and l: "l < fresh_loop w"
  shows "sound (\<lambda>w'. safe v opn m [] {} w' \<and> fresh_loop w' = fresh_loop w
      \<and> (\<exists>sv. server w' = Some sv \<and> srv_pool sv = ThreadPool_new l name \<and> srv_started sv = 0
           \<and> thread_init_callback sv = None \<and> srv_loop sv = l))
    (TcpServer_new os (Some l) addr name opt w)"
proof -
  obtain ip where ip: "getIpAndPort addr = Inr ip" by (simp add: getIpAndPort_text)
  let ?sv = "\<lambda>ac. \<lparr>srv_loop = l, ip_port = ip, srv_name = name, srv_acceptor = setNewConnectionCallback ac,
          srv_pool = ThreadPool_new l name, srv_conn_callback = None, srv_msg_callback = None,
          srv_write_complete_callback = None, thread_init_callback = None, srv_started = 0,
          next_conn_id = 1, connections = []\<rparr>"
  have run: "TcpServer_new os (Some l) addr name opt w
      = bind_res (Acceptor_new os l addr (opt = kReusePort) (kern w)) (\<lambda>(ac, k).
          Inr (w\<lparr>kern := k, server := Some (?sv ac)\<rparr>))"
    by (simp add: TcpServer_new_def CheckLoopNotNull_def ip)
  show ?thesis
    unfolding run
  proof (rule sound_bind [OF Acceptor_new_sound [OF k]])
    fix s assume "acceptor_made v opn (kern w) l s"
    then obtain ac k1 where s: "s = (ac, k1)" and ac: "acceptor_made v opn (kern w) l (ac, k1)" by (cases s) auto
    let ?w = "w\<lparr>kern := k1, server := Some (?sv ac)\<rparr>"
    have "server_ok (?sv ac) ?w"
      using getIpAndPort_length [OF ip] b
      by (simp add: server_ok_def named_conns_def table_ok_def pool_inv_def ThreadPool_new_def bare_def)
    then have "safe v opn m [] {} ?w"
      by (intro server_made_safe [OF b l ac refl]) (simp_all add: ThreadPool_new_def)
    then show "sound (\<lambda>w'. safe v opn m [] {} w' \<and> fresh_loop w' = fresh_loop w
        \<and> (\<exists>sv. server w' = Some sv \<and> srv_pool sv = ThreadPool_new l name \<and> srv_started sv = 0
           \<and> thread_init_callback sv = None \<and> srv_loop sv = l))
        (case s of (ac, k) \<Rightarrow> Inr (w\<lparr>kern := k, server := Some (?sv ac)\<rparr>))"
      by (simp add: s)
  qed
qed

text \<open>Changes of the server that leave its table and its acceptor alone.\<close>

lemma server_fields_safe:
  assumes s: "safe v opn l B H w" and sv: "server w = Some sv" and w': "w' = w\<lparr>server := Some sv'\<rparr>"
    and same: "connections sv' = connections sv" "srv_acceptor sv' = srv_acceptor sv" "srv_loop sv' = srv_loop sv"
      "ip_port sv' = ip_port sv" "srv_name sv' = srv_name sv" "next_conn_id sv' = next_conn_id sv"
    and pool: "pool_inv (srv_pool sv')" "base_loop (srv_pool sv') = base_loop (srv_pool sv)"
      "\<forall>i \<in> set (pool_loops (srv_pool sv')). i < fresh_loop w"
  shows "safe v opn l B H w'"
proof -
  have views: "epfd w' = epfd w" "chans w' = chans w" "seen v w' = seen v w" "conns w' = conns w" "loops w' = loops w"
      "kern w' = kern w" "fresh_loop w' = fresh_loop w" "fresh_conn w' = fresh_conn w" "server w' = Some sv'"
    by (simp_all add: w' fun_eq_iff epfd_def chans_def seen_def cong: option.case_cong)
  have place: "place w' l2 fd p \<longleftrightarrow> place w l2 fd p" for l2 fd p
    by (cases p) (simp_all add: views sv same)
  have infra: "infra_fds w' = infra_fds w" by (simp add: infra_fds_def views sv same)
  have tab: "in_table c (server w') \<longleftrightarrow> in_table c (server w)" for c by (simp add: in_table_def views sv same)
  have qd: "queued l B w' = queued l B w" by (simp add: w' fun_eq_iff)
  have ref: "referenced c w' \<longleftrightarrow> referenced c w" for c unfolding referenced_def tab views(5,7) ..
  have "slots_ok v w'" using safeD(1) [OF s] unfolding slots_ok_def place views(1-8) .
  moreover have "conns_ok v w'" using safeD(2) [OF s] unfolding conns_ok_def conn_ok_reg views(1-8) .
  moreover have "fds_ok opn w'" using safeD(3) [OF s] unfolding fds_ok_def infra views(1-8) .
  moreover have "acceptor_ok w'"
    using safeD(4) [OF s] sv pool unfolding acceptor_ok_def
    by (auto simp: views same server_ok_def named_conns_def made_by_def table_ok_def conn_name_of_def)
  moreover have "queues_ok l B w'"
  proof -
    have "functor_ok w' l2 f \<longleftrightarrow> functor_ok w l2 f" for l2 f
      by (cases f) (simp_all add: live_at_def views)
    then show ?thesis using safeD(5) [OF s] by (simp add: queues_ok_def queue_of_def views)
  qed
  moreover have "stages_ok l B H w'"
    using safeD(6) [OF s]
    by (simp add: stages_ok_def stage_ok_def kept_def awaiting_def parting_def tab qd ref views(4))
  ultimately show ?thesis by (simp add: safe_def)
qed

text \<open>The pool a server is started with, and what filling it keeps.\<close>

definition pool_safe ::
  "('k \<Rightarrow> interest_view) \<Rightarrow> ('k \<Rightarrow> int set) \<Rightarrow> nat \<Rightarrow> nat \<Rightarrow> tcp_server \<Rightarrow>
   event_loop_thread thread_pool \<times> 'k world \<Rightarrow> bool" where
  "pool_safe v opn l N sv x \<longleftrightarrow> (case x of (p, w) \<Rightarrow> safe v opn l [] {} w \<and> N \<le> fresh_loop w \<and> server w = Some sv
     \<and> base_loop p = base_loop (srv_pool sv) \<and> pool_inv p \<and> (\<forall>i \<in> set (pool_loops p). i < fresh_loop w))"

lemma pool_start_sound:
  assumes k: "kernel_ok os v opn" and app: "app_ok app" and env: "plain_env getenv" and s: "safe v opn l [] {} w"
    and sv: "server w = Some sv" and new: "pool_loops (srv_pool sv) = []" "pool_next (srv_pool sv) = 0"
  shows "sound (pool_safe v opn l (fresh_loop w) sv)
    (pool_start (spawn_loop os A getenv app cb) (map_option (call_init os A app) cb) (srv_pool sv, w))"
proof -
  let ?spawn = "spawn_loop os A getenv app cb" and ?p0 = "(srv_pool sv)\<lparr>pool_started := True\<rparr>"
  let ?P = "pool_safe v opn l (fresh_loop w) sv"
  have fold: "sound ?P (fold_res (pool_add ?spawn) [0 ..< nat (thread_num (srv_pool sv))] (?p0, w))"
  proof (rule sound_mono [OF sound_conj [OF pool_fold_sound [OF k app env s]]])
    show "\<forall>i \<in> set (pool_loops ?p0). i < fresh_loop w" by (simp add: new)
    fix x assume "fold_res (pool_add ?spawn) [0 ..< nat (thread_num (srv_pool sv))] (?p0, w) = Inr x"
    then show "server (snd x) = Some sv" using pool_fold_result [of os A getenv app cb _ ?p0 w "fst x" "snd x"] sv by simp
  qed (auto simp: pool_safe_def new pool_inv_def split: prod.splits)
  have init: "sound (\<lambda>w'. ?P (p1, w')) (call_init os A app cb i w1)" if P1: "?P (p1, w1)" for p1 w1 cb i
  proof (rule sound_mono [OF sound_conj [OF call_init_sound [OF k app]]])
    show "safe v opn l [] {} w1" using P1 by (simp add: pool_safe_def)
    fix w2 assume "call_init os A app cb i w1 = Inr w2"
    then have "evolves w1 w2" by (auto simp: call_init_def dest!: noted_actions_evolve)
    then show "server w2 = server w1" by (rule evolves_world(1))
  qed (use P1 in \<open>auto simp: pool_safe_def readies_def\<close>)
  show ?thesis
    unfolding pool_start_def prod.case
  proof (rule sound_bind [OF fold])
    fix x assume "?P x"
    then obtain p1 w1 where x: "x = (p1, w1)" and P1: "?P (p1, w1)" by (cases x) auto
    have "sound ?P (bind_res (call_init os A app cb (base_loop p1) w1) (\<lambda>w. Inr (p1, w)))" for cb
      by (rule sound_bind [OF init [OF P1]]) simp
    then show "sound ?P (case x of (p, w) \<Rightarrow>
        if thread_num p = 0 then (case map_option (call_init os A app) cb of None \<Rightarrow> Inr (p, w)
          | Some f \<Rightarrow> bind_res (f (base_loop p) w) (\<lambda>w. Inr (p, w))) else Inr (p, w))"
      using P1 by (simp add: x split: option.split)
  qed
qed

lemma run_listen_sound:
  assumes k: "kernel_ok os v opn" and w: "safe v opn l [] {} w"
  shows "sound (\<lambda>w'. safe v opn l [] {} w' \<and> fresh_loop w \<le> fresh_loop w')
    (runLoopCallback (cur_tid w) (loops w m) (\<lambda>_. server_listen os) (net_push os m) FListen w)"
proof (rule runLoopCallback_sound)
  have more: "safe v opn l [] {} w' \<and> fresh_loop w \<le> fresh_loop w'" if "safe v opn l [] {} w' \<and> readies l [] w w'" for w'
    using that readiesD(1) [of l "[]" w w'] by simp
  have push: "pushable l [] w m FListen" by (simp add: pushable_def)
  show "sound (\<lambda>w'. safe v opn l [] {} w' \<and> fresh_loop w \<le> fresh_loop w') (server_listen os w)"
    by (rule sound_mono [OF server_listen_sound [OF k w]]) (rule more)
  show "safe v opn l [] {} (net_push os m FListen w) \<and> fresh_loop w \<le> fresh_loop (net_push os m FListen w)"
    by (rule more) (use net_push_safe [OF k w push] in blast)
qed

lemma server_start_sound:
  assumes k: "kernel_ok os v opn" and app: "app_ok app" and env: "plain_env getenv" and s: "safe v opn l [] {} w"
    and sv: "server w = Some sv" and pool: "srv_pool sv = setPoolSize n (ThreadPool_new base name)"
  shows "sound (\<lambda>w'. safe v opn l [] {} w' \<and> fresh_loop w \<le> fresh_loop w') (server_start os A getenv app w)"
proof -
  let ?sv = "sv\<lparr>srv_started := srv_started sv + 1\<rparr>" and ?cb = "thread_init_callback sv"
  let ?w0 = "w\<lparr>server := Some ?sv\<rparr>"
  have w0: "safe v opn l [] {} ?w0"
    by (rule server_fields_safe [OF s sv refl])
       (use pool safeD(4) [OF s] sv in \<open>auto simp: acceptor_ok_def server_ok_def\<close>)
  show ?thesis
  proof (cases "srv_started sv = 0")
    case False
    then show ?thesis using w0 sv by (simp add: server_start_def with_server_def)
  next
    case True
    have new: "pool_loops (srv_pool ?sv) = []" "pool_next (srv_pool ?sv) = 0"
      by (simp_all add: pool setPoolSize_def ThreadPool_new_def)
    have run: "server_start os A getenv app w = bind_res
        (pool_start (spawn_loop os A getenv app ?cb) (map_option (call_init os A app) ?cb) (srv_pool ?sv, ?w0)) (\<lambda>(p, w).
          let w = w\<lparr>server := map_option (\<lambda>sv. sv\<lparr>srv_pool := p\<rparr>) (server w)\<rparr> in
          runLoopCallback (cur_tid w) (loops w (srv_loop sv)) (\<lambda>_. server_listen os)
            (net_push os (srv_loop sv)) FListen w)"
      using True sv by (simp add: server_start_def with_server_def Let_def)
    show ?thesis
      unfolding run
    proof (rule sound_bind [OF pool_start_sound [OF k app env w0 _ new]])
      fix x assume "pool_safe v opn l (fresh_loop ?w0) ?sv x"
      then obtain p1 w1 where x: "x = (p1, w1)" and P1: "pool_safe v opn l (fresh_loop w) ?sv (p1, w1)" by (cases x) auto
      let ?w = "w1\<lparr>server := Some (?sv\<lparr>srv_pool := p1\<rparr>)\<rparr>"
      have w: "safe v opn l [] {} ?w"
        by (rule server_fields_safe [of v opn l "[]" "{}" w1 ?sv ?w "?sv\<lparr>srv_pool := p1\<rparr>"])
           (use P1 in \<open>simp_all add: pool_safe_def\<close>)
      have "sound (\<lambda>w'. safe v opn l [] {} w' \<and> fresh_loop w \<le> fresh_loop w')
          (runLoopCallback (cur_tid ?w) (loops ?w (srv_loop sv)) (\<lambda>_. server_listen os)
            (net_push os (srv_loop sv)) FListen ?w)"
        by (rule sound_mono [OF run_listen_sound [OF k w]]) (use P1 in \<open>simp add: pool_safe_def\<close>)
      moreover have "server w1 = Some ?sv" using P1 by (simp add: pool_safe_def)
      ultimately show "sound (\<lambda>w'. safe v opn l [] {} w' \<and> fresh_loop w \<le> fresh_loop w') (case x of (p, w) \<Rightarrow>
          let w = w\<lparr>server := map_option (\<lambda>sv. sv\<lparr>srv_pool := p\<rparr>) (server w)\<rparr> in
          runLoopCallback (cur_tid w) (loops w (srv_loop sv)) (\<lambda>_. server_listen os)
            (net_push os (srv_loop sv)) FListen w)"
        by (simp add: x Let_def)
    qed simp
  qed
qed

end
