(* ===== verification/Safety.thy ===== *)
theory Safety
  imports SafeStart
begin

text \<open>
  What the invariant gives: no operation of a running server makes a memory error, whatever the
  network and the peers do and in whatever order the loops take their turns; connections and
  descriptors are neither lost nor used after their end. Then the example program from the first
  line of its \<open>main\<close>, and \<open>checked_os\<close>, a system that satisfies \<open>kernel_ok\<close>.
\<close>

section \<open>The while loop\<close>

text \<open>What the other threads do between two turns.\<close>

definition others_ok ::
  "('k \<Rightarrow> interest_view) \<Rightarrow> ('k \<Rightarrow> int set) \<Rightarrow> ('k world \<Rightarrow> 'k world) \<Rightarrow> bool" where
  "others_ok v opn others \<longleftrightarrow> (\<forall>w. healthy v opn w \<longrightarrow> healthy v opn (others w) \<and> fresh_loop w \<le> fresh_loop (others w))"

lemma loop_while_sound:
  assumes "kernel_ok os v opn" and "app_ok app" and "others_ok v opn others"
    and "healthy v opn w" and "l < fresh_loop w"
  shows "sound (\<lambda>r. \<forall>w'. r = Some w' \<longrightarrow> healthy v opn w') (loop_while os A app others l n w)"
  using assms(4,5)
proof (induction n arbitrary: w)
  case (Suc n)
  have "sound (\<lambda>r. \<forall>w'. r = Some w' \<longrightarrow> healthy v opn w')
      (bind_res (loop_turn os A app l w) (\<lambda>w. loop_while os A app others l n (others w)))"
  proof (rule sound_bind [OF loop_turn_sound [OF assms(1,2) Suc.prems]])
    fix w1 assume w1: "healthy v opn w1 \<and> fresh_loop w1 = fresh_loop w"
    then have o: "healthy v opn (others w1)" "fresh_loop w1 \<le> fresh_loop (others w1)"
      using assms(3) unfolding others_ok_def by blast+
    then have "l < fresh_loop (others w1)" using Suc.prems(2) w1 by simp
    then show "sound (\<lambda>r. \<forall>w'. r = Some w' \<longrightarrow> healthy v opn w') (loop_while os A app others l n (others w1))"
      by (rule Suc.IH [OF o(1)])
  qed
  then show ?case using Suc.prems by simp
qed simp

lemma flags_healthy:
  assumes "healthy v opn w" and "\<And>lp. poller (g lp) = poller lp" "\<And>lp. wakeup_fd (g lp) = wakeup_fd lp"
    "\<And>lp. pending (g lp) = pending lp" "\<And>lp. wakeup_channel (g lp) = wakeup_channel lp"
  shows "healthy v opn (upd_loop l g w)"
  unfolding healthy_def
proof (rule inert_safe)
  show "safe v opn 0 [] {} w" using assms(1) by (simp add: healthy_def)
  show "inert v opn w (upd_loop l g w)"
    using assms(2-5) by (auto simp: inert_def upd_loop_def epfd_def chans_def seen_def fun_eq_iff option.rel_refl
        cong: option.case_cong)
  show "same_queues w (upd_loop l g w)" using assms(4) by (simp add: same_queues_def upd_loop_def)
qed

lemma EventLoop_loop_sound:
  assumes "kernel_ok os v opn" and "app_ok app" and "others_ok v opn others"
    and h: "healthy v opn w" and l: "l < fresh_loop w"
  shows "sound (\<lambda>r. \<forall>w'. r = Some w' \<longrightarrow> healthy v opn w') (EventLoop_loop os A app others fuel l w)"
proof -
  let ?w = "upd_loop l (\<lambda>lp. lp\<lparr>looping := True, quit_flag := False\<rparr>) w"
  have w: "healthy v opn ?w" by (rule flags_healthy [OF h]) simp_all
  have "l < fresh_loop ?w" using l by (simp add: upd_loop_def)
  note L = loop_while_sound [OF assms(1-3) w this, of A fuel]
  show ?thesis
    unfolding EventLoop_loop_def
    by (rule sound_bind [OF L]) (auto intro!: flags_healthy)
qed

section \<open>The example program\<close>

lemma content_fits: "buf_inv b \<Longrightarrow> length (content b) \<le> vec_max"
  using buf_invD(4) [of b] by (simp add: content_def)

lemma echo_app_ok: "app_ok echo_app"
proof -
  have "length (echo_input w c) \<le> vec_max" if "view_ok w c" for w :: "'a world" and c
    using that buffer_getAll_ok content_fits by (auto simp: echo_input_def view_ok_def split: option.splits)
  then show ?thesis
    by (simp add: app_ok_def own_ok_def echo_app_def echo_onConnection_def echo_onMessage_def)
qed

definition process_start :: "'k world \<Rightarrow> bool" where
  "process_start w \<longleftrightarrow> fresh_loop w = 0 \<and> (\<forall>c. conns w c = None) \<and> server w = None"

lemma start_bare: "process_start w \<Longrightarrow> bare v opn w"
  by (simp add: process_start_def bare_def slots_ok_def infra_fds_def)

lemma echo_server_sound:
  assumes k: "kernel_ok os v opn" and b: "bare v opn w" and l: "l < fresh_loop w"
  shows "sound (\<lambda>w'. safe v opn 0 [] {} w' \<and> fresh_loop w' = fresh_loop w
      \<and> (\<exists>sv. server w' = Some sv \<and> srv_pool sv = setPoolSize 1 (ThreadPool_new l name)))
    (EchoServer_new os (Some l) addr name w)"
  unfolding EchoServer_new_def
proof (rule sound_bind [OF TcpServer_new_sound [OF k b l]], clarsimp)
  fix w1 sv
  let ?sv = "setThreadPoolSize 1 (srv_setMessageCallback (Some kOnMessage) (srv_setConnectionCallback (Some kOnConnection) sv))"
  assume a: "safe v opn 0 [] {} w1" "server w1 = Some sv" "srv_pool sv = ThreadPool_new (srv_loop sv) name"
      "l = srv_loop sv"
  have same: "connections ?sv = connections sv" "srv_acceptor ?sv = srv_acceptor sv" "srv_loop ?sv = srv_loop sv"
      "ip_port ?sv = ip_port sv" "srv_name ?sv = srv_name sv" "next_conn_id ?sv = next_conn_id sv"
      "srv_pool ?sv = setPoolSize 1 (srv_pool sv)"
    by (simp_all add: setThreadPoolSize_def srv_setMessageCallback_def srv_setConnectionCallback_def)
  have "safe v opn 0 [] {} (w1\<lparr>server := Some ?sv\<rparr>)"
    by (rule server_fields_safe [OF a(1,2) refl same(1-6)])
       (simp_all add: same(7) a(3) setPoolSize_def ThreadPool_new_def pool_inv_def)
  then show "safe v opn 0 [] {} (w1\<lparr>server := Some ?sv\<rparr>)
      \<and> srv_pool ?sv = setPoolSize 1 (ThreadPool_new (srv_loop sv) name)"
    by (simp add: same(7) a(3))
qed

lemma echo_main_sound:
  assumes k: "kernel_ok os v opn" and env: "plain_env getenv" and o: "others_ok v opn others"
    and w: "process_start w"
  shows "sound (\<lambda>r. \<forall>w'. r = Some w' \<longrightarrow> healthy v opn w') (echo_main os A getenv inet_addr others fuel w)"
proof -
  let ?addr = "InetAddress_new inet_addr 8002 ''127.0.0.1''"
  have fl: "fresh_loop w = 0" using w by (simp add: process_start_def)
  have run: "echo_main os A getenv inet_addr others fuel w
      = bind_res (EventLoop_new os getenv 0 (cur_tid w) (kern w, tls w)) (\<lambda>(k, ts, lp).
          bind_res (EchoServer_new os (Some 0) ?addr ''EchoServer'' (add_loop k ts lp w)) (\<lambda>w.
          bind_res (EchoServer_start os A getenv w) (\<lambda>w. EventLoop_loop os A echo_app others fuel 0 w)))"
    unfolding echo_main_def Let_def add_loop_def fl by (intro bind_res_cong) auto
  show ?thesis
    unfolding run
  proof (rule sound_bind [OF EventLoop_new_sound [OF k env]], clarsimp)
    fix k1 ts lp assume m: "loop_made v opn (kern w) 0 k1 lp"
    let ?w1 = "add_loop k1 ts lp w"
    have b: "bare v opn ?w1"
      by (rule add_loop_bare) (use m fl start_bare [OF w] in auto)
    have l: "0 < fresh_loop ?w1" by simp
    show "sound (\<lambda>r. \<forall>w'. r = Some w' \<longrightarrow> healthy v opn w')
        (bind_res (EchoServer_new os (Some 0) ?addr ''EchoServer'' ?w1) (\<lambda>w.
          bind_res (EchoServer_start os A getenv w) (EventLoop_loop os A echo_app others fuel 0)))"
    proof (rule sound_bind [OF echo_server_sound [OF k b l]], elim conjE exE)
      fix w2 sv assume w2: "safe v opn 0 [] {} w2" "fresh_loop w2 = fresh_loop ?w1" "server w2 = Some sv"
          "srv_pool sv = setPoolSize 1 (ThreadPool_new 0 ''EchoServer'')"
      note S = server_start_sound [OF k echo_app_ok env w2(1,3,4), of A]
      show "sound (\<lambda>r. \<forall>w'. r = Some w' \<longrightarrow> healthy v opn w')
          (bind_res (EchoServer_start os A getenv w2) (EventLoop_loop os A echo_app others fuel 0))"
        unfolding EchoServer_start_def
        by (rule sound_bind [OF S], rule EventLoop_loop_sound [OF k echo_app_ok o])
           (use w2 l in \<open>auto simp: healthy_def\<close>)
    qed
  qed
qed

section \<open>A system and a process for the witnesses\<close>

text \<open>The system of the other witnesses, except that it reports only what is registered, that a new
  epoll instance is empty, and that one read is at most 64 KB. The process is the example server with
  one connection, established and silent.\<close>

definition registered :: "toy \<Rightarrow> int \<Rightarrow> chan_ptr \<Rightarrow> bool" where
  "registered k ep p \<longleftrightarrow> list_ex (\<lambda>fd. map_option snd (interest k ep fd) = Some p) [0 .. next_fd k]"

definition checked_wait :: "int \<Rightarrow> nat \<Rightarrow> int \<Rightarrow> toy \<Rightarrow> (int + (32 word \<times> chan_ptr) list) \<times> toy" where
  "checked_wait ep n t k =
     (Inr (take n (filter (\<lambda>(ev, p). registered k ep p) (happening k))), k\<lparr>happening := []\<rparr>)"

definition checked_os :: "toy os" where
  "checked_os = toy_os\<lparr>
     sys_epoll_create := (\<lambda>k. (Inr (next_fd k),
       k\<lparr>next_fd := next_fd k + 1, interest := (interest k)(next_fd k := \<lambda>_. None)\<rparr>)),
     sys_epoll_wait := checked_wait,
     sys_readv := (\<lambda>fd lens. toy_readv fd (if sum_list lens \<le> 65536 then lens else [65536]))\<rparr>"

definition checked_open :: "toy \<Rightarrow> int set" where
  "checked_open k = {fd. fd < next_fd k}"

lemma checked_calls [simp]:
  "sys_epoll_ctl checked_os = toy_ctl" "sys_write checked_os = toy_write"
  "sys_epoll_wait checked_os = checked_wait"
  by (simp_all add: checked_os_def)

lemma checked_ctl_fd: "next_fd (snd (toy_ctl ep op fd ev p k)) = next_fd k"
  by (auto simp: toy_ctl_def Let_def split: ctl_op.splits option.splits)

lemma checked_kernel_ok: "kernel_ok checked_os interest checked_open"
  unfolding kernel_ok_def
proof (intro conjI)
  show "epoll_ok checked_os interest" using toy_epoll_ok by (simp add: epoll_ok_def)
  show "wait_reports checked_os interest checked_open"
    by (auto simp: wait_reports_def checked_wait_def keeps_views_def checked_open_def registered_def list_ex_iff
        dest!: in_set_takeD) blast
  show "transfers_ok checked_os interest checked_open"
    by (auto simp: transfers_ok_def checked_os_def toy_os_def toy_readv_def toy_write_def Let_def keeps_views_def
        checked_open_def vec_max_def split: if_split_asm)
  show "descriptors_ok checked_os interest checked_open"
    by (auto simp: descriptors_ok_def checked_os_def toy_os_def opens_def checked_open_def Let_def)
  show "quiet_calls checked_os interest checked_open"
    using checked_ctl_fd by (auto simp: quiet_calls_def checked_os_def toy_os_def keeps_views_def checked_open_def)
qed

definition demo_server :: tcp_server where
  "demo_server = \<lparr>srv_loop = 0, ip_port = ''127.0.0.1:8002'', srv_name = ''Echo'',
     srv_acceptor = \<lparr>acc_loop = 0, accept_socket = 5,
       accept_channel = (setReadCallback HAcceptRead (Channel_new 0 5))\<lparr>ch_events := 3, ch_state := kChannelAdded\<rparr>,
       new_connection_callback = True, listenning = True\<rparr>,
     srv_pool = ThreadPool_new 0 ''Echo'',
     srv_conn_callback = Some kOnConnection, srv_msg_callback = Some kOnMessage, srv_write_complete_callback = None,
     thread_init_callback = None, srv_started = 1, next_conn_id = 2,
     connections = [(''Echo-127.0.0.1:8002#1'', 0)]\<rparr>"

definition demo_buffer :: buffer where
  "demo_buffer = \<lparr>mem = [0, 0, 0, 0], vsize = 4, read_index = 0, write_index = 0\<rparr>"

definition demo_chan :: "handler channel" where
  "demo_chan = (tie 0 (setErrorCallback (HConnError 0) (setCloseCallback (HConnClose 0)
     (setWriteCallback (HConnWrite 0) (setReadCallback (HConnRead 0) (Channel_new 0 6))))))
     \<lparr>ch_events := 3, ch_state := kChannelAdded\<rparr>"

definition demo_conn :: tcp_connection where
  "demo_conn = \<lparr>tc_loop = 0, tc_name = ''Echo-127.0.0.1:8002#1'', tc_state = kConnected, reading = True, tc_sockfd = 6,
     tc_channel = demo_chan, local_addr = zero_sockaddr, peer_addr = zero_sockaddr,
     conn_callback = Some kOnConnection, msg_callback = Some kOnMessage, write_complete_callback = None,
     highwater_mark_callback = None, close_callback = Some kRemoveConnection, high_water_mark = 64,
     input_buffer = demo_buffer, output_buffer = demo_buffer\<rparr>"

definition demo_loop :: event_loop where
  "demo_loop = \<lparr>looping = True, quit_flag = False, thread_id = 1, poll_return_time = 0,
     poller = Some \<lparr>channels = [4 \<mapsto> WakeupCh 0, 5 \<mapsto> AcceptCh, 6 \<mapsto> ConnCh 0], epollfd = 3, events_size = 16\<rparr>,
     wakeup_fd = 4,
     wakeup_channel = (setReadCallback (HAwake 0) (Channel_new 0 4))\<lparr>ch_events := 3, ch_state := kChannelAdded\<rparr>,
     active_channels = [], calling_pending = False, pending = []\<rparr>"

definition demo_world :: "toy world" where
  "demo_world = \<lparr>kern = \<lparr>interest = (\<lambda>_ _. None)(3 := [4 \<mapsto> (3, WakeupCh 0), 5 \<mapsto> (3, AcceptCh), 6 \<mapsto> (3, ConnCh 0)]),
       accepted = (\<lambda>_. []), window = 9, input = (\<lambda>_. [])(6 := [104, 105]), happening = [(1, ConnCh 0)], next_fd = 7\<rparr>,
     cur_tid = 1, loops = (\<lambda>_. demo_loop), conns = [0 \<mapsto> demo_conn], strs = (\<lambda>_. None), trace = [],
     tls = [1 \<mapsto> 0], thread_count = 0, fresh_conn = 1, fresh_loop = 1, fresh_tid = 2, server = Some demo_server\<rparr>"

lemma demo_name: "conn_name_of demo_server 1 = ''Echo-127.0.0.1:8002#1''"
  by (simp add: conn_name_text demo_server_def c_str_def show_int_def show_nat.simps digit_def char_of_def bit_simps)

lemma demo_healthy: "healthy interest checked_open demo_world"
proof -
  have "inj_on (epfd demo_world) {..< fresh_loop demo_world}" by (simp add: demo_world_def lessThan_Suc)
  then have slots: "slots_ok interest demo_world"
    unfolding slots_ok_def
    by (intro conjI) (auto simp: demo_world_def epfd_def demo_loop_def chans_def seen_def demo_server_def demo_conn_def
        handlers_in_def setReadCallback_def Channel_new_def split: if_split_asm)
  have conns: "conns_ok interest demo_world"
    by (auto simp: conns_ok_def conn_ok_reg demo_world_def epfd_def demo_loop_def chans_def seen_def demo_conn_def
        demo_chan_def handlers_in_def conn_handlers_def setReadCallback_def Channel_new_def setErrorCallback_def
        setCloseCallback_def setWriteCallback_def tie_def slot_state_def demo_buffer_def buf_inv_def front_inv_def
        vec_max_def split: if_split_asm)
  have infra: "infra_fds demo_world = {3, 4, 5}"
    by (auto simp: infra_fds_def demo_world_def demo_loop_def epfd_def demo_server_def)
  have fds: "fds_ok checked_open demo_world"
    unfolding fds_ok_def infra by (auto simp: demo_world_def checked_open_def demo_conn_def split: if_split_asm)
  have one: "made_by demo_server i demo_conn" if "i = 1" for i
    using that demo_name by (simp add: made_by_def demo_server_def demo_conn_def)
  have "named_conns demo_server (conns demo_world)"
    using one by (auto simp: named_conns_def demo_world_def split: if_split_asm)
  then have "server_ok demo_server demo_world"
    by (simp add: server_ok_def table_ok_def pool_inv_def ThreadPool_new_def demo_server_def demo_world_def demo_conn_def)
  then have acc: "acceptor_ok demo_world"
    unfolding acceptor_ok_def
    by (intro exI [of _ demo_server])
       (simp add: demo_world_def demo_server_def handlers_in_def setReadCallback_def Channel_new_def ThreadPool_new_def)
  have q: "queue_of 0 [] demo_world l = []" for l by (simp add: queue_of_def demo_world_def demo_loop_def)
  have nq: "\<not> queued 0 [] demo_world f" for f by (simp add: queued_def q)
  have cs: "conns demo_world c = Some cn \<longleftrightarrow> c = 0 \<and> cn = demo_conn" for c cn by (auto simp: demo_world_def)
  have "in_table 0 (server demo_world)" by (simp add: in_table_def demo_world_def demo_server_def)
  then have "stages_ok 0 [] {} demo_world"
    by (simp add: stages_ok_def stage_ok_def kept_def awaiting_def nq referenced_def cs)
  then show ?thesis
    using slots conns fds acc by (simp add: healthy_def safe_def queues_ok_def q)
qed


lemmas demo_defs = demo_world_def demo_loop_def demo_conn_def demo_chan_def demo_server_def demo_buffer_def
  setReadCallback_def setWriteCallback_def setCloseCallback_def setErrorCallback_def Channel_new_def tie_def

lemma quiet_turn:
  assumes "happening (kern w) = []" and "poller (loops w l) = Some po" and "pending (loops w l) = []"
  shows "\<exists>w'. loop_turn checked_os A app l w = Inr w' \<and> conns w' = conns w \<and> trace w' = trace w \<and> fresh_loop w' = fresh_loop w
    \<and> happening (kern w') = [] \<and> poller (loops w' l) = Some po \<and> pending (loops w' l) = []"
proof -
  have poll: "poller_poll checked_os kPollWaitTime (kern w, po) = Inr ((kern w)\<lparr>happening := []\<rparr>, po, [], 0)"
    using assms(1) by (simp add: poller_poll_def checked_wait_def) (simp add: checked_os_def)
  show ?thesis
    using assms(2,3) poll
    by (simp add: loop_turn_def poll_phase_def upd_loop_def Let_def handle_phase_def run_pending_def
        executePendingFunctors_def release_functors_def List.map_filter_def)
qed

definition quiet_world :: "toy world" where
  "quiet_world = demo_world\<lparr>kern := (kern demo_world)\<lparr>happening := []\<rparr>\<rparr>"

lemma quiet_healthy: "healthy interest checked_open quiet_world"
  unfolding healthy_def quiet_world_def
  by (rule kern_safe [OF demo_healthy [unfolded healthy_def], THEN conjunct1])
     (simp add: keeps_views_def checked_open_def)

lemma quiet_world_quiet:
  "happening (kern quiet_world) = []" "poller (loops quiet_world 0) = poller demo_loop" "poller demo_loop \<noteq> None"
  "pending (loops quiet_world 0) = []"
  by (simp_all add: quiet_world_def demo_world_def demo_loop_def)

text \<open>Another loop of the process, as the other threads.\<close>

definition turn_of :: "'k os \<Rightarrow> alloc \<Rightarrow> 'k world app \<Rightarrow> nat \<Rightarrow> 'k world \<Rightarrow> 'k world" where
  "turn_of os A app l w = (if l < fresh_loop w
     then (case loop_turn os A app l w of Inl _ \<Rightarrow> w | Inr w' \<Rightarrow> w') else w)"

lemma turn_of_ok:
  assumes "kernel_ok os v opn" and "app_ok app"
  shows "others_ok v opn (turn_of os A app l)"
  unfolding others_ok_def
proof (intro allI impI)
  fix w assume h: "healthy v opn w"
  show "healthy v opn (turn_of os A app l w) \<and> fresh_loop w \<le> fresh_loop (turn_of os A app l w)"
  proof (cases "l < fresh_loop w")
    case True
    show ?thesis
      using loop_turn_sound [OF assms h True, of A] h
      by (cases "loop_turn os A app l w") (simp_all add: turn_of_def)
  qed (simp add: turn_of_def h)
qed

section \<open>Properties\<close>

text \<open>C2. No turn of any loop ever makes a memory error. Whatever the system reports and in whatever order
  the loops of a process take their turns, the handlers, functors, callbacks and releases they run
  never follow a dangling or null pointer and never read or write outside a buffer; a run ends in
  another well-formed state, or in an exception or \<open>LOG_FATAL\<close>. What it takes is a system that keeps
  its manual pages (\<open>kernel_ok\<close>), user code that uses its own connection in its own callback, only
  strings that exist and all of the input or none (\<open>app_ok\<close>), and a well-formed state to begin with.\<close>

theorem turns_never_fault:
  assumes "kernel_ok os v opn" and "app_ok app" and "healthy v opn w" and "\<forall>l \<in> set ls. l < fresh_loop w"
  shows "case fold_res (loop_turn os A app) ls w of
      Inl e \<Rightarrow> \<not> memory_error e
    | Inr w' \<Rightarrow> healthy v opn w' \<and> fresh_loop w' = fresh_loop w"
  using turns_sound [OF assms, of A] by (simp add: outcome_def)

theorem turns_never_fault_witness:
  "case fold_res (loop_turn checked_os libstdcxx echo_app) [0, 0, 0] demo_world of
      Inl e \<Rightarrow> \<not> memory_error e
    | Inr w' \<Rightarrow> healthy interest checked_open w' \<and> fresh_loop w' = 1"
proof -
  have one: "fresh_loop demo_world = 1" by (simp add: demo_world_def)
  then have "\<forall>l \<in> set [0, 0, 0]. l < fresh_loop demo_world" by simp
  from turns_never_fault [OF checked_kernel_ok echo_app_ok demo_healthy this, of libstdcxx]
  show ?thesis unfolding one .
qed

text \<open>C1. The example program never makes a memory error, from the first line of its \<open>main\<close> on, however
  long it runs, whatever its clients send and whatever its IO thread does meanwhile; it can end only
  by leaving its loop, by an exception or by \<open>LOG_FATAL\<close>. The environment must not select one of the
  pollers that do not exist.\<close>

theorem echo_never_faults:
  assumes "kernel_ok os v opn" and "plain_env getenv" and "process_start w" and "others_ok v opn others"
  shows "case echo_main os A getenv inet_addr others fuel w of
      Inl e \<Rightarrow> \<not> memory_error e
    | Inr None \<Rightarrow> True
    | Inr (Some w') \<Rightarrow> healthy v opn w'"
  using echo_main_sound [OF assms(1,2,4,3), of A inet_addr fuel] by (auto simp: outcome_def split: sum.split option.split)

theorem echo_never_faults_witness:
  "case echo_main checked_os libstdcxx (\<lambda>_. None) (\<lambda>_. (127, 0, 0, 1))
      (turn_of checked_os libstdcxx echo_app 1) 1000
      (demo_world\<lparr>fresh_loop := 0, conns := \<lambda>_. None, server := None\<rparr>) of
      Inl e \<Rightarrow> \<not> memory_error e
    | Inr None \<Rightarrow> True
    | Inr (Some w') \<Rightarrow> healthy interest checked_open w'"
proof -
  have "plain_env (\<lambda>_. None)" by (simp add: plain_env_def)
  moreover have "process_start (demo_world\<lparr>fresh_loop := 0, conns := \<lambda>_. None, server := None\<rparr>)"
    by (simp add: process_start_def)
  ultimately show ?thesis
    by (rule echo_never_faults [OF checked_kernel_ok _ _ turn_of_ok [OF checked_kernel_ok echo_app_ok]])
qed

text \<open>C3. Ownership. After any turns, every connection that exists is held by the table of the server or
  by a queued functor, so none is leaked; its descriptor is open, not shared with another connection
  nor with a poller, an eventfd or the listening socket; one that is connected or known to its poller
  is in the table or has its \<open>connDestory\<close> queued; and an event registered for it is registered with
  the poller of its own loop, under its own descriptor.\<close>

theorem turns_keep_ownership:
  assumes "kernel_ok os v opn" and "app_ok app" and "healthy v opn w" and "\<forall>l \<in> set ls. l < fresh_loop w"
    and "fold_res (loop_turn os A app) ls w = Inr w'" and "conns w' c = Some cn"
  shows "referenced c w' \<and> tc_sockfd cn \<in> opn (kern w') \<and> tc_sockfd cn \<notin> infra_fds w'
    \<and> (\<forall>d dn. conns w' d = Some dn \<and> tc_sockfd dn = tc_sockfd cn \<longrightarrow> d = c)
    \<and> (tc_state cn = kConnected \<or> ch_state (tc_channel cn) \<noteq> kChannelInitialized \<longrightarrow>
        in_table c (server w') \<or> (\<exists>l < fresh_loop w'. FConnDestory c \<in> set (pending (loops w' l))))
    \<and> (\<forall>l < fresh_loop w'. \<forall>fd m. seen v w' l fd = Some (m, ConnCh c) \<longrightarrow> l = tc_loop cn \<and> fd = tc_sockfd cn)"
proof -
  have s: "safe v opn 0 [] {} w'"
    using sound_Inr [OF turns_sound [OF assms(1-4)] assms(5)] by (simp add: healthy_def)
  note st = safe_stage [OF s assms(6)]
  have "referenced c w'" using st(2) by simp
  moreover have "tc_sockfd cn \<in> opn (kern w')" "tc_sockfd cn \<notin> infra_fds w'"
      "\<forall>d dn. conns w' d = Some dn \<and> tc_sockfd dn = tc_sockfd cn \<longrightarrow> d = c"
    using safeD(3) [OF s] assms(6) unfolding fds_ok_def by blast+
  moreover have "tc_state cn = kConnected \<or> ch_state (tc_channel cn) \<noteq> kChannelInitialized \<longrightarrow>
      in_table c (server w') \<or> (\<exists>l < fresh_loop w'. FConnDestory c \<in> set (pending (loops w' l)))"
    using st(1) by (auto simp: stage_ok_def quiet_def kept_def queued_def queue_of_def)
  moreover have "\<forall>l < fresh_loop w'. \<forall>fd m. seen v w' l fd = Some (m, ConnCh c) \<longrightarrow> l = tc_loop cn \<and> fd = tc_sockfd cn"
  proof (intro allI impI)
    fix l fd m assume "l < fresh_loop w'" "seen v w' l fd = Some (m, ConnCh c)"
    then have "place w' l fd (ConnCh c)" using safeD(1) [OF s] unfolding slots_ok_def by blast
    then show "l = tc_loop cn \<and> fd = tc_sockfd cn" using assms(6) by simp
  qed
  ultimately show ?thesis by (intro conjI)
qed

theorem turns_keep_ownership_witness:
  "\<exists>w'. fold_res (loop_turn checked_os libstdcxx echo_app) [0] quiet_world = Inr w'
    \<and> referenced 0 w' \<and> 6 \<in> checked_open (kern w') \<and> 6 \<notin> infra_fds w'"
proof -
  obtain w' where turn: "loop_turn checked_os libstdcxx echo_app 0 quiet_world = Inr w'" and "conns w' = conns quiet_world"
    using quiet_turn [OF quiet_world_quiet(1) _ quiet_world_quiet(4)] quiet_world_quiet(2,3) by fastforce
  then have cn: "conns w' 0 = Some demo_conn" by (simp add: quiet_world_def demo_world_def)
  have l: "\<forall>l \<in> set [0]. l < fresh_loop quiet_world" by (simp add: quiet_world_def demo_world_def)
  have run: "fold_res (loop_turn checked_os libstdcxx echo_app) [0] quiet_world = Inr w'" using turn by simp
  have fd: "tc_sockfd demo_conn = 6" by (simp add: demo_conn_def)
  note held = turns_keep_ownership [OF checked_kernel_ok echo_app_ok quiet_healthy l run cn, unfolded fd]
  from held have "referenced 0 w'" by (rule conjunct1)
  moreover from held have "6 \<in> checked_open (kern w')" by (rule conjunct2 [THEN conjunct1])
  moreover from held have "6 \<notin> infra_fds w'" by (rule conjunct2 [THEN conjunct2, THEN conjunct1])
  ultimately show ?thesis using run by (intro exI [of _ w'] conjI)
qed

end
