(* ===== verification/Lifecycle.thy ===== *)
theory Lifecycle
  imports SafeTurn
begin

text \<open>
  The life of a connection as its user sees it. \<open>life_step\<close> is the contract, over the callbacks in
  \<open>trace\<close>: the first one says that the connection is up and comes once, and after it was told down it
  never comes up again. \<open>lives\<close> is what an operation may add to the queues and the trace while the
  phases of connections stay as they are, and that states only go forward in the order of
  \<open>conn_state\<close>; it is a relation of \<open>Steps\<close>. \<open>lived\<close> is the invariant; the steps that change a phase,
  the table, the connections or the vector of functors keep it.
\<close>

section \<open>The order of states\<close>

fun rank :: "conn_state \<Rightarrow> nat" where
  "rank kConnecting = 0"
| "rank kConnected = 1"
| "rank kDisconnecting = 2"
| "rank kDisconnected = 3"

lemma rank_inject [simp]: "rank s = rank t \<longleftrightarrow> s = t"
  by (cases s; cases t) simp_all

instantiation conn_state :: linorder
begin

definition less_eq_conn_state :: "conn_state \<Rightarrow> conn_state \<Rightarrow> bool" where
  "less_eq_conn_state s t \<longleftrightarrow> rank s \<le> rank t"

definition less_conn_state :: "conn_state \<Rightarrow> conn_state \<Rightarrow> bool" where
  "less_conn_state s t \<longleftrightarrow> rank s < rank t"

instance
  by standard (auto simp: less_eq_conn_state_def less_conn_state_def)

end

lemma state_bounds [simp]: "kConnecting \<le> s" "s \<le> kDisconnected" "kDisconnected \<le> s \<longleftrightarrow> s = kDisconnected"
  by (cases s; simp add: less_eq_conn_state_def)+

lemma state_orders: "kConnected \<le> kDisconnecting" "s \<le> kConnecting \<longleftrightarrow> s = kConnecting"
  "kConnected \<le> s \<longleftrightarrow> s \<noteq> kConnecting"
  by (cases s; simp add: less_eq_conn_state_def)+

section \<open>What operations add to queues and trace\<close>

text \<open>Functors that an operation may queue that speaks of the connections \<open>S\<close> and may take leave of
  those in \<open>D\<close>, and callbacks it may make; those that say up or down are apart.\<close>

fun asks :: "nat set \<Rightarrow> nat set \<Rightarrow> Functor \<Rightarrow> bool" where
  "asks S D (FConnEstablish c) \<longleftrightarrow> False"
| "asks S D (FConnDestory c) \<longleftrightarrow> c \<in> D"
| "asks S D (FRemoveConnection c) \<longleftrightarrow> c \<in> D"
| "asks S D (FWriteComplete cb c) \<longleftrightarrow> c \<in> S"
| "asks S D (FHighWater cb c n) \<longleftrightarrow> c \<in> S"
| "asks S D f \<longleftrightarrow> True"

fun tells :: "nat set \<Rightarrow> obs \<Rightarrow> bool" where
  "tells S (CalledConnection cb c up) \<longleftrightarrow> False"
| "tells S (CalledMessage cb c) \<longleftrightarrow> c \<in> S"
| "tells S (CalledWriteComplete cb c) \<longleftrightarrow> c \<in> S"
| "tells S (CalledHighWater cb c n) \<longleftrightarrow> c \<in> S"
| "tells S ob \<longleftrightarrow> True"

lemma asks_mono: "asks S D f \<Longrightarrow> S \<subseteq> S' \<Longrightarrow> D \<subseteq> D' \<Longrightarrow> asks S' D' f"
  by (cases f) auto

lemma tells_mono: "tells S ob \<Longrightarrow> S \<subseteq> S' \<Longrightarrow> tells S' ob"
  by (cases ob) auto

definition adds :: "('a \<Rightarrow> bool) \<Rightarrow> 'a list \<Rightarrow> 'a list \<Rightarrow> bool" where
  "adds P xs ys \<longleftrightarrow> (\<exists>zs. ys = xs @ zs \<and> (\<forall>z \<in> set zs. P z))"

lemma adds_simps [simp]: "adds P xs xs" "adds P xs (xs @ zs) \<longleftrightarrow> (\<forall>z \<in> set zs. P z)"
  by (auto simp: adds_def)

lemma adds_trans: "adds P xs ys \<Longrightarrow> adds P ys zs \<Longrightarrow> adds P xs zs"
  by (auto simp: adds_def)

lemma adds_mono: "adds P xs ys \<Longrightarrow> (\<And>x. P x \<Longrightarrow> Q x) \<Longrightarrow> adds Q xs ys"
  by (auto simp: adds_def)

section \<open>Operations on one connection\<close>

named_theorems living \<open>operations that keep to the life of a connection\<close>

definition cx_lives :: "nat set \<Rightarrow> 'k cctx \<Rightarrow> 'k cctx \<Rightarrow> bool" where
  "cx_lives S x x' \<longleftrightarrow> adds (asks S {}) (pending (cx_loop x)) (pending (cx_loop x'))
     \<and> tc_state (cx_conn x) \<le> tc_state (cx_conn x')"

lemma cx_lives_refl [simp, intro]: "cx_lives S x x"
  by (simp add: cx_lives_def)

lemma cx_lives_trans: "cx_lives S a b \<Longrightarrow> cx_lives S b c \<Longrightarrow> cx_lives S a c"
  by (auto simp: cx_lives_def intro: adds_trans)

lemma cx_lives_kern [simp]:
  "cx_lives S x (x'\<lparr>cx_kern := k\<rparr>) \<longleftrightarrow> cx_lives S x x'" "cx_lives S (x\<lparr>cx_kern := k\<rparr>) x' \<longleftrightarrow> cx_lives S x x'"
  by (simp_all add: cx_lives_def)

lemma cx_lives_state [simp]:
  "cx_lives S x (cx_setState kDisconnected x)" "tc_state (cx_conn x) = kConnecting \<Longrightarrow> cx_lives S x (cx_setState st x)"
  by (simp_all add: cx_lives_def cx_setState_def)

lemma cx_push_lives: "asks S {} f \<Longrightarrow> cx_lives S x (cx_push os f x)"
  using pushLoopCallback_loop [of os "cx_tid x" f "cx_kern x" "cx_loop x"]
  by (auto simp: cx_push_def cx_lives_def split: prod.splits)

lemma cx_push_opt_lives: "(\<And>i. asks S {} (mk i)) \<Longrightarrow> cx_lives S x (cx_push_opt os mk cb x)"
  by (auto simp: cx_push_opt_def cx_push_lives split: option.splits)

lemma cx_update_lives: "cx_update os self x ch = Inr x' \<Longrightarrow> cx_lives S x x'"
  by (auto simp: cx_update_def loop_updateChannel_def res_iff cx_lives_def split: option.splits)

lemma cx_remove_lives: "cx_remove os self x = Inr x' \<Longrightarrow> cx_lives S x x'"
  by (auto simp: cx_remove_def loop_removeChannel_def res_iff cx_lives_def split: option.splits)

interpretation life: cx_steps "cx_lives {self}" os self for os self
  by unfold_locales (auto simp: cx_lives_def[of _ x "x\<lparr>cx_conn := cn\<rparr>" for x cn] intro: cx_lives_trans cx_push_lives cx_update_lives)

section \<open>Operations on the whole state\<close>

definition lives :: "nat set \<Rightarrow> nat set \<Rightarrow> ('k, 'z) net_scheme \<Rightarrow> ('k, 'z) net_scheme \<Rightarrow> bool" where
  "lives S D w w' \<longleftrightarrow> adds (tells S) (trace w) (trace w')
     \<and> (\<forall>l. adds (asks S D) (pending (loops w l)) (pending (loops w' l)))
     \<and> (\<forall>c. rel_option (\<lambda>cn cn'. tc_state cn \<le> tc_state cn') (conns w c) (conns w' c))"

lemma lives_refl [simp, intro]: "lives S D w w"
  by (simp add: lives_def option.rel_refl)

lemma lives_trans:
  assumes "lives S D a b" and "lives S D b c"
  shows "lives S D a c"
proof -
  have "rel_option (\<lambda>cn cn'. tc_state cn \<le> tc_state cn') (conns a i) (conns c i)" for i
    using assms unfolding lives_def
    by (cases "conns a i"; cases "conns b i"; cases "conns c i") (auto dest!: spec [of _ i])
  then show ?thesis using assms unfolding lives_def by (blast intro: adds_trans)
qed

lemma lives_mono: "lives S D w w' \<Longrightarrow> S \<subseteq> S' \<Longrightarrow> D \<subseteq> D' \<Longrightarrow> lives S' D' w w'"
  unfolding lives_def by (blast intro: adds_mono asks_mono tells_mono)

lemma lives_same:
  "conns w' = conns w \<Longrightarrow> trace w' = trace w \<Longrightarrow> (\<And>l. pending (loops w' l) = pending (loops w l)) \<Longrightarrow> lives S D w w'"
  by (simp add: lives_def option.rel_refl)

lemma in_conn_lives:
  assumes "in_conn c f w = Inr w'" and "\<And>x x'. f x = Inr x' \<Longrightarrow> conns w c = Some (cx_conn x) \<Longrightarrow> cx_lives S x x'"
  shows "lives S D w w'"
proof -
  obtain cn x' where cn: "conns w c = Some cn"
    and x': "f \<lparr>cx_kern = kern w, cx_tid = cur_tid w, cx_loop = loops w (tc_loop cn), cx_conn = cn\<rparr> = Inr x'"
    and w': "w' = w\<lparr>kern := cx_kern x', loops := (loops w)(tc_loop cn := cx_loop x'),
                  conns := (conns w)(c := Some (cx_conn x'))\<rparr>"
    using assms(1) by (auto simp: in_conn_def res_iff split: option.splits)
  show ?thesis
    using assms(2) [OF x'] cn
    by (auto simp: w' lives_def cx_lives_def option.rel_refl intro: adds_mono asks_mono)
qed

lemma on_loop_lives:
  assumes "\<And>k lp k' lp'. f (k, lp) = (k', lp') \<Longrightarrow> adds (asks S D) (pending lp) (pending lp')"
  shows "lives S D w (on_loop l f w)"
  using assms by (auto simp: on_loop_def lives_def option.rel_refl split: prod.splits)

lemma net_push_lives: "asks S D f \<Longrightarrow> lives S D w (net_push os l f w)"
  by (simp add: lives_def net_push_queue net_push_fields option.rel_refl)

lemma conn_field_lives:
  "conns w c = Some cn \<Longrightarrow> tc_state cn \<le> tc_state cn' \<Longrightarrow> lives S D w (w\<lparr>conns := (conns w)(c \<mapsto> cn')\<rparr>)"
  by (simp add: lives_def option.rel_refl)

lemma note_call_lives: "tells S ob \<Longrightarrow> lives S D w (note_call ob w)"
  by (simp add: lives_def note_call_def option.rel_refl)

interpretation life: net_steps "\<lambda>c. cx_lives {c}" "lives S {}" os "\<lambda>c. c \<in> S" for os S
proof
  show "lives S {} w w'" if "in_conn c f w = Inr w'" "c \<in> S" "\<And>x x'. f x = Inr x' \<Longrightarrow> cx_lives {c} x x'"
    for c f and w w' :: "('a, 'b) net_scheme"
    by (rule lives_mono [OF in_conn_lives [OF that(1)]]) (use that in auto)
  show "lives S {} w (on_loop l (loop_quit os t) w)" for l t and w :: "('a, 'b) net_scheme"
    by (rule on_loop_lives) (auto dest!: arg_cong [where f = snd] simp: loop_quit_loop)
  show "lives S {} u w" if "lives S {} u v" "lives S {} v w" for u v w :: "('a, 'b) net_scheme"
    by (rule lives_trans [OF that])
  show "lives S {} w (w\<lparr>strs := ss\<rparr>)" for ss and w :: "('a, 'b) net_scheme"
    by (rule lives_same) simp_all
qed (auto simp: setHighWaterCallback_def state_orders life.cx_steps_axioms intro: conn_field_lives net_push_lives)

lemma acts_ok_conn: "acts_ok me N n S as \<Longrightarrow> a \<in> set as \<Longrightarrow> act_conn a = Some c \<Longrightarrow> me = Some c"
  by (induction me N n S as rule: acts_ok.induct) auto

text \<open>User code may speak of its own connection only.\<close>

lemma user_lives:
  assumes "run_actions os A as (note_call ob w) = Inr w'" and "acts_ok me N n G as" and "tells (set_option me) ob"
  shows "lives (set_option me) {} w w'"
proof -
  have "lives (set_option me) {} (note_call ob w) w'"
    by (rule life.actions_steps [OF assms(1)]) (use acts_ok_conn [OF assms(2)] in auto)
  then show ?thesis by (rule lives_trans [OF note_call_lives [OF assms(3)]])
qed

section \<open>The contract\<close>

text \<open>What the user of a connection sees of it. \<open>life_step\<close> is one callback, \<open>None\<close> where none may come.\<close>

datatype phase = Unborn | Up | Down

fun life_step :: "phase \<Rightarrow> obs \<Rightarrow> phase option" where
  "life_step Unborn (CalledConnection cb c up) = (if up then Some Up else None)"
| "life_step Unborn ob = None"
| "life_step Up (CalledConnection cb c up) = (if up then None else Some Down)"
| "life_step Up ob = Some Up"
| "life_step Down (CalledConnection cb c up) = (if up then None else Some Down)"
| "life_step Down ob = Some Down"

fun about :: "obs \<Rightarrow> nat option" where
  "about (CalledConnection cb c up) = Some c"
| "about (CalledMessage cb c) = Some c"
| "about (CalledWriteComplete cb c) = Some c"
| "about (CalledHighWater cb c n) = Some c"
| "about (CalledUser u) = None"
| "about (CalledInit cb l) = None"

fun life_run :: "nat \<Rightarrow> phase \<Rightarrow> obs list \<Rightarrow> phase option" where
  "life_run c p [] = Some p"
| "life_run c p (ob # obs) =
     (if about ob = Some c then (case life_step p ob of None \<Rightarrow> None | Some q \<Rightarrow> life_run c q obs)
      else life_run c p obs)"

definition phase_at :: "nat \<Rightarrow> ('k, 'z) net_scheme \<Rightarrow> phase option" where
  "phase_at c w = life_run c Unborn (trace w)"

lemma life_run_append:
  "life_run c p (xs @ ys) = (case life_run c p xs of None \<Rightarrow> None | Some q \<Rightarrow> life_run c q ys)"
  by (induction c p xs rule: life_run.induct) (auto split: option.split)

lemma phase_note:
  "phase_at c (note_call ob w) = (if about ob = Some c then Option.bind (phase_at c w) (\<lambda>p. life_step p ob) else phase_at c w)"
  by (auto simp: phase_at_def note_call_def life_run_append split: option.split)

lemma phase_same: "trace w' = trace w \<Longrightarrow> phase_at c w' = phase_at c w"
  by (simp add: phase_at_def)

lemma life_step_tells: "tells S ob \<Longrightarrow> about ob = Some c \<Longrightarrow> c \<in> S \<and> (p \<noteq> Unborn \<longrightarrow> life_step p ob = Some p)"
  by (cases ob; cases p) auto

lemma life_run_tells:
  assumes "\<forall>ob \<in> set obs. tells S ob" and "c \<notin> S \<or> p \<noteq> Unborn"
  shows "life_run c p obs = Some p"
  using assms by (induction obs) (auto dest: life_step_tells)

lemma lives_phase:
  assumes "lives S D w w'" and "phase_at c w = Some p" and "c \<notin> S \<or> p \<noteq> Unborn"
  shows "phase_at c w' = Some p"
proof -
  obtain obs where "trace w' = trace w @ obs" "\<forall>ob \<in> set obs. tells S ob"
    using assms(1) by (auto simp: lives_def adds_def)
  then show ?thesis using assms(2) life_run_tells [OF _ assms(3)] by (simp add: phase_at_def life_run_append)
qed

section \<open>The invariant\<close>

text \<open>
  The phase of every connection fits its state, the table and the queues. \<open>E\<close> holds those that are
  about to be established by the running code.
\<close>

definition life_ok :: "nat set \<Rightarrow> nat \<Rightarrow> Functor list \<Rightarrow> 'k world \<Rightarrow> nat \<Rightarrow> phase \<Rightarrow> bool" where
  "life_ok E l B w c p \<longleftrightarrow>
     (case conns w c of
        None \<Rightarrow> p = (if c < fresh_conn w then Down else Unborn)
      | Some cn \<Rightarrow> (p = Unborn \<longleftrightarrow> awaiting l B w c \<or> c \<in> E)
          \<and> (p \<noteq> Unborn \<longrightarrow> kConnected \<le> tc_state cn)
          \<and> (p = Down \<longrightarrow> tc_state cn = kDisconnected)
          \<and> (\<not> in_table c (server w) \<or> parting l B w c \<longrightarrow> p = Down)
          \<and> (\<forall>f. queued l B w f \<and> functor_holds f = Some c \<and> \<not> is_establish f \<longrightarrow> p \<noteq> Unborn))"

definition lived :: "nat set \<Rightarrow> nat \<Rightarrow> Functor list \<Rightarrow> 'k world \<Rightarrow> bool" where
  "lived E l B w \<longleftrightarrow> (\<forall>c. \<exists>p. phase_at c w = Some p \<and> life_ok E l B w c p)"

lemma lived_phase:
  assumes "lived E l B w"
  obtains p where "phase_at c w = Some p" "life_ok E l B w c p"
  using assms by (auto simp: lived_def)

lemma asks_queued:
  assumes "lives S D w w'" and "fresh_loop w' = fresh_loop w"
  shows "queued l B w f \<Longrightarrow> queued l B w' f" and "queued l B w' f \<Longrightarrow> queued l B w f \<or> asks S D f"
proof -
  have a: "\<exists>fs. pending (loops w' l') = pending (loops w l') @ fs \<and> (\<forall>f \<in> set fs. asks S D f)" for l'
    using assms(1) by (simp add: lives_def adds_def)
  show "queued l B w f \<Longrightarrow> queued l B w' f"
    using a unfolding queued_def queue_of_def assms(2) by (metis Un_iff set_append)
  show "queued l B w' f \<Longrightarrow> queued l B w f \<or> asks S D f"
    using a unfolding queued_def queue_of_def assms(2) by (metis Un_iff set_append)
qed

text \<open>What the invariant needs of the rest of the state.\<close>

definition settled :: "'k world \<Rightarrow> 'k world \<Rightarrow> bool" where
  "settled w w' \<longleftrightarrow> fresh_conn w' = fresh_conn w \<and> fresh_loop w' = fresh_loop w
     \<and> (\<forall>c. in_table c (server w') \<longleftrightarrow> in_table c (server w))"

lemma settled_evolves: "evolves w w' \<Longrightarrow> settled w w'"
  by (simp add: settled_def evolves_world)

lemma asks_holds: "asks S D f \<Longrightarrow> functor_holds f = Some c \<Longrightarrow> c \<in> S \<union> D \<and> \<not> is_establish f"
  by (cases f) auto

lemma lived_lives:
  assumes iv: "lived E l B w" and li: "lives S D w w'" and st: "settled w w'"
    and S: "\<And>c. c \<in> S \<Longrightarrow> phase_at c w \<noteq> Some Unborn" and D: "\<And>c. c \<in> D \<Longrightarrow> phase_at c w = Some Down"
  shows "lived E l B w' \<and> (\<forall>c. phase_at c w' = phase_at c w)"
proof -
  have same: "fresh_conn w' = fresh_conn w" "in_table c (server w') = in_table c (server w)" for c
    using st by (simp_all add: settled_def)
  have fl: "fresh_loop w' = fresh_loop w" using st by (simp add: settled_def)
  note q = asks_queued [OF li fl, of l B]
  have aw: "awaiting l B w' c \<longleftrightarrow> awaiting l B w c" for c
    using q [of "FConnEstablish c"] by (auto simp: awaiting_def)
  have "\<exists>p. phase_at c w' = Some p \<and> phase_at c w = Some p \<and> life_ok E l B w' c p" for c
  proof -
    obtain p where p: "phase_at c w = Some p" "life_ok E l B w c p" using iv by (rule lived_phase)
    have ph: "phase_at c w' = Some p" by (rule lives_phase [OF li p(1)]) (use S p(1) in auto)
    have part: "parting l B w' c \<Longrightarrow> parting l B w c \<or> p = Down"
      using q(2) [of "FConnDestory c"] q(2) [of "FRemoveConnection c"] D p(1) by (auto simp: parting_def)
    have fs: "p \<noteq> Unborn" if "queued l B w' f" "functor_holds f = Some c" "\<not> is_establish f"
        "\<forall>f. queued l B w f \<and> functor_holds f = Some c \<and> \<not> is_establish f \<longrightarrow> p \<noteq> Unborn" for f
      using q(2) [OF that(1)] asks_holds [of S D f, OF _ that(2)] that(2-4) S [of c] D [of c] p(1) by auto
    have "rel_option (\<lambda>cn cn'. tc_state cn \<le> tc_state cn') (conns w c) (conns w' c)"
      using li by (simp add: lives_def)
    then have "life_ok E l B w' c p"
      using p(2) part fs aw
      by (cases "conns w c"; cases "conns w' c") (auto simp: life_ok_def same dest: order_trans)
    then show ?thesis using ph p(1) by blast
  qed
  then show ?thesis unfolding lived_def by (metis (no_types, lifting))
qed

section \<open>Steps of the contract\<close>

lemma life_okD:
  assumes "life_ok E l B w c p" and "conns w c = Some cn"
  shows "p = Unborn \<longleftrightarrow> awaiting l B w c \<or> c \<in> E" "p \<noteq> Unborn \<Longrightarrow> kConnected \<le> tc_state cn"
    "p = Down \<Longrightarrow> tc_state cn = kDisconnected" "\<not> in_table c (server w) \<Longrightarrow> p = Down"
    "parting l B w c \<Longrightarrow> p = Down"
    "queued l B w f \<Longrightarrow> functor_holds f = Some c \<Longrightarrow> \<not> is_establish f \<Longrightarrow> p \<noteq> Unborn"
  using assms unfolding life_ok_def by auto

text \<open>The two callbacks that change the phase.\<close>

lemma lived_note:
  assumes iv: "lived E l B w" and cn: "conns w c = Some cn" and p: "phase_at c w = Some p"
    and ob: "about ob = Some c" "life_step p ob = Some q"
    and ok: "life_ok E l B w c p \<Longrightarrow> life_ok E' l B w c q" and E: "\<And>d. d \<noteq> c \<Longrightarrow> d \<in> E' \<longleftrightarrow> d \<in> E"
  shows "lived E' l B (note_call ob w) \<and> phase_at c (note_call ob w) = Some q"
proof -
  have ph: "phase_at d (note_call ob w) = (if d = c then Some q else phase_at d w)" for d
    using ob p by (simp add: phase_note)
  have "queued l B (note_call ob w) = queued l B w" "conns (note_call ob w) = conns w"
      "server (note_call ob w) = server w" "fresh_conn (note_call ob w) = fresh_conn w"
    by (simp_all add: note_call_def queued_def queue_of_def fun_eq_iff)
  then have same: "life_ok E' l B (note_call ob w) d r \<longleftrightarrow> life_ok E' l B w d r" for d r
    by (simp add: life_ok_def awaiting_def parting_def cong: option.case_cong)
  have other: "life_ok E' l B w d r" if "d \<noteq> c" "life_ok E l B w d r" for d r
    using that(2) unfolding life_ok_def E [OF that(1)] .
  have "\<exists>r. phase_at d (note_call ob w) = Some r \<and> life_ok E' l B (note_call ob w) d r" for d
  proof -
    obtain r where "phase_at d w = Some r" "life_ok E l B w d r" using iv by (rule lived_phase)
    then show ?thesis using p ok other by (cases "d = c") (auto simp: ph same)
  qed
  then show ?thesis by (simp add: lived_def ph)
qed

lemma lived_up:
  assumes iv: "lived {c} l B w" and cn: "conns w c = Some cn" "tc_state cn = kConnected" and aw: "\<not> awaiting l B w c"
  shows "lived {} l B (note_call (CalledConnection cb c True) w)
    \<and> phase_at c (note_call (CalledConnection cb c True) w) = Some Up"
proof (rule lived_note [OF iv cn(1)])
  obtain p where p: "phase_at c w = Some p" "life_ok {c} l B w c p" using iv by (rule lived_phase)
  then have "p = Unborn" using life_okD(1) [OF p(2) cn(1)] by simp
  then show "phase_at c w = Some Unborn" using p by simp
  assume "life_ok {c} l B w c Unborn"
  then show "life_ok {} l B w c Up" using cn aw by (auto simp: life_ok_def)
qed simp_all

lemma lived_down:
  assumes iv: "lived E l B w" and cn: "conns w c = Some cn" "tc_state cn = kDisconnected"
    and p: "phase_at c w \<noteq> Some Unborn"
  shows "lived E l B (note_call (CalledConnection cb c False) w)
    \<and> phase_at c (note_call (CalledConnection cb c False) w) = Some Down"
proof -
  obtain p where p: "phase_at c w = Some p" "p \<noteq> Unborn" using lived_phase [OF iv, of c] p by auto
  show ?thesis
  proof (rule lived_note [OF iv cn(1) p(1)])
    show "life_step p (CalledConnection cb c False) = Some Down" using p(2) by (cases p) simp_all
    assume "life_ok E l B w c p"
    then show "life_ok E l B w c Down" using cn p(2) by (auto simp: life_ok_def)
  qed simp_all
qed

text \<open>The vector of functors: swapped out of the queue, run one by one.\<close>

lemma lived_requeue:
  assumes iv: "lived E l B w" and same: "trace w' = trace w" "conns w' = conns w" "settled w w'"
    and q: "\<And>l'. queue_of m C w' l' = queue_of l B w l'"
  shows "lived E m C w'"
proof -
  have st: "fresh_conn w' = fresh_conn w" "fresh_loop w' = fresh_loop w" "in_table c (server w') = in_table c (server w)" for c
    using same(3) by (simp_all add: settled_def)
  have "queued m C w' = queued l B w" by (simp add: queued_def q st fun_eq_iff)
  then have "life_ok E m C w' c p \<longleftrightarrow> life_ok E l B w c p" for c p
    by (simp add: life_ok_def awaiting_def parting_def st same(2) cong: option.case_cong)
  then show ?thesis using iv phase_same [OF same(1)] by (simp add: lived_def)
qed

lemma lived_drop:
  assumes iv: "lived E l (f # B) w" and l: "l < fresh_loop w"
  shows "lived (E \<union> {c. f = FConnEstablish c}) l B w"
proof -
  have "life_ok (E \<union> {c. f = FConnEstablish c}) l B w c p" if "life_ok E l (f # B) w c p" for c p
    using that l by (auto simp: life_ok_def awaiting_def parting_def queued_Cons split: option.splits)
  then show ?thesis using iv unfolding lived_def by blast
qed

text \<open>The table and the connections.\<close>

lemma lived_delete:
  assumes iv: "lived E l B w" and p: "phase_at c w = Some Down"
    and t: "\<And>d. in_table d so \<longleftrightarrow> in_table d (server w) \<and> d \<noteq> c"
  shows "lived E l B (w\<lparr>server := so\<rparr>)"
proof -
  let ?w = "w\<lparr>server := so\<rparr>"
  have "life_ok E l B ?w d q" if "life_ok E l B w d q" "d = c \<longrightarrow> q = Down" for d q
    using that by (auto simp: life_ok_def awaiting_def parting_def t split: option.splits)
  moreover have "phase_at d ?w = phase_at d w" for d by (rule phase_same) simp
  ultimately show ?thesis using iv p unfolding lived_def by (metis option.inject)
qed

lemma queued_holds:
  assumes s: "safe v opn l B H w" and "queued l B w f" and "functor_holds f = Some c"
  shows "conns w c \<noteq> None"
proof -
  obtain l' where "functor_ok w l' f" using safeD(5) [OF s] assms(2) by (auto simp: queues_ok_def queued_def)
  then show ?thesis using assms(3) by (cases f) (auto simp: live_at_def)
qed

lemma lived_added:
  assumes s: "safe v opn l B H w" and iv: "lived {} l B w" and c: "c = fresh_conn w" "conns w c = None"
    and cn: "tc_state cn = kConnecting"
    and w1: "w1 = w\<lparr>conns := (conns w)(c := Some cn), fresh_conn := c + 1, server := so\<rparr>"
    and t: "\<And>d. in_table d so \<longleftrightarrow> in_table d (server w) \<or> d = c"
  shows "lived {c} l B w1"
proof -
  have q: "queued l B w1 = queued l B w" by (simp add: w1 queued_def queue_of_def fun_eq_iff)
  have c1: "conns w1 c = Some cn" "in_table c (server w1)" "kConnected \<noteq> kConnecting" using cn by (simp_all add: w1 t)
  have none: "\<not> queued l B w f" if "functor_holds f = Some c" for f using queued_holds [OF s _ that] c(2) by blast
  have ph: "phase_at d w1 = phase_at d w" for d by (rule phase_same) (simp add: w1)
  have "life_ok {c} l B w1 d p" if d: "life_ok {} l B w d p" for d p
  proof (cases "d = c")
    case True
    then have "p = Unborn" using d c by (simp add: life_ok_def)
    then show ?thesis
      using True none [of "FConnEstablish c"] none [of "FConnDestory c"] none [of "FRemoveConnection c"] none
      by (auto simp: life_ok_def awaiting_def parting_def q c1)
  next
    case False
    then have "conns w1 d = conns w d" "in_table d (server w1) = in_table d (server w)" by (simp_all add: w1 t)
    moreover have "d < fresh_conn w1 \<longleftrightarrow> d < fresh_conn w" using False c by (auto simp: w1)
    ultimately show ?thesis using d False by (auto simp: life_ok_def awaiting_def parting_def q split: option.splits)
  qed
  then show ?thesis using iv unfolding lived_def ph by blast
qed

lemma net_push_trace [simp]: "trace (net_push os l f w) = trace w"
  by (simp add: net_push_def on_loop_def split: prod.split)

lemma lived_push_establish:
  assumes iv: "lived {c} l B w" and io: "io < fresh_loop w"
  shows "lived {} l B (net_push os io (FConnEstablish c) w)"
proof -
  let ?w = "net_push os io (FConnEstablish c) w"
  have "settled w ?w" by (rule settled_evolves [OF net_push_evolves])
  then have st: "fresh_conn ?w = fresh_conn w" "fresh_loop ?w = fresh_loop w" "in_table d (server ?w) = in_table d (server w)" for d
    by (simp_all add: settled_def)
  have cs: "conns ?w = conns w" by (simp add: net_push_def on_loop_simps)
  have q: "queued l B ?w f \<longleftrightarrow> queued l B w f \<or> f = FConnEstablish c" for f
    using io by (auto simp: queued_def queue_of_def net_push_queue st)
  have "life_ok {} l B ?w d p" if "life_ok {c} l B w d p" for d p
    using that by (auto simp: life_ok_def awaiting_def parting_def q st cs split: option.splits)
  moreover have "phase_at d ?w = phase_at d w" for d by (rule phase_same) (rule net_push_trace)
  ultimately show ?thesis using iv unfolding lived_def by metis
qed

lemma lived_destroyed:
  assumes iv: "lived E l B w" and cn: "conns w c = Some cn" "c < fresh_conn w" and nt: "\<not> in_table c (server w)"
  shows "lived E l B (TcpConnection_destroy os c cn w)"
proof -
  let ?w = "TcpConnection_destroy os c cn w"
  have "queued l B ?w = queued l B w" "server ?w = server w" "fresh_conn ?w = fresh_conn w"
      "conns ?w = (conns w)(c := None)"
    by (simp_all add: TcpConnection_destroy_def queued_def queue_of_def fun_eq_iff)
  then have "life_ok E l B ?w d p" if "life_ok E l B w d p" for d p
    using that cn nt by (cases "d = c") (auto simp: life_ok_def awaiting_def parting_def split: option.splits)
  moreover have "phase_at d ?w = phase_at d w" for d by (rule phase_same) (simp add: TcpConnection_destroy_def)
  ultimately show ?thesis using iv unfolding lived_def by metis
qed

end
