(* ===== verification/LifeTurn.thy ===== *)
theory LifeTurn
  imports Lifecycle
begin

text \<open>
  Turns keep the contract of \<open>Lifecycle\<close>: the operations of a connection and of the server that call
  user code, the handlers, the functors and the turns that run them.
\<close>

section \<open>Calls of user code\<close>

lemma actions_lived:
  assumes run: "run_actions os A as w = Inr w'" and ok: "acts_ok me N n G as" and iv: "lived {} l B w"
    and me: "\<And>c. me = Some c \<Longrightarrow> phase_at c w \<noteq> Some Unborn"
  shows "lived {} l B w' \<and> (\<forall>c. phase_at c w' = phase_at c w)"
proof (rule lived_lives [OF iv])
  show "lives (set_option me) {} w w'"
    by (rule life.actions_steps [OF run]) (use acts_ok_conn [OF ok] in auto)
  show "settled w w'" by (rule settled_evolves [OF run_actions_evolves [OF run]])
qed (use me in auto)

lemma noted_lived:
  assumes run: "run_actions os A as (note_call ob w) = Inr w'" and ok: "acts_ok me N n G as" and iv: "lived {} l B w"
    and me: "\<And>c. me = Some c \<Longrightarrow> phase_at c w \<noteq> Some Unborn" and ob: "tells (set_option me) ob"
  shows "lived {} l B w'"
proof -
  have "settled w w'" by (rule settled_evolves [OF noted_actions_evolve [OF run]])
  then show ?thesis using lived_lives [OF iv user_lives [OF run ok ob]] me by auto
qed

lemma view_conn: "view_ok w c \<Longrightarrow> \<exists>cn. conns w c = Some cn"
  by (auto simp: view_ok_def split: option.splits)

lemma in_conn_view:
  assumes "in_conn c f w = Inr w'" and "\<And>x x'. f x = Inr x' \<Longrightarrow> cx_grows x x'" and "view_ok w c"
  shows "view_ok w' c"
proof -
  obtain cn where cn: "conns w c = Some cn" using view_conn [OF assms(3)] by blast
  then obtain x where x: "f (conn_cx w cn) = Inr x" "w' = conn_put c cn x w"
    using assms(1) by (auto simp: in_conn_put res_iff)
  have "input_buffer (cx_conn x) = input_buffer cn" using assms(2) [OF x(1)] by (simp add: cx_grows_def)
  then show ?thesis using assms(3) cn by (simp add: view_ok_def x(2))
qed

text \<open>The two halves of \<open>call_connection\<close>'s use: up when established, down when closed.\<close>

lemma call_connection_up:
  assumes app: "app_ok app" and call: "call_connection os A app c w = Inr w'" and v: "view_ok w c"
    and iv: "lived {c} l B w" and cn: "conns w c = Some cn" "tc_state cn = kConnected" and aw: "\<not> awaiting l B w c"
  shows "lived {} l B w'"
proof -
  obtain cb where run: "run_actions os A (on_connection app cb w c) (note_call (CalledConnection cb c True) w) = Inr w'"
    using call cn by (auto simp: call_connection_def isConnected_def split: option.splits)
  have ok: "own_ok w c (on_connection app cb w c)" using app v by (simp add: app_ok_def)
  note n = lived_up [OF iv cn aw, of cb]
  show ?thesis
    using actions_lived [OF run ok [unfolded own_ok_def] conjunct1 [OF n]] n by simp
qed

lemma call_connection_down:
  assumes app: "app_ok app" and call: "call_connection os A app c w = Inr w'" and v: "view_ok w c"
    and iv: "lived {} l B w" and cn: "conns w c = Some cn" "tc_state cn = kDisconnected"
    and p: "phase_at c w \<noteq> Some Unborn"
  shows "lived {} l B w' \<and> phase_at c w' = Some Down"
proof -
  obtain cb where run: "run_actions os A (on_connection app cb w c) (note_call (CalledConnection cb c False) w) = Inr w'"
    using call cn by (auto simp: call_connection_def isConnected_def split: option.splits)
  have ok: "own_ok w c (on_connection app cb w c)" using app v by (simp add: app_ok_def)
  note n = lived_down [OF iv cn p, of cb]
  show ?thesis
    using actions_lived [OF run ok [unfolded own_ok_def] conjunct1 [OF n]] n by simp
qed

lemma call_message_lived:
  assumes app: "app_ok app" and call: "call_message os A app c t w = Inr w'" and v: "view_ok w c"
    and iv: "lived {} l B w" and p: "phase_at c w \<noteq> Some Unborn"
  shows "lived {} l B w'"
proof -
  obtain cb where run: "run_actions os A (on_message app cb w c t) (note_call (CalledMessage cb c) w) = Inr w'"
    using call view_conn [OF v] by (auto simp: call_message_def split: option.splits)
  have ok: "own_ok w c (on_message app cb w c t)" using app v by (simp add: app_ok_def)
  show ?thesis by (rule noted_lived [OF run ok [unfolded own_ok_def] iv]) (use p in auto)
qed

section \<open>Establishing, closing, destroying\<close>

lemma set_state_conn:
  assumes "in_conn c (\<lambda>x. let x = cx_setState st x in
      setter (cx_update os c x) (g (tc_channel (cx_conn x)))) w = Inr w'" and "conns w c = Some cn"
    and "\<And>(u :: _ \<Rightarrow> 'k cctx res) ch x'. setter u ch = Inr x' \<Longrightarrow> \<exists>ch'. u ch' = Inr x'" and "tc_state cn \<le> st"
  shows "lives S {} w w' \<and> evolves w (w' :: ('k, 'z) net_scheme) \<and> (view_ok w c \<longrightarrow> view_ok w' c)
    \<and> (\<exists>cn'. conns w' c = Some cn' \<and> tc_state cn' = st)"
proof -
  let ?f = "\<lambda>x. let x = cx_setState st x in setter (cx_update os c x) (g (tc_channel (cx_conn x)))"
  have up: "\<exists>ch. cx_update os c (cx_setState st x) ch = Inr x'" if "?f x = Inr x'" for x x' :: "'k cctx"
    using that assms(3) unfolding Let_def by blast
  have st: "tc_state (cx_conn x') = st" if "?f x = Inr x'" for x x' :: "'k cctx"
    using up [OF that] by (auto simp: cx_update_def cx_setState_def res_iff)
  have gr: "cx_grows x x'" if "?f x = Inr x'" for x x' :: "'k cctx"
    using up [OF that] cx_update_grows by fastforce
  have "cx_lives S x x'" if f: "?f x = Inr x'" and x: "conns w c = Some (cx_conn x)" for x x' :: "'k cctx"
  proof -
    obtain ch where "cx_update os c (cx_setState st x) ch = Inr x'" using up [OF f] by blast
    then have "cx_lives S (cx_setState st x) x'" by (rule cx_update_lives)
    then show ?thesis using x assms(2,4) st [OF f] by (simp add: cx_lives_def cx_setState_def)
  qed
  note l = in_conn_lives [OF assms(1) this]
  obtain x where "?f (conn_cx w cn) = Inr x" "w' = conn_put c cn x w"
    using assms(1,2) by (auto simp: in_conn_put res_iff)
  then have "\<exists>cn'. conns w' c = Some cn' \<and> tc_state cn' = st" using st by auto
  then show ?thesis
    using l in_conn_evolves [OF assms(1) gr] in_conn_view [OF assms(1) gr] by blast
qed

lemma establish_conn:
  assumes "in_conn c (\<lambda>x. let x = cx_setState kConnected x in
      enableReadEvent (cx_update os c x) (tie c (tc_channel (cx_conn x)))) w = Inr w'"
    and "conns w c = Some cn" and "tc_state cn = kConnecting"
  shows "lives S {} w w' \<and> evolves w w' \<and> (view_ok w c \<longrightarrow> view_ok w' c)
    \<and> (\<exists>cn'. conns w' c = Some cn' \<and> tc_state cn' = kConnected)"
  by (rule set_state_conn [where g = "tie c" and setter = enableReadEvent, OF assms(1,2)])
     (auto simp: enableReadEvent_def assms(3))

lemma disable_conn:
  assumes "in_conn c (\<lambda>x. let x = cx_setState kDisconnected x in
      disableAllEvent (cx_update os c x) (tc_channel (cx_conn x))) w = Inr w'"
    and "conns w c = Some cn"
  shows "lives S {} w w' \<and> evolves w w' \<and> (view_ok w c \<longrightarrow> view_ok w' c)
    \<and> (\<exists>cn'. conns w' c = Some cn' \<and> tc_state cn' = kDisconnected)"
  by (rule set_state_conn [where g = "\<lambda>ch. ch" and setter = disableAllEvent, OF assms(1,2)])
     (auto simp: disableAllEvent_def)

lemma lived_ready:
  assumes "lived {} l B w" and "ready l B w c"
  shows "phase_at c w \<noteq> Some Unborn"
proof -
  obtain p where "phase_at c w = Some p" "life_ok {} l B w c p" using assms(1) by (rule lived_phase)
  then show ?thesis using assms(2) by (auto simp: ready_def dest: life_okD)
qed

lemma connEstablish_lived:
  assumes app: "app_ok app" and run: "connEstablish os A app c w = Inr w'" and iv: "lived {c} l B w"
    and cn: "conns w c = Some cn" "tc_state cn = kConnecting" and v: "view_ok w c" and aw: "\<not> awaiting l B w c"
  shows "lived {} l B w'"
proof -
  obtain w1 where w1: "in_conn c (\<lambda>x. let x = cx_setState kConnected x in
      enableReadEvent (cx_update os c x) (tie c (tc_channel (cx_conn x)))) w = Inr w1"
    and call: "call_connection os A app c w1 = Inr w'"
    using run by (auto simp: connEstablish_def res_iff)
  note E = establish_conn [OF w1 cn, where S = "{}"]
  have st: "settled w w1" using E settled_evolves by blast
  have "lived {c} l B w1" using lived_lives [OF iv _ st, of "{}" "{}"] E by simp
  moreover obtain cn' where "conns w1 c = Some cn'" "tc_state cn' = kConnected" using E by blast
  moreover have "\<not> awaiting l B w1 c"
    using aw asks_queued(2) [of "{}" "{}" w w1 l B "FConnEstablish c"] E st by (auto simp: awaiting_def settled_def)
  ultimately show ?thesis using call_connection_up [OF app call] E v by blast
qed

lemma removeConnectionInLoop_lived:
  assumes run: "removeConnectionInLoop os c w = Inr w'" and s: "safe v opn l B H w" and iv: "lived {} l B w"
    and p: "phase_at c w = Some Down"
  shows "lived {} l B w'"
proof -
  obtain sv where sv: "server w = Some sv" "server_ok sv w" using safe_server [OF s] by blast
  then obtain cn where cn: "conns w c = Some cn"
    using run by (auto simp: removeConnectionInLoop_def with_server_def split: option.splits)
  let ?so = "Some (sv\<lparr>connections := AList.delete (tc_name cn) (connections sv)\<rparr>)"
  have w': "w' = net_push os (tc_loop cn) (FConnDestory c) (w\<lparr>server := ?so\<rparr>)"
    using run sv cn by (simp add: removeConnectionInLoop_def with_server_def)
  have 1: "lived {} l B (w\<lparr>server := ?so\<rparr>)"
    by (rule lived_delete [OF iv p]) (use in_table_delete [OF sv(2) cn] sv(1) in simp)
  have "phase_at c (w\<lparr>server := ?so\<rparr>) = Some Down" using p by (simp add: phase_at_def)
  then show ?thesis
    using lived_lives [OF 1 net_push_lives [of "{}" "{c}" "FConnDestory c" _ os "tc_loop cn"] settled_evolves [OF net_push_evolves]]
    by (simp add: w')
qed

lemma removeConnection_lived:
  assumes run: "removeConnection os c w = Inr w'" and s: "safe v opn l B H w" and iv: "lived {} l B w"
    and p: "phase_at c w = Some Down"
  shows "lived {} l B w'"
proof -
  obtain sv where sv: "server w = Some sv" using safe_server [OF s] by blast
  have "lived {} l B (net_push os (srv_loop sv) (FRemoveConnection c) w)"
    using lived_lives [OF iv net_push_lives [of "{}" "{c}" "FRemoveConnection c" _ os "srv_loop sv"] settled_evolves [OF net_push_evolves]] p
    by simp
  then show ?thesis
    using run sv removeConnectionInLoop_lived [OF _ s iv p]
    by (auto simp: removeConnection_def with_server_def runLoopCallback_def split: if_split_asm)
qed

lemma in_conn_lived:
  assumes run: "in_conn c f w = Inr w'" and iv: "lived {} l B w" and p: "phase_at c w \<noteq> Some Unborn"
    and li: "\<And>x x'. f x = Inr x' \<Longrightarrow> cx_lives {c} x x'" and gr: "\<And>x x'. f x = Inr x' \<Longrightarrow> cx_grows x x'"
  shows "lived {} l B w'"
proof -
  have "lives {c} {} w w'" by (rule in_conn_lives [OF run]) (rule li)
  then show ?thesis using lived_lives [OF iv _ settled_evolves [OF in_conn_evolves [OF run gr]]] p by auto
qed

text \<open>A connection that has been told down is not connected: \<open>connDestory\<close> does not tell it again.\<close>

lemma connDestory_lived:
  assumes run: "connDestory os A app c w = Inr w'" and iv: "lived {} l B w" and p: "phase_at c w = Some Down"
  shows "lived {} l B w'"
proof -
  obtain cn where cn: "conns w c = Some cn" using run by (auto simp: connDestory_def split: option.splits)
  have "life_ok {} l B w c Down" using lived_phase [OF iv, of c] p by auto
  then have "tc_state cn = kDisconnected" using life_okD(3) [OF _ cn] by blast
  then have "in_conn c (cx_remove os c) w = Inr w'" using run cn by (simp add: connDestory_def)
  then show ?thesis by (rule in_conn_lived [OF _ iv]) (use p cx_remove_lives cx_remove_grows in auto)
qed

lemma handleClose_told:
  assumes k: "kernel_ok os v opn" and app: "app_ok app" and s: "safe v opn l B H w" and r: "ready l B w c"
    and t: "own_thread w c" and iv: "lived {} l B w" and run: "handleClose os A app (closer os) c w = Inr w'"
  obtains w2 where "safe v opn l B H w2" and "lived {} l B w2" and "phase_at c w2 = Some Down"
    and "removeConnection os c w2 = Inr w'"
proof -
  obtain w1 w2 where w1: "in_conn c (\<lambda>x. let x = cx_setState kDisconnected x in
      disableAllEvent (cx_update os c x) (tc_channel (cx_conn x))) w = Inr w1"
    and w2: "call_connection os A app c w1 = Inr w2" and w': "removeConnection os c w2 = Inr w'"
    using run by (rule handleClose_parts)
  obtain cn where cn: "conns w c = Some cn" using ready_conn [OF r] by blast
  note D = disable_conn [OF w1 cn, where S = "{}"]
  have 1: "safe v opn l B H w1" "readies l B w w1" using sound_Inr [OF disable_sound [OF k s r] w1] by auto
  have "lived {} l B w1 \<and> (\<forall>c. phase_at c w1 = phase_at c w)"
    by (rule lived_lives [OF iv]) (use D settled_evolves in auto)
  moreover have "view_ok w1 c" using D safe_view [OF s t] by blast
  moreover obtain cn1 where "conns w1 c = Some cn1" "tc_state cn1 = kDisconnected" using D by blast
  ultimately have 2: "lived {} l B w2" "phase_at c w2 = Some Down"
    using call_connection_down [OF app w2] lived_ready [OF iv r] by metis+
  have "own_thread w1 c" using 1(2) t readiesD(3) by blast
  then have "safe v opn l B H w2" using sound_Inr [OF call_connection_sound [OF k app 1(1)] w2] by blast
  then show ?thesis by (rule that [OF _ 2 w'])
qed

lemma handleClose_lived:
  assumes "kernel_ok os v opn" and "app_ok app" and "safe v opn l B H w" and "ready l B w c"
    and "own_thread w c" and "lived {} l B w" and "handleClose os A app (closer os) c w = Inr w'"
  shows "lived {} l B w'"
  by (rule handleClose_told [OF assms]) (rule removeConnection_lived)

lemma input_lives:
  "conns w c = Some cn \<Longrightarrow> w1 = w\<lparr>kern := k, conns := (conns w)(c := Some (cn\<lparr>input_buffer := b\<rparr>))\<rparr> \<Longrightarrow> lives S D w w1"
  by (simp add: lives_def option.rel_refl)

lemma handleRead_ready:
  assumes k: "kernel_ok os v opn" and s: "safe v opn l B H w" and r: "ready l B w c"
    and t: "own_thread w c" and iv: "lived {} l B w" and run: "handleRead os A app (closer os) c time w = Inr w'"
  obtains cn k b w1 where "conns w c = Some cn" and "keeps_views v opn (kern w) k"
    and "w1 = w\<lparr>kern := k, conns := (conns w)(c := Some (cn\<lparr>input_buffer := b\<rparr>))\<rparr>" and "lived {} l B w1" and "ready l B w1 c" and "own_thread w1 c"
    and "safe v opn l B H w1"
    and "call_message os A app c time w1 = Inr w' \<or> handleClose os A app (closer os) c w1 = Inr w'
      \<or> in_conn c (\<lambda>x. Inr (handleError os x)) w1 = Inr w'"
proof -
  obtain cn where cn: "conns w c = Some cn" using ready_conn [OF r] by blast
  let ?b = "input_buffer cn" and ?fd = "ch_fd (tc_channel cn)"
  let ?w = "\<lambda>k1 b. w\<lparr>kern := k1, conns := (conns w)(c := Some (cn\<lparr>input_buffer := b\<rparr>))\<rparr>"
  obtain rr k1 where rk: "sys_readv os ?fd (buffer_iov ?b) (kern w) = (rr, k1)" by fastforce
  note kv = kernel_readv(1) [OF k rk] and len = kernel_readv(2) [OF k rk]
  have b: "front_inv ?b" using safe_conn [OF s cn] by (simp add: conn_ok_def)
  have iv1: "lived {} l B (?w k1 b)" for b using lived_lives [OF iv input_lives [OF cn refl, of "{}" "{}"]] by (simp add: settled_def)
  have S: "ready l B (?w k1 b) c \<and> own_thread (?w k1 b) c \<and> safe v opn l B H (?w k1 b)" if "front_inv b" for b
    using input_safe [OF s cn kv that] r t readiesD(2,3) by blast
  show ?thesis
  proof (cases rr)
    case (Inl e)
    then have "in_conn c (\<lambda>x. Inr (handleError os x)) (?w k1 ?b) = Inr w'"
      using run by (simp add: handleRead_def cn buffer_read_def rk)
    then show ?thesis using that [OF cn kv refl iv1] S [OF b] by blast
  next
    case (Inr d)
    obtain b1 where b1: "buffer_absorb A d ?b = Inr b1"
      and rest: "(if 0 < length d then call_message os A app c time (?w k1 b1)
         else handleClose os A app (closer os) c (?w k1 b1)) = Inr w'"
      using run by (cases "buffer_absorb A d ?b") (simp_all add: handleRead_def cn buffer_read_def rk Inr Let_def)
    have "sound front_inv (buffer_absorb A d ?b)" using buffer_absorb_sound [OF b, of d A] len [OF Inr] by blast
    then have "front_inv b1" using b1 by auto
    then show ?thesis using that [OF cn kv refl iv1] S rest by (metis (no_types))
  qed
qed

lemma handleRead_lived:
  assumes k: "kernel_ok os v opn" and app: "app_ok app" and s: "safe v opn l B H w" and r: "ready l B w c"
    and t: "own_thread w c" and iv: "lived {} l B w" and run: "handleRead os A app (closer os) c time w = Inr w'"
  shows "lived {} l B w'"
proof -
  obtain w1 where w1: "lived {} l B w1" "ready l B w1 c" "own_thread w1 c" "safe v opn l B H w1"
    and r: "call_message os A app c time w1 = Inr w' \<or> handleClose os A app (closer os) c w1 = Inr w'
      \<or> in_conn c (\<lambda>x. Inr (handleError os x)) w1 = Inr w'"
    by (rule handleRead_ready [OF k s r t iv run])
  note ph = lived_ready [OF w1(1,2)]
  have "lived {} l B w'" if "in_conn c (\<lambda>x. Inr (handleError os x)) w1 = Inr w'"
    by (rule in_conn_lived [OF that w1(1) ph]) (use life.error_steps handleError_grows in auto)
  then show ?thesis
    using r call_message_lived [OF app _ safe_view [OF w1(4,3)] w1(1) ph] handleClose_lived [OF k app w1(4,2,3,1)] by blast
qed

section \<open>New connections\<close>

lemma newConnection_lived:
  assumes app: "app_ok app" and s: "safe v opn l B H w" and iv: "lived {} l B w"
    and run: "newConnection os A app fd pa w = Inr w'"
  shows "lived {} l B w'"
proof -
  let ?c = "fresh_conn w"
  obtain sv sv1 io cn n k1 w1 where sv: "server w = Some sv" and nc: "new_conn ?c io fd cn" and io: "io < fresh_loop w"
      and w1: "w1 = w\<lparr>kern := k1, conns := (conns w)(?c := Some cn), fresh_conn := ?c + 1, server := Some sv1\<rparr>"
      and sv1: "connections sv1 = connections sv @ [(n, ?c)]"
      and rl: "newConnection os A app fd pa w = runLoopCallback (cur_tid w1) (loops w1 io)
        (\<lambda>_. connEstablish os A app ?c) (net_push os io) (FConnEstablish ?c) w1"
    by (rule newConnection_made [OF s, of os A app fd pa]) (use run in auto)
  obtain sv0 where "server_ok sv0 w" using safe_server [OF s] by blast
  then have none: "conns w ?c = None" by (rule server_okD(7)) simp
  have "lived {?c} l B w1"
  proof (rule lived_requeue)
    let ?w2 = "w\<lparr>conns := (conns w)(?c := Some cn), fresh_conn := ?c + 1, server := server w1\<rparr>"
    show "lived {?c} l B ?w2"
      by (rule lived_added [OF s iv refl none _ refl]) (use nc sv sv1 in \<open>auto simp: new_conn_def in_table_def w1\<close>)
    show "settled ?w2 w1" "trace w1 = trace ?w2" "conns w1 = conns ?w2" "queue_of l B w1 l' = queue_of l B ?w2 l'" for l'
      by (simp_all add: settled_def w1 queue_of_def)
  qed
  moreover have "conns w1 ?c = Some cn" "tc_state cn = kConnecting" "io < fresh_loop w1"
    using nc io by (simp_all add: w1 new_conn_def)
  moreover have "view_ok w1 ?c" using nc by (simp add: view_ok_def w1 new_conn_def front_inv_def)
  moreover have "\<not> awaiting l B w1 ?c"
    using queued_live(1) [OF s none] by (simp add: awaiting_def w1 queued_def queue_of_def)
  ultimately show ?thesis
    using run lived_push_establish [of ?c l B w1 io os] connEstablish_lived [OF app, of os A ?c w1]
    unfolding rl by (auto simp: runLoopCallback_def split: if_split_asm)
qed

lemma accept_lived:
  assumes k: "kernel_ok os v opn" and app: "app_ok app" and s: "safe v opn l B H w" and iv: "lived {} l B w"
    and run: "run_handler os A app time HAcceptRead w = Inr w'"
  shows "lived {} l B w'"
proof -
  obtain sv where sv: "server w = Some sv" "new_connection_callback (srv_acceptor sv)"
    using safeD(4) [OF s] by (auto simp: acceptor_ok_def)
  obtain r k1 where acc: "sys_accept4 os (accept_socket (srv_acceptor sv)) (kern w) = (r, k1)" by fastforce
  note W = accepted_safe(1) [OF k s acc]
  have L: "lived {} l B (w\<lparr>kern := k1\<rparr>)"
    by (rule lived_requeue [OF iv]) (simp_all add: settled_def queue_of_def)
  show ?thesis
  proof (cases r)
    case (Inl e)
    then show ?thesis
      using L run by (simp add: run_handler_def with_server_def sv acceptor_handleRead_def socket_accept_def acc Let_def)
  next
    case (Inr fa)
    then obtain fd pa where "newConnection os A app fd pa (w\<lparr>kern := k1\<rparr>) = Inr w'"
      using run sv by (cases fa) (auto simp: run_handler_def with_server_def acceptor_handleRead_def socket_accept_def
          acc Let_def split: if_split_asm)
    then show ?thesis by (rule newConnection_lived [OF app conjunct1 [OF W] L])
  qed
qed

section \<open>Waiting and listening\<close>

text \<open>What says nothing to the contract: the queues, the trace and the states stay as they are.\<close>

definition still :: "'k world \<Rightarrow> 'k world \<Rightarrow> bool" where
  "still w w' \<longleftrightarrow> lives {} {} w w' \<and> settled w w'"

lemma still_lived: "lived E l B w \<Longrightarrow> still w w' \<Longrightarrow> lived E l B w'"
  using lived_lives [of E l B w "{}" "{}" w'] by (simp add: still_def)

lemma settled_refl [simp]: "settled w w"
  by (simp add: settled_def)

lemma still_refl [simp]: "still w w"
  by (simp add: still_def)

lemma still_trans: "still a b \<Longrightarrow> still b c \<Longrightarrow> still a c"
  unfolding still_def settled_def by (auto intro: lives_trans)

lemma upd_loop_still: "(\<And>lp. pending (g lp) = pending lp) \<Longrightarrow> still w (upd_loop l g w)"
  by (simp add: still_def upd_loop_def lives_def option.rel_refl settled_def)

lemma set_revents_still:
  assumes "set_revents p ev w = Inr w'"
  shows "still w w'"
proof (cases p)
  case (WakeupCh l)
  then show ?thesis using assms by (auto simp: set_revents_def still_def lives_def settled_def option.rel_refl)
next
  case AcceptCh
  then show ?thesis
    using assms by (auto simp: set_revents_def with_server_def still_def lives_def settled_def option.rel_refl in_table_def
        split: option.splits)
next
  case (ConnCh c)
  then show ?thesis
    using assms by (auto simp: set_revents_def upd_conn_def still_def settled_def split: option.splits intro: conn_field_lives)
qed

lemma triggerChannels_still:
  "triggerChannels set_revents es active w = Inr (w', as) \<Longrightarrow> still w w'"
proof (induction es arbitrary: w active)
  case (Cons e es)
  then obtain w1 where "set_revents (snd e) (fst e) w = Inr w1"
      "triggerChannels set_revents es (active @ [snd e]) w1 = Inr (w', as)"
    by (cases e) (auto simp: res_iff)
  then show ?case using still_trans [OF set_revents_still Cons.IH] by blast
qed simp

lemma listen_still:
  assumes "server_listen os w = Inr w'"
  shows "still w w'"
proof -
  obtain sv k lp ac where sv: "server w = Some sv"
      and run: "acceptor_listen os (kern w, loops w (acc_loop (srv_acceptor sv)), srv_acceptor sv) = Inr (k, lp, ac)"
      and w': "w' = w\<lparr>kern := k, loops := (loops w)(acc_loop (srv_acceptor sv) := lp), server := Some (sv\<lparr>srv_acceptor := ac\<rparr>)\<rparr>"
    using assms by (auto simp: server_listen_def with_server_def res_iff Let_def split: option.splits)
  have "pending lp = pending (loops w (acc_loop (srv_acceptor sv)))"
    using run by (auto simp: acceptor_listen_def Let_def res_iff enableReadEvent_def loop_updateChannel_def split: option.splits)
  then show ?thesis by (simp add: w' sv still_def lives_def settled_def option.rel_refl in_table_def)
qed

lemma poll_phase_parts:
  assumes "poll_phase os l w = Inr w'"
  obtains po k po' es now w1 w2 as where "poller (loops w l) = Some po"
    and "poller_poll os kPollWaitTime (kern w, po) = Inr (k, po', es, now)"
    and "w1 = upd_loop l (\<lambda>lp. lp\<lparr>active_channels := [], poller := Some po'\<rparr>) (w\<lparr>kern := k\<rparr>)"
    and "triggerChannels set_revents es [] w1 = Inr (w2, as)"
    and "w' = upd_loop l (\<lambda>lp. lp\<lparr>active_channels := as, poll_return_time := now\<rparr>) w2"
proof -
  obtain po where po: "poller (loops w l) = Some po"
    using assms by (cases "poller (loops w l)") (simp_all add: poll_phase_def Let_def upd_loop_def)
  have run: "bind_res (poller_poll os kPollWaitTime (kern w, po)) (\<lambda>(k, po, events, now).
      bind_res (triggerChannels set_revents events []
        (upd_loop l (\<lambda>lp. lp\<lparr>active_channels := [], poller := Some po\<rparr>) (w\<lparr>kern := k\<rparr>)))
        (\<lambda>(w, active). Inr (upd_loop l (\<lambda>lp. lp\<lparr>active_channels := active, poll_return_time := now\<rparr>) w))) = Inr w'"
    using assms po unfolding poll_phase_def Let_def by (simp add: upd_loop_def)
  then obtain x where "poller_poll os kPollWaitTime (kern w, po) = Inr x" unfolding res_iff by blast
  moreover obtain k po' es now where "x = (k, po', es, now)" by (rule prod_cases4)
  ultimately have pp: "poller_poll os kPollWaitTime (kern w, po) = Inr (k, po', es, now)" by simp
  define w1 where "w1 = upd_loop l (\<lambda>lp. lp\<lparr>active_channels := [], poller := Some po'\<rparr>) (w\<lparr>kern := k\<rparr>)"
  obtain w2 as where w2: "triggerChannels set_revents es [] w1 = Inr (w2, as)"
      and w': "w' = upd_loop l (\<lambda>lp. lp\<lparr>active_channels := as, poll_return_time := now\<rparr>) w2"
    using run pp by (cases "triggerChannels set_revents es [] w1") (auto simp: w1_def)
  show ?thesis by (rule that [OF po pp w1_def w2 w'])
qed

lemma poll_phase_still:
  assumes "poll_phase os l w = Inr w'"
  shows "still w w'"
proof -
  obtain po k po' es now w1 w2 as
    where w1: "w1 = upd_loop l (\<lambda>lp. lp\<lparr>active_channels := [], poller := Some po'\<rparr>) (w\<lparr>kern := k\<rparr>)"
      and w2: "triggerChannels set_revents es [] w1 = Inr (w2, as)"
      and w': "w' = upd_loop l (\<lambda>lp. lp\<lparr>active_channels := as, poll_return_time := now\<rparr>) w2"
    using assms by (rule poll_phase_parts)
  have "still w w1" by (simp add: w1 upd_loop_def still_def lives_def option.rel_refl settled_def)
  moreover have "still w2 w'" unfolding w' by (rule upd_loop_still) simp
  ultimately show ?thesis using still_trans triggerChannels_still [OF w2] by metis
qed

text \<open>Only channels that are registered become active.\<close>

lemma triggerChannels_active:
  "triggerChannels f es active w = Inr (w', as) \<Longrightarrow> as = active @ map snd es"
  by (induction f es active w rule: triggerChannels.induct) (auto simp: res_iff)

lemma poll_phase_active:
  assumes k: "kernel_ok os v opn" and "poll_phase os l w = Inr w'" and "p \<in> set (active_channels (loops w' l))"
  shows "\<exists>fd m. seen v w l fd = Some (m, p)"
proof -
  obtain po ka po' es now w1 w2 as where po: "poller (loops w l) = Some po"
      and pp: "poller_poll os kPollWaitTime (kern w, po) = Inr (ka, po', es, now)"
      and w2: "triggerChannels set_revents es [] w1 = Inr (w2, as)"
      and w': "w' = upd_loop l (\<lambda>lp. lp\<lparr>active_channels := as, poll_return_time := now\<rparr>) w2"
    using assms(2) by (rule poll_phase_parts)
  obtain r k1 where wait: "sys_epoll_wait os (epollfd po) (events_size po) kPollWaitTime (kern w) = (r, k1)" by fastforce
  have rep: "\<forall>ds. r = Inr ds \<longrightarrow> length ds \<le> events_size po \<and> (\<forall>(ev, p) \<in> set ds. \<exists>fd m. v (kern w) (epollfd po) fd = Some (m, p))"
    using kernel_okD(2) [OF k] wait unfolding wait_reports_def by blast
  have "es = (case r of Inl _ \<Rightarrow> [] | Inr ds \<Rightarrow> ds)"
    using pp rep by (cases r) (auto simp: poller_poll_def wait split: prod.splits if_split_asm)
  moreover have "p \<in> snd ` set es" using assms(3) triggerChannels_active [OF w2] by (simp add: w' upd_loop_def)
  ultimately show ?thesis using rep po by (cases r) (fastforce simp: seen_def)+
qed

section \<open>Handlers\<close>

lemma run_handler_lived:
  assumes k: "kernel_ok os v opn" and app: "app_ok app" and s: "safe v opn l B H w" and iv: "lived {} l B w"
    and h: "h \<in> range HAwake \<or> h = HAcceptRead \<or> (\<exists>c. h \<in> conn_handlers c \<and> target_ok l B w (ConnCh c))"
    and run: "run_handler os A app time h w = Inr w'"
  shows "lived {} l B w'"
proof (cases h)
  case (HAwake l')
  then have w': "w' = on_loop l' (awake os) w" using run by (simp add: run_handler_def)
  have "lives {} {} w w'"
    unfolding w' by (rule on_loop_lives) (auto dest!: arg_cong [where f = snd])
  moreover have "settled w w'" unfolding w' by (rule settled_evolves [OF on_loop_evolves]) (rule awake_grows)
  ultimately show ?thesis using still_lived [OF iv] by (simp add: still_def)
next
  case HAcceptRead
  then show ?thesis using accept_lived [OF k app s iv] run by blast
next
  case (HConnRead c)
  then show ?thesis using handleRead_lived [OF k app s _ _ iv] h run by (auto simp: run_handler_def conn_handlers_def)
next
  case (HConnClose c)
  then show ?thesis using handleClose_lived [OF k app s _ _ iv] h run by (auto simp: run_handler_def conn_handlers_def)
next
  case (HConnWrite c)
  then have "in_conn c (handleWrite os c) w = Inr w'" "ready l B w c"
    using run h by (auto simp: run_handler_def conn_handlers_def)
  then show ?thesis
    using in_conn_lived [OF _ iv] lived_ready [OF iv] life.write_event_steps handleWrite_grows by blast
next
  case (HConnError c)
  then have "in_conn c (\<lambda>x. Inr (handleError os x)) w = Inr w'" "ready l B w c"
    using run h by (auto simp: run_handler_def conn_handlers_def)
  then show ?thesis
    by (rule in_conn_lived [OF _ iv lived_ready [OF iv]]) (use life.error_steps handleError_grows in auto)
qed

text \<open>
  The rules by which a predicate is carried through the handlers of a turn: it need only be kept by
  each handler, in a state that is well-formed.
\<close>

lemma handleEvent_rule:
  assumes k: "kernel_ok os v opn" and app: "app_ok app" and s: "safe v opn l B H w" and iv: "lived {} l B w"
    and ch: "handlers_in hs ch"
    and hs: "\<And>h. h \<in> hs \<Longrightarrow> h \<in> range HAwake \<or> h = HAcceptRead \<or> (\<exists>c. h \<in> conn_handlers c \<and> target_ok l B w (ConnCh c))"
    and run: "handleEvent alive (run_handler os A app time) ch w = Inr w'"
    and start: "Q w"
    and step: "\<And>h u u'. h \<in> hs \<Longrightarrow> safe v opn l B H u \<Longrightarrow> readies l B w u \<Longrightarrow> lived {} l B u \<Longrightarrow> Q u \<Longrightarrow>
      run_handler os A app time h u = Inr u' \<Longrightarrow> Q u'"
  shows "lived {} l B w' \<and> Q w'"
proof (cases "w' = w")
  case False
  have sub: "set (dispatch ch) \<subseteq> hs" using ch by (auto simp: set_dispatch handlers_in_def split: if_split_asm)
  have run: "fold_res (run_handler os A app time) (dispatch ch) w = Inr w'"
    using run False by (auto simp: handleEvent_def handleEventWithGuard_dispatch split: option.splits if_split_asm)
  have "safe v opn l B H w' \<and> readies l B w w' \<and> lived {} l B w' \<and> Q w'"
  proof (rule fold_res_invariant [OF run])
    fix h w1 w2 assume h: "h \<in> set (dispatch ch)" and r: "run_handler os A app time h w1 = Inr w2"
      and i: "safe v opn l B H w1 \<and> readies l B w w1 \<and> lived {} l B w1 \<and> Q w1"
    have t: "h \<in> range HAwake \<or> h = HAcceptRead \<or> (\<exists>c. h \<in> conn_handlers c \<and> target_ok l B w1 (ConnCh c))"
      using hs sub h target_readies i by blast
    have "safe v opn l B H w2 \<and> readies l B w1 w2"
      using sound_Inr [OF run_handler_sound [OF k app conjunct1 [OF i] t] r] .
    moreover have "Q w2" using step [OF _ _ _ _ _ r] sub h i by blast
    ultimately show "safe v opn l B H w2 \<and> readies l B w w2 \<and> lived {} l B w2 \<and> Q w2"
      using run_handler_lived [OF k app conjunct1 [OF i] _ t r] i readies_trans by blast
  qed (use s iv start in simp)
  then show ?thesis by blast
qed (use iv start in simp)

lemma handle_channel_rule:
  assumes k: "kernel_ok os v opn" and app: "app_ok app" and s: "safe v opn l B {} w" and iv: "lived {} l B w"
    and p: "target_ok l B w p" and wl: "\<And>l'. p = WakeupCh l' \<Longrightarrow> l' < fresh_loop w"
    and run: "handle_channel os A app time p w = Inr w'"
    and start: "Q w"
    and step: "\<And>h u u'. h \<in> range HAwake \<or> h = HAcceptRead \<or> (\<exists>d. p = ConnCh d \<and> h \<in> conn_handlers d \<and> target_ok l B u p) \<Longrightarrow>
      safe v opn l B {} u \<Longrightarrow> lived {} l B u \<Longrightarrow> Q u \<Longrightarrow> run_handler os A app time h u = Inr u' \<Longrightarrow> Q u'"
  shows "lived {} l B w' \<and> Q w'"
proof (cases p)
  case (WakeupCh l')
  then have ch: "handlers_in (range HAwake) (wakeup_channel (loops w l'))"
    using safeD(1) [OF s] wl by (simp add: slots_ok_def)
  show ?thesis
    by (rule handleEvent_rule [where Q = Q, OF k app s iv ch])
      (use run start step in \<open>auto simp: WakeupCh handle_channel_def Let_def\<close>)
next
  case AcceptCh
  obtain sv where sv: "server w = Some sv" "handlers_in {HAcceptRead} (accept_channel (srv_acceptor sv))"
    using safeD(4) [OF s] by (auto simp: acceptor_ok_def)
  show ?thesis
    by (rule handleEvent_rule [where Q = Q, OF k app s iv sv(2)])
      (use run start step sv in \<open>auto simp: AcceptCh handle_channel_def Let_def with_server_def\<close>)
next
  case (ConnCh c)
  then obtain cn where cn: "conns w c = Some cn" using p by (auto simp: ready_def)
  have h: "handlers_in (conn_handlers c) (tc_channel cn)" using safe_conn [OF s cn] by (simp add: conn_ok_def)
  have t: "handler \<in> conn_handlers c \<Longrightarrow> \<exists>c. handler \<in> conn_handlers c \<and> target_ok l B w (ConnCh c)" for handler
    using p ConnCh by blast
  obtain w1 where w1: "handleEvent (\<lambda>w c. conns w c \<noteq> None) (run_handler os A app time) (tc_channel cn) w = Inr w1"
      and w': "w' = release os c w1"
    using run cn by (auto simp: ConnCh handle_channel_def Let_def res_iff)
  have "safe v opn l B {} w1" using sound_Inr [OF handleEvent_sound [OF k app s h] w1] t by blast
  moreover have "lived {} l B w1 \<and> Q w1"
  proof (rule handleEvent_rule [where Q = Q, OF k app s iv h _ w1 start])
    fix hd u u' assume hd: "hd \<in> conn_handlers c" and u: "safe v opn l B {} u" "lived {} l B u" "Q u"
      and rd: "readies l B w u" and r: "run_handler os A app time hd u = Inr u'"
    have "target_ok l B u p" by (rule target_readies [OF rd p])
    then show "Q u'" using step [OF _ u r] hd ConnCh by blast
  qed (use t in blast)
  ultimately show ?thesis by (simp add: w' release_held)
qed

lemma handle_phase_rule:
  assumes k: "kernel_ok os v opn" and app: "app_ok app" and s: "safe v opn l B {} w" and iv: "lived {} l B w"
    and ps: "\<And>p. p \<in> set (active_channels (loops w l')) \<Longrightarrow> target_ok l B w p \<and> (\<forall>m. p = WakeupCh m \<longrightarrow> m < fresh_loop w)"
    and run: "handle_phase os A app l' w = Inr w'"
    and start: "Q w"
    and step: "\<And>h u u'. h \<in> range HAwake \<or> h = HAcceptRead
        \<or> (\<exists>d. ConnCh d \<in> set (active_channels (loops w l')) \<and> h \<in> conn_handlers d \<and> target_ok l B u (ConnCh d)) \<Longrightarrow>
      safe v opn l B {} u \<Longrightarrow> lived {} l B u \<Longrightarrow> Q u \<Longrightarrow>
      run_handler os A app (poll_return_time (loops w l')) h u = Inr u' \<Longrightarrow> Q u'"
  shows "lived {} l B w' \<and> Q w'"
proof -
  have "safe v opn l B {} w' \<and> readies l B w w' \<and> lived {} l B w' \<and> Q w'"
  proof (rule fold_res_invariant [OF run [unfolded handle_phase_def]])
    fix p w1 w2 assume p: "p \<in> set (active_channels (loops w l'))"
      and r: "handle_channel os A app (poll_return_time (loops w l')) p w1 = Inr w2"
      and i: "safe v opn l B {} w1 \<and> readies l B w w1 \<and> lived {} l B w1 \<and> Q w1"
    have t: "target_ok l B w1 p" "\<And>m. p = WakeupCh m \<Longrightarrow> m < fresh_loop w1"
      using ps [OF p] i target_readies readiesD(1) by (blast, metis)
    have "safe v opn l B {} w2 \<and> readies l B w1 w2"
      by (rule sound_Inr [OF handle_channel_sound [OF k app conjunct1 [OF i] t] r])
    moreover have "lived {} l B w2 \<and> Q w2"
      by (rule handle_channel_rule [where Q = Q, OF k app conjunct1 [OF i] _ t r]) (use i p step in blast)+
    ultimately show "safe v opn l B {} w2 \<and> readies l B w w2 \<and> lived {} l B w2 \<and> Q w2"
      using i readies_trans by blast
  qed (use s iv start in simp)
  then show ?thesis by blast
qed

section \<open>Functors\<close>

lemma queued_phase:
  assumes iv: "lived {} l B w" and cn: "conns w c \<noteq> None" and q: "queued l B w f" and f: "functor_holds f = Some c"
  shows "\<not> is_establish f \<Longrightarrow> phase_at c w \<noteq> Some Unborn"
    and "f = FConnDestory c \<or> f = FRemoveConnection c \<Longrightarrow> phase_at c w = Some Down"
proof -
  obtain p where p: "phase_at c w = Some p" "life_ok {} l B w c p" using iv by (rule lived_phase)
  obtain cn where "conns w c = Some cn" using cn by blast
  note ok = life_okD [OF p(2) this]
  show "\<not> is_establish f \<Longrightarrow> phase_at c w \<noteq> Some Unborn" using ok(6) [OF q f] p(1) by simp
  show "f = FConnDestory c \<or> f = FRemoveConnection c \<Longrightarrow> phase_at c w = Some Down"
    using ok(5) q p(1) by (auto simp: parting_def)
qed

lemma run_functor_lived:
  assumes k: "kernel_ok os v opn" and app: "app_ok app" and s: "safe v opn l (f # B) H w"
    and l: "l < fresh_loop w" and t: "isInLoopThread (cur_tid w) (loops w l)" and iv: "lived {} l (f # B) w"
    and run: "run_functor os A app f w = Inr w'"
  shows "lived {} l B w'"
proof -
  note ok = functor_at [OF s l]
  have own: "view_ok w c" if "live_at w l c" for c
    using that t safe_view [OF s, of c] by (auto simp: live_at_def own_thread_def)
  have d: "safe v opn l B H w" if "\<And>c. f \<noteq> FConnDestory c" using drop_functor [OF s l] that by blast
  have qf: "queued l (f # B) w f" using l by (simp add: queued_Cons)
  note q = queued_phase [OF iv _ qf]
  have iv': "lived {} l B w" if "\<And>c. f \<noteq> FConnEstablish c" using lived_drop [OF iv l] that by simp
  have live: "conns w c \<noteq> None" if "live_at w l c" for c using that by (auto simp: live_at_def)
  show ?thesis
  proof (cases f)
    case (FSendInLoop c a n)
    then show ?thesis using ok by simp
  next
    case (FShutdownInLoop c)
    then show ?thesis using ok by simp
  next
    case (FConnEstablish c)
    then obtain cn where cn: "conns w c = Some cn" using ok by (auto simp: live_at_def)
    have "tc_state cn = kConnecting"
      using safe_stage(1) [OF s cn] l FConnEstablish by (simp add: stage_ok_def awaiting_def queued_Cons)
    moreover have "\<not> awaiting l B w c" using establish_ready [OF s [unfolded FConnEstablish] l] by (simp add: ready_def)
    moreover have "lived {c} l B w" using lived_drop [OF iv l] by (simp add: FConnEstablish)
    ultimately show ?thesis
      using connEstablish_lived [OF app _ _ cn] own ok run by (simp add: FConnEstablish run_functor_def)
  next
    case (FConnDestory c)
    then show ?thesis
      using connDestory_lived [OF _ iv'] q(2) live ok run by (simp add: FConnDestory run_functor_def)
  next
    case (FWriteComplete cb c)
    have "acts_ok (Some c) (fresh_loop w) (input_len w c) (good_str w) (on_write_complete app cb w c)"
      using app own ok FWriteComplete by (simp add: app_ok_def own_ok_def)
    then show ?thesis
      using noted_lived [OF _ _ iv', of os A _ "CalledWriteComplete cb c"] q(1) live ok run
      by (simp add: FWriteComplete run_functor_def)
  next
    case (FHighWater cb c n)
    have "acts_ok (Some c) (fresh_loop w) (input_len w c) (good_str w) (on_high_water app cb w c n)"
      using app own ok FHighWater by (simp add: app_ok_def own_ok_def)
    then show ?thesis
      using noted_lived [OF _ _ iv', of os A _ "CalledHighWater cb c n"] q(1) live ok run
      by (simp add: FHighWater run_functor_def)
  next
    case FListen
    then have "still w w'" using run by (simp add: run_functor_def listen_still)
    then show ?thesis using still_lived [OF iv'] FListen by simp
  next
    case (FRemoveConnection c)
    then show ?thesis
      using removeConnectionInLoop_lived [OF _ d iv'] q(2) ok run by (simp add: run_functor_def)
  next
    case (FUser u)
    have "acts_ok None (fresh_loop w) 0 (good_str w) (on_user app u w)" using app by (simp add: app_ok_def)
    moreover have "run_actions os A (on_user app u w) (note_call (CalledUser u) w) = Inr w'"
      using run by (simp add: FUser run_functor_def)
    ultimately show ?thesis by (intro noted_lived [where me = None and ob = "CalledUser u", OF _ _ iv']) (simp_all add: FUser)
  qed
qed

lemma release_lived:
  assumes s: "safe v opn l [] H w" and iv: "lived {} l [] w"
  shows "lived {} l [] (release os c w)"
proof (cases "conns w c = None \<or> referenced c w")
  case True
  then have "release os c w = w" by (auto simp: release_def split: option.splits)
  then show ?thesis using iv by simp
next
  case False
  then obtain cn where cn: "conns w c = Some cn" and nr: "\<not> referenced c w" by auto
  obtain sv where "server_ok sv w" using safe_server [OF s] by blast
  then have "c < fresh_conn w" using server_okD(7) [of sv w c] cn by (cases "c < fresh_conn w") simp_all
  then show ?thesis
    using lived_destroyed [OF iv cn] nr by (simp add: release_def cn referenced_def)
qed

lemma release_functors_lived:
  assumes k: "kernel_ok os v opn" and "safe v opn l [] H w" and "lived {} l [] w"
  shows "lived {} l [] (release_functors os fs w)"
proof -
  have "lived {} l [] (fold (release os) cs w)" if "safe v opn l [] H w" "lived {} l [] w" for cs H w
    using that
  proof (induction cs arbitrary: H w)
    case (Cons c cs)
    show ?case
      using Cons.IH [OF release_safe [OF k Cons.prems(1)] release_lived [OF Cons.prems]] by simp
  qed simp
  then show ?thesis using assms(2,3) by (simp add: release_functors_def)
qed

lemma fold_res_remaining:
  assumes "fold_res f xs s = Inr s'" and "I xs s" and "\<And>x xs s s'. I (x # xs) s \<Longrightarrow> f x s = Inr s' \<Longrightarrow> I xs s'"
  shows "I [] s'"
  using assms(1,2)
proof (induction xs arbitrary: s)
  case (Cons x xs)
  then obtain s1 where "f x s = Inr s1" "fold_res f xs s1 = Inr s'" by (auto simp: res_iff)
  then show ?case using Cons.IH assms(3) Cons.prems(2) by blast
qed simp

text \<open>The same for the functors: the predicate may speak of those that are still to run.\<close>

lemma run_pending_rule:
  assumes k: "kernel_ok os v opn" and app: "app_ok app" and s: "safe v opn l [] {} w"
    and l: "l < fresh_loop w" and t: "isInLoopThread (cur_tid w) (loops w l)" and iv: "lived {} l [] w"
    and run: "run_pending os A app l w = Inr w'"
    and start: "Q (pending (loops w l)) (upd_loop l (\<lambda>lp. lp\<lparr>pending := []\<rparr>) (upd_loop l (\<lambda>lp. lp\<lparr>calling_pending := True\<rparr>) w))"
    and step: "\<And>f B H u u'. safe v opn l (f # B) H u \<Longrightarrow> lived {} l (f # B) u \<Longrightarrow> l < fresh_loop u \<Longrightarrow>
      isInLoopThread (cur_tid u) (loops u l) \<Longrightarrow> Q (f # B) u \<Longrightarrow> run_functor os A app f u = Inr u' \<Longrightarrow> Q B u'"
  obtains u H where "Q [] u" and "lived {} l [] u" and "safe v opn l [] H (upd_loop l (\<lambda>lp. lp\<lparr>calling_pending := False\<rparr>) u)"
    and "w' = release_functors os (pending (loops w l)) (upd_loop l (\<lambda>lp. lp\<lparr>calling_pending := False\<rparr>) u)"
    and "lived {} l [] w'"
proof -
  define fs where "fs = pending (loops w l)"
  define H where "H = set (List.map_filter functor_holds fs)"
  define w1 where "w1 = upd_loop l (\<lambda>lp. lp\<lparr>pending := []\<rparr>) (upd_loop l (\<lambda>lp. lp\<lparr>calling_pending := True\<rparr>) w)"
  have pe: "pending (loops (upd_loop l (\<lambda>lp. lp\<lparr>calling_pending := True\<rparr>) w) l) = fs"
    by (simp add: upd_loop_def fs_def)
  obtain w2 where w2: "fold_res (run_functor os A app) fs w1 = Inr w2"
      and w': "w' = release_functors os fs (upd_loop l (\<lambda>lp. lp\<lparr>calling_pending := False\<rparr>) w2)"
    using run by (auto simp: run_pending_def executePendingFunctors_def Let_def pe bind_res_assoc w1_def fs_def res_iff)
  let ?I = "\<lambda>B w'. safe v opn l B H w' \<and> fresh_loop w' = fresh_loop w \<and> isInLoopThread (cur_tid w') (loops w' l)
      \<and> lived {} l B w' \<and> Q B w'"
  have "lived {} l fs w1"
    by (rule lived_requeue [OF iv]) (simp_all add: w1_def upd_loop_def settled_def queue_of_def fs_def)
  moreover have "Q fs w1" using start by (simp add: fs_def w1_def)
  ultimately have first: "?I fs w1"
    using vector_safe [OF s fs_def w1_def] t by (simp add: H_def w1_def upd_loop_def isInLoopThread_def)
  have I: "?I [] w2"
  proof (rule fold_res_remaining [where I = ?I, OF w2 first])
    fix f B u u' assume i: "?I (f # B) u" and r: "run_functor os A app f u = Inr u'"
    then have l': "l < fresh_loop u" and i': "safe v opn l (f # B) H u" "isInLoopThread (cur_tid u) (loops u l)" "lived {} l (f # B) u"
      using l by auto
    have "isInLoopThread (cur_tid u') (loops u' l)"
      using run_functor_grows [OF r] i' by (simp add: loops_grow_def loop_grows_def isInLoopThread_def)
    moreover have "Q B u'" using step [OF i'(1,3) l' i'(2) _ r] i by blast
    ultimately show "?I B u'"
      using sound_Inr [OF run_functor_sound [OF k app i'(1) l' i'(2)] r] run_functor_lived [OF k app i'(1) l' i'(2,3) r] i
      by simp
  qed
  have st: "still w2 (upd_loop l (\<lambda>lp. lp\<lparr>calling_pending := False\<rparr>) w2)" by (rule upd_loop_still) simp
  have "inert v opn w2 (upd_loop l (\<lambda>lp. lp\<lparr>calling_pending := False\<rparr>) w2)"
    by (auto simp: inert_def upd_loop_def epfd_def chans_def seen_def fun_eq_iff option.rel_refl cong: option.case_cong)
  then have s2: "safe v opn l [] H (upd_loop l (\<lambda>lp. lp\<lparr>calling_pending := False\<rparr>) w2)"
      and "lived {} l [] (upd_loop l (\<lambda>lp. lp\<lparr>calling_pending := False\<rparr>) w2)"
    using inert_safe [of v opn l "[]" H w2] still_lived [OF _ st] I by (auto simp: same_queues_def upd_loop_def)
  then have "lived {} l [] w'" unfolding w' by (rule release_functors_lived [OF k])
  then show ?thesis using that [of w2] I s2 w' by (simp add: fs_def)
qed

section \<open>Turns\<close>

lemma lived_no_vector: "lived {} l [] w \<longleftrightarrow> lived {} m [] w"
proof -
  have "lived {} m [] w" if "lived {} l [] w" for l m
    by (rule lived_requeue [OF that]) (simp_all add: queue_of_def settled_def)
  then show ?thesis by blast
qed

lemma turn_parts:
  assumes k: "kernel_ok os v opn" and app: "app_ok app" and s: "healthy v opn w" and l: "l < fresh_loop w"
    and iv: "lived {} l [] w" and run: "loop_turn os A app l w = Inr w'"
  obtains w1 w2 where "poll_phase os l (w\<lparr>cur_tid := thread_id (loops w l)\<rparr>) = Inr w1"
    and "safe v opn l [] {} w1" and "lived {} l [] w1"
    and "\<forall>p \<in> set (active_channels (loops w1 l)). target_ok l [] w1 p \<and> (\<forall>m. p = WakeupCh m \<longrightarrow> m < fresh_loop w1)"
    and "handle_phase os A app l w1 = Inr w2" and "safe v opn l [] {} w2" and "lived {} l [] w2"
    and "l < fresh_loop w2" and "isInLoopThread (cur_tid w2) (loops w2 l)" and "run_pending os A app l w2 = Inr w'"
proof -
  let ?w = "w\<lparr>cur_tid := thread_id (loops w l)\<rparr>"
  have i: "inert v opn w ?w"
    by (simp add: inert_def epfd_def chans_def seen_def fun_eq_iff option.rel_refl cong: option.case_cong)
  have s0: "safe v opn l [] {} ?w"
    by (rule inert_safe [OF healthy_safe [OF s] i]) (simp add: same_queues_def)
  have iv0: "lived {} l [] ?w" by (rule lived_requeue [OF iv]) (simp_all add: settled_def queue_of_def)
  obtain w1 w2 where w1: "poll_phase os l ?w = Inr w1" and w2: "handle_phase os A app l w1 = Inr w2"
      and w': "run_pending os A app l w2 = Inr w'"
    using run by (auto simp: loop_turn_def res_iff)
  have 1: "safe v opn l [] {} w1 \<and> readies l [] ?w w1
      \<and> (\<forall>p \<in> set (active_channels (loops w1 l)). target_ok l [] w1 p \<and> (\<forall>m. p = WakeupCh m \<longrightarrow> m < fresh_loop w1))"
    by (rule sound_Inr [OF poll_phase_sound [OF k s0] w1]) (use l in simp_all)
  have iv1: "lived {} l [] w1" by (rule still_lived [OF iv0 poll_phase_still [OF w1]])
  have tg: "\<And>p. p \<in> set (active_channels (loops w1 l)) \<Longrightarrow> target_ok l [] w1 p \<and> (\<forall>m. p = WakeupCh m \<longrightarrow> m < fresh_loop w1)"
    using 1 by blast
  have 2: "safe v opn l [] {} w2 \<and> readies l [] w1 w2"
    by (rule sound_Inr [OF handle_phase_sound [OF k app conjunct1 [OF 1] tg] w2])
  have "lived {} l [] w2 \<and> True"
    by (rule handle_phase_rule [where Q = "\<lambda>_. True", OF k app conjunct1 [OF 1] iv1 tg w2]) simp_all
  moreover have "isInLoopThread (cur_tid w2) (loops w2 l)"
    using poll_phase_grows [OF w1] handle_phase_grows [OF w2] by (simp add: loops_grow_def loop_grows_def isInLoopThread_def)
  moreover have "l < fresh_loop w2" using l 1 2 by (simp add: readies_def)
  ultimately show ?thesis using that [OF w1 conjunct1 [OF 1] iv1 _ w2 conjunct1 [OF 2]] tg w' by blast
qed

lemma loop_turn_lived:
  assumes k: "kernel_ok os v opn" and app: "app_ok app" and s: "healthy v opn w" and l: "l < fresh_loop w"
    and iv: "lived {} l [] w" and run: "loop_turn os A app l w = Inr w'"
  shows "lived {} l [] w'"
proof -
  obtain w1 w2 where w2: "safe v opn l [] {} w2" "l < fresh_loop w2" "isInLoopThread (cur_tid w2) (loops w2 l)"
      "lived {} l [] w2" "run_pending os A app l w2 = Inr w'"
    by (rule turn_parts [OF assms])
  show ?thesis by (rule run_pending_rule [where Q = "\<lambda>_ _. True", OF k app w2]) simp_all
qed

end
