(* ===== verification/Reclaim.thy ===== *)
theory Reclaim
  imports LifeTurn
begin

text \<open>
  A connection that is closed is destroyed. \<open>retired\<close> is a connection that is out of the table for
  good; \<open>dead\<close> one whose \<open>connDestory\<close> has run as well: no loop hears of it, nothing it is asked for
  has an effect, and only functors queued before hold it. \<open>rests\<close> says of a step that it keeps a dead
  connection dead and which functors it may queue that hold it.
\<close>

section \<open>Out of the table\<close>

definition retired :: "nat \<Rightarrow> 'k world \<Rightarrow> bool" where
  "retired c w \<longleftrightarrow> c < fresh_conn w \<and> \<not> in_table c (server w)"

definition retires :: "nat \<Rightarrow> 'k world \<Rightarrow> 'k world \<Rightarrow> bool" where
  "retires c w w' \<longleftrightarrow> (c < fresh_conn w \<longrightarrow> c < fresh_conn w') \<and> (retired c w \<longrightarrow> retired c w')"

lemma retires_refl [simp]: "retires c w w"
  by (simp add: retires_def)

lemma retires_trans: "retires c u v \<Longrightarrow> retires c v w \<Longrightarrow> retires c u w"
  by (simp add: retires_def)

lemma settled_retires: "settled w w' \<Longrightarrow> retires c w w'"
  by (simp add: settled_def retires_def retired_def)

lemma evolves_retires: "evolves w w' \<Longrightarrow> retires c w w'"
  by (rule settled_retires [OF settled_evolves])

lemma in_table_shrinks:
  "in_table c (Some (sv\<lparr>connections := AList.delete n (connections sv)\<rparr>)) \<Longrightarrow> in_table c (Some sv)"
  by (auto simp: in_table_def list_ex_iff AList.delete_eq)

lemma removeConnectionInLoop_retires:
  assumes "removeConnectionInLoop os d w = Inr w'"
  shows "retires c w w'"
proof -
  obtain sv cn where sv: "server w = Some sv" and cn: "conns w d = Some cn"
    using assms by (auto simp: removeConnectionInLoop_def with_server_def split: option.splits)
  have w': "w' = net_push os (tc_loop cn) (FConnDestory d)
        (w\<lparr>server := Some (sv\<lparr>connections := AList.delete (tc_name cn) (connections sv)\<rparr>)\<rparr>)"
    using assms sv cn by (simp add: removeConnectionInLoop_def with_server_def)
  let ?w = "w\<lparr>server := Some (sv\<lparr>connections := AList.delete (tc_name cn) (connections sv)\<rparr>)\<rparr>"
  have "retires c w ?w" using in_table_shrinks [of c "tc_name cn" sv] by (auto simp: retires_def retired_def sv)
  then show ?thesis unfolding w' by (rule retires_trans) (rule evolves_retires [OF net_push_evolves])
qed

lemma removeConnection_cases:
  assumes "removeConnection os d w = Inr w'"
  shows "removeConnectionInLoop os d w = Inr w' \<or> (\<exists>l. w' = net_push os l (FRemoveConnection d) w)"
  using assms by (auto simp: removeConnection_def with_server_def runLoopCallback_def split: option.splits if_split_asm)

lemma removeConnection_retires: "removeConnection os d w = Inr w' \<Longrightarrow> retires c w w'"
  using removeConnection_cases [of os d w w'] removeConnectionInLoop_retires evolves_retires [OF net_push_evolves] by blast

lemma handleClose_retires:
  assumes "handleClose os A app (closer os) d w = Inr w'"
  shows "retires c w w'"
proof -
  obtain w1 w2 where "in_conn d (\<lambda>x. let x = cx_setState kDisconnected x in
      disableAllEvent (cx_update os d x) (tc_channel (cx_conn x))) w = Inr w1"
    and "call_connection os A app d w1 = Inr w2" and "removeConnection os d w2 = Inr w'"
    using assms by (rule handleClose_parts)
  then have "retires c w w1" "retires c w1 w2" "retires c w2 w'"
    by (auto intro: evolves_retires disable_evolves call_connection_evolves removeConnection_retires)
  then show ?thesis using retires_trans by blast
qed

lemma input_settled:
  "w1 = w\<lparr>kern := k, conns := (conns w)(d := Some (cn\<lparr>input_buffer := b\<rparr>))\<rparr> \<Longrightarrow> settled w w1"
  by (simp add: settled_def)

lemma handleRead_retires:
  assumes "handleRead os A app (closer os) d t w = Inr w'"
  shows "retires c w w'"
proof -
  obtain cn k b w1 where w1: "w1 = w\<lparr>kern := k, conns := (conns w)(d := Some (cn\<lparr>input_buffer := b\<rparr>))\<rparr>"
    and "call_message os A app d t w1 = Inr w' \<or> handleClose os A app (closer os) d w1 = Inr w'
      \<or> in_conn d (\<lambda>x. Inr (handleError os x)) w1 = Inr w'"
    using assms by (rule handleRead_parts)
  then have "retires c w1 w'"
    by (auto intro: evolves_retires call_message_evolves handleError_evolves handleClose_retires)
  then show ?thesis using retires_trans settled_retires [OF input_settled [OF w1]] by blast
qed

lemma newConnection_parts:
  assumes run: "newConnection os A app fd pa w = Inr w'" and s: "safe v opn l B H w"
  obtains k cn so io w1 where "w1 = w\<lparr>kern := k, conns := (conns w)(fresh_conn w := Some cn), fresh_conn := fresh_conn w + 1, server := so\<rparr>"
    and "\<forall>d. in_table d so \<longleftrightarrow> in_table d (server w) \<or> d = fresh_conn w"
    and "connEstablish os A app (fresh_conn w) w1 = Inr w' \<or> w' = net_push os io (FConnEstablish (fresh_conn w)) w1"
proof -
  obtain sv sv1 io cn n k1 w1 where "server w = Some sv" "connections sv1 = connections sv @ [(n, fresh_conn w)]"
      and w1: "w1 = w\<lparr>kern := k1, conns := (conns w)(fresh_conn w := Some cn), fresh_conn := fresh_conn w + 1, server := Some sv1\<rparr>"
      and "newConnection os A app fd pa w = runLoopCallback (cur_tid w1) (loops w1 io)
        (\<lambda>_. connEstablish os A app (fresh_conn w)) (net_push os io) (FConnEstablish (fresh_conn w)) w1"
    by (rule newConnection_made [OF s, of os A app fd pa]) (use run in auto)
  then show ?thesis
    using run by (intro that [OF w1]) (auto simp: in_table_def runLoopCallback_def split: if_split_asm)
qed

lemma newConnection_retires:
  assumes "newConnection os A app fd pa w = Inr w'" and s: "safe v opn l B H w"
  shows "retires c w w'"
proof -
  obtain k cn so io w1 where w1: "w1 = w\<lparr>kern := k, conns := (conns w)(fresh_conn w := Some cn), fresh_conn := fresh_conn w + 1, server := so\<rparr>"
    and t: "\<forall>d. in_table d so \<longleftrightarrow> in_table d (server w) \<or> d = fresh_conn w"
    and r: "connEstablish os A app (fresh_conn w) w1 = Inr w' \<or> w' = net_push os io (FConnEstablish (fresh_conn w)) w1"
    using assms by (rule newConnection_parts)
  have "retires c w w1" using t by (auto simp: w1 retires_def retired_def)
  moreover have "retires c w1 w'" using r by (auto intro: evolves_retires connEstablish_evolves net_push_evolves)
  ultimately show ?thesis by (rule retires_trans)
qed

text \<open>What an accept does.\<close>

lemma accept_steps:
  assumes "run_handler os A app time HAcceptRead w = Inr w'" and s: "safe v opn l B H w" and k: "kernel_ok os v opn"
  obtains k1 where "safe v opn l B H (w\<lparr>kern := k1\<rparr>)" and "v k1 = v (kern w)"
    and "w' = w\<lparr>kern := k1\<rparr> \<or> (\<exists>fd pa. spare_fd opn (w\<lparr>kern := k1\<rparr>) fd \<and> newConnection os A app fd pa (w\<lparr>kern := k1\<rparr>) = Inr w')"
proof -
  obtain sv where sv: "server w = Some sv" "new_connection_callback (srv_acceptor sv)"
    using safeD(4) [OF s] by (auto simp: acceptor_ok_def)
  obtain r k1 where acc: "sys_accept4 os (accept_socket (srv_acceptor sv)) (kern w) = (r, k1)" by fastforce
  note W = accepted_safe [OF k s acc]
  have "w' = w\<lparr>kern := k1\<rparr> \<or> (\<exists>fd pa. spare_fd opn (w\<lparr>kern := k1\<rparr>) fd \<and> newConnection os A app fd pa (w\<lparr>kern := k1\<rparr>) = Inr w')"
    using assms(1) sv W(3)
    by (cases r) (auto simp: run_handler_def with_server_def acceptor_handleRead_def socket_accept_def acc Let_def
        split: if_split_asm)
  then show ?thesis using that W(1,2) by blast
qed

lemma accept_parts:
  assumes "run_handler os A app time HAcceptRead w = Inr w'" and s: "safe v opn l B H w" and k: "kernel_ok os v opn"
  obtains k1 where "safe v opn l B H (w\<lparr>kern := k1\<rparr>)"
    and "w' = w\<lparr>kern := k1\<rparr> \<or> (\<exists>fd pa. newConnection os A app fd pa (w\<lparr>kern := k1\<rparr>) = Inr w')"
proof -
  obtain k1 where "safe v opn l B H (w\<lparr>kern := k1\<rparr>)"
    and "w' = w\<lparr>kern := k1\<rparr> \<or> (\<exists>fd pa. spare_fd opn (w\<lparr>kern := k1\<rparr>) fd \<and> newConnection os A app fd pa (w\<lparr>kern := k1\<rparr>) = Inr w')"
    by (rule accept_steps [OF assms])
  then show ?thesis using that by blast
qed

lemma run_handler_retires:
  assumes k: "kernel_ok os v opn" and s: "safe v opn l B H w" and run: "run_handler os A app time h w = Inr w'"
  shows "retires c w w'"
proof (cases h)
  case (HAwake l')
  then have w': "w' = on_loop l' (awake os) w" using run by (simp add: run_handler_def)
  show ?thesis unfolding w' by (rule evolves_retires [OF on_loop_evolves]) (rule awake_grows)
next
  case HAcceptRead
  then obtain k1 where "safe v opn l B H (w\<lparr>kern := k1\<rparr>)"
    "w' = w\<lparr>kern := k1\<rparr> \<or> (\<exists>fd pa. newConnection os A app fd pa (w\<lparr>kern := k1\<rparr>) = Inr w')"
    using accept_parts [OF _ s k] run by blast
  moreover have "retires c w (w\<lparr>kern := k1\<rparr>)" by (simp add: retires_def retired_def)
  ultimately show ?thesis using newConnection_retires retires_trans by blast
qed (use run in \<open>auto simp: run_handler_def intro: handleRead_retires handleClose_retires evolves_retires
      handleWrite_evolves handleError_evolves\<close>)

lemma run_functor_retires:
  assumes run: "run_functor os A app f w = Inr w'"
  shows "retires c w w'"
proof (cases f)
  case FListen
  then have "still w w'" using run by (simp add: run_functor_def listen_still)
  then show ?thesis by (simp add: still_def settled_retires)
next
  case (FRemoveConnection d)
  then show ?thesis using run removeConnectionInLoop_retires by (simp add: run_functor_def)
qed (use run in \<open>auto simp: run_functor_def intro: evolves_retires connEstablish_evolves connDestory_evolves
      noted_actions_evolve run_conn_functor_evolves\<close>)

lemma release_retires: "retires c w (release os d w)"
  by (simp add: release_def TcpConnection_destroy_def retires_def retired_def split: option.split)

lemma release_functors_retires: "retires c w (release_functors os fs w)"
proof -
  have "retires c w (fold (release os) cs w)" for cs w
    by (induction cs arbitrary: w) (auto intro: retires_trans release_retires)
  then show ?thesis by (simp add: release_functors_def)
qed

section \<open>Dead connections\<close>

definition idle :: "nat \<Rightarrow> ('k, 'z) net_scheme \<Rightarrow> bool" where
  "idle c w \<longleftrightarrow> (\<forall>cn. conns w c = Some cn \<longrightarrow> tc_state cn = kDisconnected \<and> ch_state (tc_channel cn) = kChannelInitialized)"

definition dead :: "nat \<Rightarrow> 'k world \<Rightarrow> bool" where
  "dead c w \<longleftrightarrow> retired c w \<and> idle c w"

definition rests :: "(Functor \<Rightarrow> bool) \<Rightarrow> nat \<Rightarrow> 'k world \<Rightarrow> 'k world \<Rightarrow> bool" where
  "rests P c w w' \<longleftrightarrow> (dead c w \<longrightarrow> dead c w'
     \<and> (\<forall>l. adds (\<lambda>f. functor_holds f = Some c \<longrightarrow> P f) (pending (loops w l)) (pending (loops w' l))))"

lemma rests_refl [simp]: "rests P c w w"
  by (simp add: rests_def)

lemma rests_trans: "rests P c u v \<Longrightarrow> rests P c v w \<Longrightarrow> rests P c u w"
  by (auto simp: rests_def intro: adds_trans)

lemma rests_mono: "rests P c w w' \<Longrightarrow> (\<And>f. P f \<Longrightarrow> Q f) \<Longrightarrow> rests Q c w w'"
  unfolding rests_def by (blast intro: adds_mono)

lemma lives_rests:
  assumes "lives S D w w'" and "retires c w w'" and "idle c w \<Longrightarrow> idle c w'" and "c \<notin> S \<union> D"
  shows "rests P c w w'"
proof -
  have "functor_holds f = Some c \<longrightarrow> P f" if "asks S D f" for f using asks_holds [OF that] assms(4) by blast
  then have "adds (\<lambda>f. functor_holds f = Some c \<longrightarrow> P f) (pending (loops w l)) (pending (loops w' l))" for l
    using assms(1) unfolding lives_def by (blast intro: adds_mono)
  then show ?thesis using assms(2,3) by (auto simp: rests_def dead_def retires_def)
qed

lemma still_rests: "still w w' \<Longrightarrow> (idle c w \<Longrightarrow> idle c w') \<Longrightarrow> rests P c w w'"
  by (rule lives_rests [of "{}" "{}"]) (auto simp: still_def settled_retires)

text \<open>Other connections.\<close>

lemma in_conn_other:
  assumes "in_conn d f w = Inr w'" and "d \<noteq> c"
  shows "conns w' c = conns w c \<and> settled w w'"
  using assms by (auto simp: in_conn_def settled_def res_iff split: option.splits)

lemma in_conn_rests:
  assumes "in_conn d f w = Inr w'" and "d \<noteq> c" and "\<And>x x'. f x = Inr x' \<Longrightarrow> conns w d = Some (cx_conn x) \<Longrightarrow> cx_lives {d} x x'"
  shows "rests P c w w'"
proof (rule lives_rests)
  show "lives {d} {} w w'" by (rule in_conn_lives [OF assms(1)]) (rule assms(3))
qed (use in_conn_other [OF assms(1,2)] assms(2) settled_retires in \<open>auto simp: idle_def\<close>)

lemma net_push_rests:
  assumes "functor_holds f \<noteq> Some c \<or> P f"
  shows "rests P c w (net_push os l f w)"
proof -
  have "retires c w (net_push os l f w)" by (rule evolves_retires [OF net_push_evolves])
  moreover have "conns (net_push os l f w) = conns w" by (simp add: net_push_def on_loop_simps)
  ultimately show ?thesis using assms by (auto simp: rests_def dead_def idle_def retires_def net_push_queue)
qed

lemma conn_field_rests:
  assumes "conns w d = Some dn" and "d \<noteq> c \<or> tc_state dn' = tc_state dn \<and> tc_channel dn' = tc_channel dn"
  shows "rests P c w (w\<lparr>conns := (conns w)(d \<mapsto> dn')\<rparr>)"
  using assms by (auto simp: rests_def dead_def retired_def idle_def)

interpretation rest: net_steps "\<lambda>d. cx_lives {d}" "rests P c" os "\<lambda>d. d \<noteq> c" for P c os
proof
  show "rests P c w w'" if "in_conn d f w = Inr w'" "d \<noteq> c" "\<And>x x'. f x = Inr x' \<Longrightarrow> cx_lives {d} x x'"
    for d f and w w' :: "'a world"
    by (rule in_conn_rests [OF that(1,2)]) (rule that(3))
  show "rests P c w (on_loop l (loop_quit os t) w)" for l t and w :: "'a world"
  proof (rule lives_rests [of "{}" "{}"])
    show "lives {} {} w (on_loop l (loop_quit os t) w)"
      by (rule on_loop_lives) (auto dest!: arg_cong [where f = snd] simp: loop_quit_loop)
    show "retires c w (on_loop l (loop_quit os t) w)"
      by (rule evolves_retires [OF on_loop_evolves]) (rule loop_quit_grows)
  qed (auto simp: idle_def on_loop_simps)
  show "rests P c u w" if "rests P c u v" "rests P c v w" for u v w :: "'a world" by (rule rests_trans [OF that])
  show "rests P c w (w\<lparr>strs := ss\<rparr>)" for ss and w :: "'a world"
    by (simp add: rests_def dead_def retired_def idle_def)
  show "rests P c w (w\<lparr>conns := (conns w)(d \<mapsto> cn\<lparr>tc_state := kDisconnecting\<rparr>)\<rparr>)"
    if "conns w d = Some cn" "tc_state cn = kConnected" for d cn and w :: "'a world"
    using that by (auto simp: rests_def dead_def retired_def idle_def)
qed (auto simp: setHighWaterCallback_def life.cx_steps_axioms intro: conn_field_rests net_push_rests)

text \<open>Whatever user code does, for whichever connection it is called: a dead one is deaf.\<close>

lemma perform_rests:
  assumes "perform os A a w = Inr w'"
  shows "rests P c w w'"
proof (cases "act_conn a = Some c \<and> dead c w")
  case True
  then have "w' = w"
    using assms by (cases a) (auto simp: dead_def idle_def tcp_send_def tcp_shutdown_def split: option.splits if_split_asm)
  then show ?thesis by simp
next
  case False
  then show ?thesis
  proof (cases "dead c w")
    case True
    then show ?thesis using False rest.perform_steps [OF assms, of c P] by blast
  qed (simp add: rests_def)
qed

lemma noted_rests:
  assumes "run_actions os A as (note_call ob w) = Inr w'"
  shows "rests P c w w'"
proof -
  have "rests P c (note_call ob w) w'"
    by (rule fold_res_invariant [OF assms [unfolded run_actions_def]]) (auto intro: rests_trans perform_rests)
  moreover have "rests P c w (note_call ob w)" by (simp add: note_call_def rests_def dead_def retired_def idle_def)
  ultimately show ?thesis using rests_trans by blast
qed

lemma call_connection_rests: "call_connection os A app d w = Inr w' \<Longrightarrow> rests P c w w'"
  by (auto simp: call_connection_def split: option.splits intro: noted_rests)

lemma call_message_rests: "call_message os A app d t w = Inr w' \<Longrightarrow> rests P c w w'"
  by (auto simp: call_message_def split: option.splits intro: noted_rests)

section \<open>Handlers and functors\<close>

lemma set_state_rests:
  assumes "in_conn d (\<lambda>x. let x = cx_setState st x in
      setter (cx_update os d x) (g (tc_channel (cx_conn x)))) w = Inr w'" and "d \<noteq> c"
    and "\<And>(u :: _ \<Rightarrow> 'k cctx res) ch x'. setter u ch = Inr x' \<Longrightarrow> \<exists>ch'. u ch' = Inr x'"
  shows "rests P c w (w' :: 'k world)"
proof -
  have "conns w' c = conns w c \<and> settled w w'" by (rule in_conn_other [OF assms(1,2)])
  moreover have "\<forall>l. pending (loops w' l) = pending (loops w l)"
  proof -
    obtain cn x where "conns w d = Some cn" and x: "setter (cx_update os d (cx_setState st (conn_cx w cn))) (g (tc_channel cn)) = Inr x"
        and w': "w' = conn_put d cn x w"
      using assms(1) by (auto simp: in_conn_cx conn_put_def Let_def res_iff cx_setState_def in_conn_def conn_cx_def
          split: option.splits)
    obtain ch where "cx_update os d (cx_setState st (conn_cx w cn)) ch = Inr x" using assms(3) [OF x] by blast
    then have "pending (cx_loop x) = pending (loops w (tc_loop cn))"
      using cx_update_lives [of os d "cx_setState st (conn_cx w cn)" ch x] cx_update_pending
      by (fastforce simp: cx_setState_def)
    then show ?thesis by (simp add: w')
  qed
  ultimately show ?thesis
    by (auto simp: rests_def dead_def retired_def idle_def settled_def)
qed

lemma establish_rests:
  assumes "connEstablish os A app d w = Inr w'" and "d \<noteq> c"
  shows "rests P c w w'"
proof -
  obtain w1 where w1: "in_conn d (\<lambda>x. let x = cx_setState kConnected x in
      enableReadEvent (cx_update os d x) (tie d (tc_channel (cx_conn x)))) w = Inr w1"
    and call: "call_connection os A app d w1 = Inr w'"
    using assms(1) by (auto simp: connEstablish_def res_iff)
  have "rests P c w w1"
    by (rule set_state_rests [where g = "tie d" and setter = enableReadEvent, OF w1 assms(2)]) (auto simp: enableReadEvent_def)
  then show ?thesis using call_connection_rests [OF call] by (rule rests_trans)
qed

lemma removeConnectionInLoop_rests:
  assumes "removeConnectionInLoop os d w = Inr w'"
  shows "rests (\<lambda>f. d = c \<and> f = FConnDestory c) c w w'"
proof -
  obtain sv cn where sv: "server w = Some sv" and cn: "conns w d = Some cn"
    using assms by (auto simp: removeConnectionInLoop_def with_server_def split: option.splits)
  let ?w = "w\<lparr>server := Some (sv\<lparr>connections := AList.delete (tc_name cn) (connections sv)\<rparr>)\<rparr>"
  have w': "w' = net_push os (tc_loop cn) (FConnDestory d) ?w"
    using assms sv cn by (simp add: removeConnectionInLoop_def with_server_def)
  have "rests (\<lambda>f. d = c \<and> f = FConnDestory c) c w ?w"
    using in_table_shrinks [of c "tc_name cn" sv] by (auto simp: rests_def dead_def retired_def idle_def sv)
  moreover have "rests (\<lambda>f. d = c \<and> f = FConnDestory c) c ?w w'" unfolding w' by (rule net_push_rests) simp
  ultimately show ?thesis by (rule rests_trans)
qed

lemma removeConnection_rests:
  assumes "removeConnection os d w = Inr w'" and "d \<noteq> c"
  shows "rests P c w w'"
proof -
  have "rests P c w (net_push os l (FRemoveConnection d) w)" for l by (rule net_push_rests) (simp add: assms(2))
  moreover have "rests P c w w'" if "removeConnectionInLoop os d w = Inr w'"
    by (rule rests_mono [OF removeConnectionInLoop_rests [OF that]]) (simp add: assms(2))
  ultimately show ?thesis using removeConnection_cases [OF assms(1)] by blast
qed

lemma handleClose_rests:
  assumes "handleClose os A app (closer os) d w = Inr w'" and "d \<noteq> c"
  shows "rests P c w w'"
proof -
  obtain w1 w2 where w1: "in_conn d (\<lambda>x. let x = cx_setState kDisconnected x in
      disableAllEvent (cx_update os d x) (tc_channel (cx_conn x))) w = Inr w1"
    and w2: "call_connection os A app d w1 = Inr w2" and w': "removeConnection os d w2 = Inr w'"
    using assms(1) by (rule handleClose_parts)
  have "rests P c w w1"
    by (rule set_state_rests [where g = "\<lambda>ch. ch" and setter = disableAllEvent, OF w1 assms(2)]) (auto simp: disableAllEvent_def)
  then show ?thesis
    using call_connection_rests [OF w2] removeConnection_rests [OF w' assms(2)] rests_trans by blast
qed

lemma handleRead_rests:
  assumes "handleRead os A app (closer os) d t w = Inr w'" and "d \<noteq> c"
  shows "rests P c w w'"
proof -
  obtain cn k b w1 where cn: "conns w d = Some cn" and w1: "w1 = w\<lparr>kern := k, conns := (conns w)(d := Some (cn\<lparr>input_buffer := b\<rparr>))\<rparr>"
    and rest: "call_message os A app d t w1 = Inr w' \<or> handleClose os A app (closer os) d w1 = Inr w'
      \<or> in_conn d (\<lambda>x. Inr (handleError os x)) w1 = Inr w'"
    using assms(1) by (rule handleRead_parts)
  have "rests P c w w1" using assms(2) by (auto simp: w1 rests_def dead_def retired_def idle_def)
  moreover have "rests P c w1 w'" if "in_conn d (\<lambda>x. Inr (handleError os x)) w1 = Inr w'"
    by (rule in_conn_rests [OF that assms(2)]) (use life.error_steps in auto)
  ultimately show ?thesis
    using rest call_message_rests handleClose_rests [OF _ assms(2)] rests_trans by blast
qed

lemma newConnection_rests:
  assumes "newConnection os A app fd pa w = Inr w'" and s: "safe v opn l B H w"
  shows "rests P c w w'"
proof (cases "c < fresh_conn w")
  case True
  obtain k cn so io w1 where w1: "w1 = w\<lparr>kern := k, conns := (conns w)(fresh_conn w := Some cn), fresh_conn := fresh_conn w + 1, server := so\<rparr>"
    and t: "\<forall>d. in_table d so \<longleftrightarrow> in_table d (server w) \<or> d = fresh_conn w"
    and r: "connEstablish os A app (fresh_conn w) w1 = Inr w' \<or> w' = net_push os io (FConnEstablish (fresh_conn w)) w1"
    using assms by (rule newConnection_parts)
  have "rests P c w w1" using t True by (auto simp: w1 rests_def dead_def retired_def idle_def)
  moreover have "rests P c w1 w'" if "connEstablish os A app (fresh_conn w) w1 = Inr w'"
    by (rule establish_rests [OF that]) (use True in simp)
  moreover have "rests P c w1 (net_push os io (FConnEstablish (fresh_conn w)) w1)"
    by (rule net_push_rests) (use True in simp)
  ultimately show ?thesis using r rests_trans by blast
qed (simp add: rests_def dead_def retired_def)

lemma run_handler_rests:
  assumes k: "kernel_ok os v opn" and s: "safe v opn l B H w" and run: "run_handler os A app time h w = Inr w'"
    and h: "h \<notin> conn_handlers c"
  shows "rests P c w w'"
proof (cases h)
  case (HAwake l')
  then have w': "w' = on_loop l' (awake os) w" using run by (simp add: run_handler_def)
  have "lives {} {} w w'" unfolding w' by (rule on_loop_lives) (auto dest!: arg_cong [where f = snd])
  then show ?thesis
    by (rule lives_rests) (use run_handler_retires [OF k s run] in \<open>auto simp: w' idle_def on_loop_simps\<close>)
next
  case HAcceptRead
  then obtain k1 where "safe v opn l B H (w\<lparr>kern := k1\<rparr>)"
    "w' = w\<lparr>kern := k1\<rparr> \<or> (\<exists>fd pa. newConnection os A app fd pa (w\<lparr>kern := k1\<rparr>) = Inr w')"
    using accept_parts [OF _ s k] run by blast
  moreover have "rests P c w (w\<lparr>kern := k1\<rparr>)" by (simp add: rests_def dead_def retired_def idle_def)
  ultimately show ?thesis using newConnection_rests rests_trans by blast
next
  case (HConnRead d)
  then show ?thesis using run h handleRead_rests by (simp add: run_handler_def conn_handlers_def)
next
  case (HConnClose d)
  then show ?thesis using run h handleClose_rests by (simp add: run_handler_def conn_handlers_def)
next
  case (HConnWrite d)
  then have "in_conn d (handleWrite os d) w = Inr w'" "d \<noteq> c" using run h by (auto simp: run_handler_def conn_handlers_def)
  then show ?thesis by (rule in_conn_rests) (rule life.write_event_steps)
next
  case (HConnError d)
  then have "in_conn d (\<lambda>x. Inr (handleError os x)) w = Inr w'" "d \<noteq> c"
    using run h by (auto simp: run_handler_def conn_handlers_def)
  then show ?thesis by (rule in_conn_rests) (use life.error_steps in auto)
qed

lemma connDestory_rests:
  assumes "connDestory os A app d w = Inr w'" and "d \<noteq> c"
  shows "rests P c w w'"
proof -
  let ?off = "in_conn d (\<lambda>x. let x = cx_setState kDisconnected x in disableAllEvent (cx_update os d x) (tc_channel (cx_conn x))) w"
  obtain w1 where w1: "w1 = w \<or> (\<exists>w0. ?off = Inr w0 \<and> call_connection os A app d w0 = Inr w1)"
    and w': "in_conn d (cx_remove os d) w1 = Inr w'"
    using assms(1) by (auto simp: connDestory_def res_iff split: option.splits if_split_asm)
  have "rests P c w w0" if "?off = Inr w0" for w0
    by (rule set_state_rests [where g = "\<lambda>ch. ch" and setter = disableAllEvent, OF that assms(2)]) (auto simp: disableAllEvent_def)
  then have "rests P c w w1" using w1
    by (elim disjE exE conjE) (simp, rule rests_trans, assumption, erule call_connection_rests)
  moreover have "rests P c w1 w'" by (rule in_conn_rests [OF w' assms(2)]) (rule cx_remove_lives)
  ultimately show ?thesis by (rule rests_trans)
qed

text \<open>When the \<open>connDestory\<close> of a retired connection has run, it is dead.\<close>

lemma destroyed_dead:
  assumes k: "kernel_ok os v opn" and app: "app_ok app" and s: "safe v opn l (FConnDestory c # B) H w"
    and l: "l < fresh_loop w" and t: "isInLoopThread (cur_tid w) (loops w l)" and iv: "lived {} l (FConnDestory c # B) w"
    and run: "run_functor os A app (FConnDestory c) w = Inr w'" and r: "retired c w"
  shows "dead c w'"
proof -
  have d: "connDestory os A app c w = Inr w'" using run by (simp add: run_functor_def)
  have own: "own_thread w c" using functor_at [OF s l] t by (auto simp: live_at_def own_thread_def)
  have q: "hushed c w'" using sound_Inr [OF connDestory_sound [OF k app s destroy_ready [OF s l] own] d] by simp
  have r': "retired c w'" using run_functor_retires [OF run] r by (simp add: retires_def)
  have iv': "lived {} l B w'" by (rule run_functor_lived [OF k app s l t iv run])
  have "tc_state cn = kDisconnected \<and> ch_state (tc_channel cn) = kChannelInitialized" if cn: "conns w' c = Some cn" for cn
  proof -
    obtain p where p: "life_ok {} l B w' c p" using iv' by (rule lived_phase)
    then have "tc_state cn = kDisconnected"
      using life_okD(3) [OF p cn] life_okD(4) [OF p cn] r' by (simp add: retired_def)
    then show ?thesis using q cn by (simp add: hushed_def quiet_def)
  qed
  then show ?thesis using r' by (simp add: dead_def idle_def)
qed

lemma run_functor_rests:
  assumes k: "kernel_ok os v opn" and app: "app_ok app" and s: "safe v opn l (f # B) H w"
    and l: "l < fresh_loop w" and t: "isInLoopThread (cur_tid w) (loops w l)" and iv: "lived {} l (f # B) w"
    and run: "run_functor os A app f w = Inr w'"
  shows "rests (\<lambda>g. f = FRemoveConnection c \<and> g = FConnDestory c) c w w'"
proof (cases f)
  case (FSendInLoop d a n)
  then show ?thesis using functor_at [OF s l] by simp
next
  case (FShutdownInLoop d)
  then show ?thesis using functor_at [OF s l] by simp
next
  case (FConnEstablish d)
  show ?thesis
  proof (cases "d = c")
    case True
    then obtain cn where "conns w c = Some cn" using functor_at [OF s l] FConnEstablish by (auto simp: live_at_def)
    then have "in_table c (server w)"
      using safe_stage(1) [OF s] l FConnEstablish True by (simp add: stage_ok_def awaiting_def queued_Cons)
    then show ?thesis by (simp add: rests_def dead_def retired_def)
  next
    case False
    then show ?thesis using establish_rests run by (simp add: FConnEstablish run_functor_def)
  qed
next
  case (FConnDestory d)
  show ?thesis
  proof (cases "d = c \<and> dead c w")
    case True
    then obtain cn where cn: "conns w c = Some cn" using functor_at [OF s l] FConnDestory by (auto simp: live_at_def)
    then have "in_conn c (cx_remove os c) w = Inr w'"
      using run True by (simp add: FConnDestory run_functor_def connDestory_def dead_def idle_def)
    then have "lives {} {} w w'" by (rule in_conn_lives) (rule cx_remove_lives)
    moreover have "dead c w'"
      by (rule destroyed_dead [OF k app _ l t]) (use s iv run True FConnDestory in \<open>auto simp: dead_def\<close>)
    ultimately show ?thesis
      using run_functor_retires [OF run] by (intro lives_rests) (auto simp: dead_def)
  next
    case False
    moreover have "rests P c w w'" if "d \<noteq> c" for P
      by (rule connDestory_rests [OF _ that]) (use run FConnDestory in \<open>simp add: run_functor_def\<close>)
    ultimately show ?thesis by (cases "d = c") (simp_all add: rests_def)
  qed
next
  case FListen
  then have L: "server_listen os w = Inr w'" using run by (simp add: run_functor_def)
  then have "conns w' = conns w" by (auto simp: server_listen_def with_server_def res_iff Let_def split: option.splits)
  then show ?thesis using still_rests [OF listen_still [OF L]] by (simp add: idle_def)
next
  case (FRemoveConnection d)
  then have "removeConnectionInLoop os d w = Inr w'" using run by (simp add: run_functor_def)
  then show ?thesis by (rule rests_mono [OF removeConnectionInLoop_rests]) (simp add: FRemoveConnection)
qed (use run noted_rests in \<open>auto simp: run_functor_def\<close>)

lemma release_rests: "rests P c w (release os d w)"
  by (auto simp: release_def TcpConnection_destroy_def rests_def dead_def retired_def idle_def split: option.split)

lemma release_functors_rests: "rests P c w (release_functors os fs w)"
proof -
  have "rests P c w (fold (release os) cs w)" for cs w
    by (induction cs arbitrary: w) (auto intro: rests_trans release_rests)
  then show ?thesis by (simp add: release_functors_def)
qed

lemma set_revents_idle: "set_revents p ev w = Inr w' \<Longrightarrow> idle c w \<Longrightarrow> idle c w'"
  by (cases p) (auto simp: set_revents_def with_server_def upd_conn_def idle_def setRevents_def split: option.splits if_split_asm)

lemma triggerChannels_idle:
  "triggerChannels set_revents es active w = Inr (w', as) \<Longrightarrow> idle c w \<Longrightarrow> idle c w'"
proof (induction es arbitrary: w active)
  case (Cons e es)
  then obtain w1 where "set_revents (snd e) (fst e) w = Inr w1"
      "triggerChannels set_revents es (active @ [snd e]) w1 = Inr (w', as)"
    by (cases e) (auto simp: res_iff)
  then show ?case using set_revents_idle Cons by blast
qed simp

section \<open>A turn\<close>

lemma poll_phase_idle:
  assumes "poll_phase os l w = Inr w'" and "idle c w"
  shows "idle c w'"
proof -
  obtain po k po' es now w1 w2 as
    where w1: "w1 = upd_loop l (\<lambda>lp. lp\<lparr>active_channels := [], poller := Some po'\<rparr>) (w\<lparr>kern := k\<rparr>)"
      and w2: "triggerChannels set_revents es [] w1 = Inr (w2, as)"
      and w': "w' = upd_loop l (\<lambda>lp. lp\<lparr>active_channels := as, poll_return_time := now\<rparr>) w2"
    using assms(1) by (rule poll_phase_parts)
  have "idle c w1" using assms(2) by (simp add: w1 idle_def upd_loop_def)
  then have "idle c w2" by (rule triggerChannels_idle [OF w2])
  then show ?thesis by (simp add: w' idle_def upd_loop_def)
qed

lemma poll_rests:
  assumes "poll_phase os l (w\<lparr>cur_tid := t\<rparr>) = Inr w'"
  shows "rests P c w w'"
proof -
  have "rests P c (w\<lparr>cur_tid := t\<rparr>) w'"
    by (rule still_rests [OF poll_phase_still [OF assms] poll_phase_idle [OF assms]])
  moreover have "rests P c w (w\<lparr>cur_tid := t\<rparr>)" by (simp add: rests_def dead_def retired_def idle_def)
  ultimately show ?thesis using rests_trans by blast
qed

text \<open>No event is reported for an idle connection.\<close>

lemma idle_silent:
  assumes s: "safe v opn l B H w" and l: "l < fresh_loop w" and "idle c w"
  shows "seen v w l fd \<noteq> Some (m, ConnCh c)"
proof
  assume e: "seen v w l fd = Some (m, ConnCh c)"
  then have "place w l fd (ConnCh c)" using safeD(1) [OF s] l unfolding slots_ok_def by blast
  then obtain cn where cn: "conns w c = Some cn" "tc_loop cn = l" "tc_sockfd cn = fd" by auto
  have "slot_state (ch_state (tc_channel cn)) (ConnCh c) (chans w l fd) (Some (m, ConnCh c))"
    using safe_conn [OF s cn(1)] cn(2,3) e by (simp add: conn_ok_reg)
  then show False using assms(3) cn(1) by (auto simp: slot_state_def idle_def)
qed

lemma conn_handlers_eq: "h \<in> conn_handlers c \<Longrightarrow> h \<in> conn_handlers d \<Longrightarrow> c = d"
  by (auto simp: conn_handlers_def)

lemma handlers_rest:
  assumes k: "kernel_ok os v opn" and app: "app_ok app" and h: "healthy v opn w" and l: "l < fresh_loop w"
    and d: "dead c w" and w1: "poll_phase os l (w\<lparr>cur_tid := t\<rparr>) = Inr w1"
    and s1: "safe v opn l [] {} w1" and iv1: "lived {} l [] w1"
    and tg: "\<forall>p \<in> set (active_channels (loops w1 l)). target_ok l [] w1 p \<and> (\<forall>m. p = WakeupCh m \<longrightarrow> m < fresh_loop w1)"
    and w2: "handle_phase os A app l w1 = Inr w2"
  shows "rests P c w w2"
proof -
  have idle: "ConnCh c \<notin> set (active_channels (loops w1 l))"
  proof
    assume "ConnCh c \<in> set (active_channels (loops w1 l))"
    then obtain fd m where "seen v (w\<lparr>cur_tid := t\<rparr>) l fd = Some (m, ConnCh c)" using poll_phase_active [OF k w1] by blast
    then have "seen v w l fd = Some (m, ConnCh c)" by (simp add: seen_def cong: option.case_cong)
    then show False using idle_silent [OF healthy_safe [OF h] l] d by (simp add: dead_def)
  qed
  have "lived {} l [] w2 \<and> rests P c w1 w2"
  proof (rule handle_phase_rule [where Q = "rests P c w1", OF k app s1 iv1 tg [THEN bspec] w2])
    fix hd u u' assume hd: "hd \<in> range HAwake \<or> hd = HAcceptRead
        \<or> (\<exists>d. ConnCh d \<in> set (active_channels (loops w1 l)) \<and> hd \<in> conn_handlers d \<and> target_ok l [] u (ConnCh d))"
      and u: "safe v opn l [] {} u" "rests P c w1 u" and r: "run_handler os A app (poll_return_time (loops w1 l)) hd u = Inr u'"
    have "hd \<notin> conn_handlers c" using hd idle conn_handlers_eq by (auto simp: conn_handlers_def)
    then show "rests P c w1 u'" using rests_trans [OF u(2) run_handler_rests [OF k u(1) r]] by blast
  qed simp_all
  then show ?thesis using rests_trans [OF poll_rests [OF w1]] by blast
qed

lemma release_functors_loops: "loops (release_functors os fs w) = loops w"
proof -
  have "loops (fold (release os) cs w) = loops w" for cs w by (induction cs arbitrary: w) (simp_all add: release_loops)
  then show ?thesis by (simp add: release_functors_def)
qed

lemma dead_turn:
  assumes k: "kernel_ok os v opn" and app: "app_ok app" and h: "healthy v opn w" and l: "l < fresh_loop w"
    and iv: "lived {} l [] w" and run: "loop_turn os A app l w = Inr w'" and d: "dead c w"
  defines "R \<equiv> \<lambda>f. FRemoveConnection c \<in> set (pending (loops w l)) \<and> f = FConnDestory c"
  shows "dead c w' \<and> adds (\<lambda>f. functor_holds f = Some c \<longrightarrow> R f) (if l' = l then [] else pending (loops w l')) (pending (loops w' l'))"
proof -
  obtain w1 w2 where w1: "poll_phase os l (w\<lparr>cur_tid := thread_id (loops w l)\<rparr>) = Inr w1" "safe v opn l [] {} w1" "lived {} l [] w1"
    and tg: "\<forall>p \<in> set (active_channels (loops w1 l)). target_ok l [] w1 p \<and> (\<forall>m. p = WakeupCh m \<longrightarrow> m < fresh_loop w1)"
    and w2: "handle_phase os A app l w1 = Inr w2"
    and p: "safe v opn l [] {} w2" "l < fresh_loop w2" "isInLoopThread (cur_tid w2) (loops w2 l)" "lived {} l [] w2"
      "run_pending os A app l w2 = Inr w'"
    by (rule turn_parts [OF k app h l iv run])
  have r2: "rests (\<lambda>_. False) c w w2" by (rule handlers_rest [OF k app h l d w1 tg w2])
  then have d2: "dead c w2" and q2: "adds (\<lambda>f. functor_holds f \<noteq> Some c) (pending (loops w i)) (pending (loops w2 i))" for i
    using d by (simp_all add: rests_def)
  let ?fs = "pending (loops w2 l)"
  let ?w = "upd_loop l (\<lambda>lp. lp\<lparr>pending := []\<rparr>) (upd_loop l (\<lambda>lp. lp\<lparr>calling_pending := True\<rparr>) w2)"
  have rm: "FRemoveConnection c \<in> set (pending (loops w l))" if "FRemoveConnection c \<in> set ?fs"
    using q2 [of l] that by (fastforce simp: adds_def)
  have dw: "dead c ?w" using d2 by (simp add: dead_def retired_def idle_def upd_loop_def)
  obtain u where u: "set [] \<subseteq> set ?fs \<and> rests R c ?w u"
    and w': "w' = release_functors os ?fs (upd_loop l (\<lambda>lp. lp\<lparr>calling_pending := False\<rparr>) u)"
  proof (rule run_pending_rule [where Q = "\<lambda>B u. set B \<subseteq> set ?fs \<and> rests R c ?w u", OF k app p])
    fix f B H x x' assume x: "safe v opn l (f # B) H x" "lived {} l (f # B) x" "l < fresh_loop x"
        "isInLoopThread (cur_tid x) (loops x l)" and i: "set (f # B) \<subseteq> set ?fs \<and> rests R c ?w x"
      and r: "run_functor os A app f x = Inr x'"
    have "rests R c x x'"
      by (rule rests_mono [OF run_functor_rests [OF k app x(1,3,4,2) r]]) (use i rm in \<open>auto simp: R_def\<close>)
    then show "set B \<subseteq> set ?fs \<and> rests R c ?w x'" using i rests_trans by auto
  qed simp_all
  have du: "dead c u" and qu: "adds (\<lambda>f. functor_holds f = Some c \<longrightarrow> R f) (pending (loops ?w i)) (pending (loops u i))" for i
    using u dw by (simp_all add: rests_def)
  have "dead c (upd_loop l (\<lambda>lp. lp\<lparr>calling_pending := False\<rparr>) u)"
    using du by (simp add: dead_def retired_def idle_def upd_loop_def)
  then have "dead c w'" using release_functors_rests [of _ c] unfolding w' rests_def by blast
  moreover have "pending (loops w' i) = pending (loops u i)" for i
    by (simp add: w' release_functors_loops upd_loop_def)
  moreover have "adds (\<lambda>f. functor_holds f = Some c \<longrightarrow> R f) (if l' = l then [] else pending (loops w l')) (pending (loops u l'))"
    using qu [of l'] adds_trans [OF adds_mono [OF q2 [of l']], of "\<lambda>f. functor_holds f = Some c \<longrightarrow> R f"]
    by (cases "l' = l") (simp_all add: upd_loop_def)
  ultimately show ?thesis by simp
qed

text \<open>A rule for predicates that every handler keeps, whichever it is.\<close>

lemma turn_rule:
  assumes k: "kernel_ok os v opn" and app: "app_ok app" and h: "healthy v opn w" and l: "l < fresh_loop w"
    and iv: "lived {} l [] w" and run: "loop_turn os A app l w = Inr w'"
    and poll: "\<And>u. poll_phase os l (w\<lparr>cur_tid := thread_id (loops w l)\<rparr>) = Inr u \<Longrightarrow> Q u"
    and hand: "\<And>hd time u u'. hd \<in> range HAwake \<or> hd = HAcceptRead
        \<or> (\<exists>d. hd \<in> conn_handlers d \<and> target_ok l [] u (ConnCh d)) \<Longrightarrow> safe v opn l [] {} u \<Longrightarrow> lived {} l [] u \<Longrightarrow>
      Q u \<Longrightarrow> run_handler os A app time hd u = Inr u' \<Longrightarrow> Q u'"
    and vec: "\<And>u. Q u \<Longrightarrow> V (pending (loops u l))
      (upd_loop l (\<lambda>lp. lp\<lparr>pending := []\<rparr>) (upd_loop l (\<lambda>lp. lp\<lparr>calling_pending := True\<rparr>) u))"
    and func: "\<And>f B H u u'. safe v opn l (f # B) H u \<Longrightarrow> lived {} l (f # B) u \<Longrightarrow> l < fresh_loop u \<Longrightarrow>
      isInLoopThread (cur_tid u) (loops u l) \<Longrightarrow> V (f # B) u \<Longrightarrow> run_functor os A app f u = Inr u' \<Longrightarrow> V B u'"
  obtains u H fs where "V [] u" and "safe v opn l [] H (upd_loop l (\<lambda>lp. lp\<lparr>calling_pending := False\<rparr>) u)"
    and "w' = release_functors os fs (upd_loop l (\<lambda>lp. lp\<lparr>calling_pending := False\<rparr>) u)"
proof -
  obtain w1 w2 where w1: "poll_phase os l (w\<lparr>cur_tid := thread_id (loops w l)\<rparr>) = Inr w1" "safe v opn l [] {} w1" "lived {} l [] w1"
    and tg: "\<forall>p \<in> set (active_channels (loops w1 l)). target_ok l [] w1 p \<and> (\<forall>m. p = WakeupCh m \<longrightarrow> m < fresh_loop w1)"
    and w2: "handle_phase os A app l w1 = Inr w2"
    and p: "safe v opn l [] {} w2" "l < fresh_loop w2" "isInLoopThread (cur_tid w2) (loops w2 l)" "lived {} l [] w2"
      "run_pending os A app l w2 = Inr w'"
    using turn_parts [OF k app h l iv run] by blast
  have "lived {} l [] w2 \<and> Q w2"
    by (rule handle_phase_rule [where Q = Q, OF k app w1(2,3) tg [THEN bspec] w2 poll [OF w1(1)]]) (use hand in blast)+
  then have start: "V (pending (loops w2 l))
      (upd_loop l (\<lambda>lp. lp\<lparr>pending := []\<rparr>) (upd_loop l (\<lambda>lp. lp\<lparr>calling_pending := True\<rparr>) w2))"
    using vec by blast
  show ?thesis by (rule run_pending_rule [where Q = V, OF k app p start func]) (use that in auto)
qed

lemma turn_retires:
  assumes k: "kernel_ok os v opn" and app: "app_ok app" and h: "healthy v opn w" and l: "l < fresh_loop w"
    and iv: "lived {} l [] w" and run: "loop_turn os A app l w = Inr w'"
  shows "retires c w w'"
proof -
  have flags: "retires c x (upd_loop l g x)" for g and x :: "'a world"
    by (simp add: retires_def retired_def upd_loop_def)
  obtain u fs where "retires c w u" "w' = release_functors os fs (upd_loop l (\<lambda>lp. lp\<lparr>calling_pending := False\<rparr>) u)"
  proof (rule turn_rule [where Q = "retires c w" and V = "\<lambda>_. retires c w", OF k app h l iv run])
    fix u assume "poll_phase os l (w\<lparr>cur_tid := thread_id (loops w l)\<rparr>) = Inr u"
    then have "settled (w\<lparr>cur_tid := thread_id (loops w l)\<rparr>) u" using poll_phase_still still_def by blast
    then show "retires c w u" by (auto simp: settled_def retires_def retired_def)
  next
    fix hd time u u' assume u: "safe v opn l [] {} u" "retires c w u" "run_handler os A app time hd u = Inr u'"
    show "retires c w u'" by (rule retires_trans [OF u(2) run_handler_retires [OF k u(1,3)]])
  next
    fix u assume u: "retires c w u"
    show "retires c w (upd_loop l (\<lambda>lp. lp\<lparr>pending := []\<rparr>) (upd_loop l (\<lambda>lp. lp\<lparr>calling_pending := True\<rparr>) u))"
      by (rule retires_trans [OF retires_trans [OF u flags] flags])
  next
    fix f u u' assume u: "retires c w u" "run_functor os A app f u = Inr u'"
    show "retires c w u'" by (rule retires_trans [OF u(1) run_functor_retires [OF u(2)]])
  qed
  then show ?thesis using retires_trans [OF _ retires_trans [OF flags release_functors_retires]] by simp
qed

text \<open>A turn leaves what is queued on other loops, and what is queued on its own before it runs functors.\<close>

lemma grows_queue: "loops_grow w w' \<Longrightarrow> set (pending (loops w l)) \<subseteq> set (pending (loops w' l))"
  unfolding loops_grow_def loop_grows_def by (metis set_append sup_ge1)

lemma turn_keeps_queue:
  assumes k: "kernel_ok os v opn" and app: "app_ok app" and h: "healthy v opn w" and l: "l < fresh_loop w"
    and iv: "lived {} l [] w" and run: "loop_turn os A app l w = Inr w'" and ne: "l' \<noteq> l"
    and f: "f \<in> set (pending (loops w l'))"
  shows "f \<in> set (pending (loops w' l'))"
proof -
  let ?Q = "\<lambda>u. f \<in> set (pending (loops u l'))"
  obtain u fs where "?Q u" "w' = release_functors os fs (upd_loop l (\<lambda>lp. lp\<lparr>calling_pending := False\<rparr>) u)"
  proof (rule turn_rule [where Q = ?Q and V = "\<lambda>_. ?Q", OF k app h l iv run])
    fix u assume "poll_phase os l (w\<lparr>cur_tid := thread_id (loops w l)\<rparr>) = Inr u"
    then show "?Q u" using grows_queue [OF poll_phase_grows, of os l "w\<lparr>cur_tid := thread_id (loops w l)\<rparr>" u l'] f by auto
  next
    fix hd time u u' assume "?Q u" "run_handler os A app time hd u = Inr u'"
    then show "?Q u'" using grows_queue [OF run_handler_grows] by blast
  next
    fix g u u' assume "?Q u" "run_functor os A app g u = Inr u'"
    then show "?Q u'" using grows_queue [OF run_functor_grows] by blast
  qed (use ne in \<open>simp_all add: upd_loop_def\<close>)
  then show ?thesis using ne by (simp add: release_functors_loops upd_loop_def)
qed

text \<open>The turn that runs a \<open>removeConnectionInLoop\<close> retires the connection, the one that runs the
  \<open>connDestory\<close> of a retired connection leaves it dead.\<close>

lemma removal_retires:
  assumes run: "removeConnectionInLoop os c w = Inr w'" and s: "safe v opn l B H w" and c: "c < fresh_conn w"
  shows "retired c w'"
proof -
  obtain sv where sv: "server w = Some sv" "server_ok sv w" using safe_server [OF s] by blast
  then obtain cn where cn: "conns w c = Some cn"
    using run by (auto simp: removeConnectionInLoop_def with_server_def split: option.splits)
  let ?w = "w\<lparr>server := Some (sv\<lparr>connections := AList.delete (tc_name cn) (connections sv)\<rparr>)\<rparr>"
  have "w' = net_push os (tc_loop cn) (FConnDestory c) ?w"
    using run sv cn by (simp add: removeConnectionInLoop_def with_server_def)
  moreover have "retired c ?w" using in_table_delete [OF sv(2) cn] c by (simp add: retired_def)
  ultimately show ?thesis using evolves_retires [OF net_push_evolves] unfolding retires_def by blast
qed

lemma remove_turn:
  assumes k: "kernel_ok os v opn" and app: "app_ok app" and h: "healthy v opn w" and l: "l < fresh_loop w"
    and iv: "lived {} l [] w" and run: "loop_turn os A app l w = Inr w'"
    and c: "c < fresh_conn w" and q: "FRemoveConnection c \<in> set (pending (loops w l))"
  shows "retired c w'"
proof -
  let ?Q = "\<lambda>u. c < fresh_conn u \<and> FRemoveConnection c \<in> set (pending (loops u l))"
  let ?V = "\<lambda>B u. c < fresh_conn u \<and> (FRemoveConnection c \<in> set B \<or> retired c u)"
  obtain u fs where u: "?V [] u" and w': "w' = release_functors os fs (upd_loop l (\<lambda>lp. lp\<lparr>calling_pending := False\<rparr>) u)"
  proof (rule turn_rule [where Q = ?Q and V = ?V, OF k app h l iv run])
    fix u assume p: "poll_phase os l (w\<lparr>cur_tid := thread_id (loops w l)\<rparr>) = Inr u"
    have "settled (w\<lparr>cur_tid := thread_id (loops w l)\<rparr>) u" using poll_phase_still [OF p] by (simp add: still_def)
    then show "?Q u" using grows_queue [OF poll_phase_grows [OF p], of l] q c by (auto simp: settled_def)
  next
    fix hd time u u' assume u: "safe v opn l [] {} u" "?Q u" and r: "run_handler os A app time hd u = Inr u'"
    show "?Q u'" using run_handler_retires [OF k u(1) r, of c] grows_queue [OF run_handler_grows [OF r]] u(2)
      by (auto simp: retires_def)
  next
    fix f B H u u' assume s: "safe v opn l (f # B) H u" and i: "?V (f # B) u" and r: "run_functor os A app f u = Inr u'"
    have "retired c u'" if "f = FRemoveConnection c"
      by (rule removal_retires [OF _ s]) (use that r i in \<open>auto simp: run_functor_def\<close>)
    then show "?V B u'" using run_functor_retires [OF r, of c] i by (auto simp: retires_def)
  qed (auto simp: upd_loop_def)
  have "retired c (upd_loop l (\<lambda>lp. lp\<lparr>calling_pending := False\<rparr>) u)" using u by (simp add: retired_def upd_loop_def)
  then show ?thesis using release_functors_retires unfolding w' retires_def by blast
qed

lemma destroy_turn:
  assumes k: "kernel_ok os v opn" and app: "app_ok app" and h: "healthy v opn w" and l: "l < fresh_loop w"
    and iv: "lived {} l [] w" and run: "loop_turn os A app l w = Inr w'"
    and c: "retired c w" and q: "FConnDestory c \<in> set (pending (loops w l))"
  shows "dead c w'"
proof -
  let ?Q = "\<lambda>u. retired c u \<and> FConnDestory c \<in> set (pending (loops u l))"
  let ?V = "\<lambda>B u. retired c u \<and> (FConnDestory c \<in> set B \<or> dead c u)"
  obtain u fs where u: "?V [] u" and w': "w' = release_functors os fs (upd_loop l (\<lambda>lp. lp\<lparr>calling_pending := False\<rparr>) u)"
  proof (rule turn_rule [where Q = ?Q and V = ?V, OF k app h l iv run])
    fix u assume p: "poll_phase os l (w\<lparr>cur_tid := thread_id (loops w l)\<rparr>) = Inr u"
    have "settled (w\<lparr>cur_tid := thread_id (loops w l)\<rparr>) u" using poll_phase_still [OF p] by (simp add: still_def)
    then show "?Q u" using grows_queue [OF poll_phase_grows [OF p], of l] q c by (auto simp: settled_def retired_def)
  next
    fix hd time u u' assume u: "safe v opn l [] {} u" "?Q u" and r: "run_handler os A app time hd u = Inr u'"
    show "?Q u'" using run_handler_retires [OF k u(1) r, of c] grows_queue [OF run_handler_grows [OF r]] u(2)
      by (auto simp: retires_def)
  next
    fix f B H u u' assume x: "safe v opn l (f # B) H u" "lived {} l (f # B) u" "l < fresh_loop u"
        "isInLoopThread (cur_tid u) (loops u l)" and i: "?V (f # B) u" and r: "run_functor os A app f u = Inr u'"
    have "dead c u'" if "f = FConnDestory c"
      by (rule destroyed_dead [OF k app _ x(3,4)]) (use x r i that in auto)
    moreover have "dead c u'" if "dead c u" using run_functor_rests [OF k app x(1,3,4,2) r, of c] that by (simp add: rests_def)
    ultimately show "?V B u'" using run_functor_retires [OF r, of c] i by (auto simp: retires_def)
  qed (auto simp: upd_loop_def retired_def)
  have "dead c (upd_loop l (\<lambda>lp. lp\<lparr>calling_pending := False\<rparr>) u)" using u by (simp add: dead_def retired_def idle_def upd_loop_def)
  then show ?thesis using release_functors_rests [of "\<lambda>_. True" c] unfolding w' rests_def by blast
qed

end
