(* ===== verification/Farewell.thy ===== *)
theory Farewell
  imports Reclaim
begin

text \<open>
  A connection whose user has been told that it is down is on its way out: it has left the table, or
  the \<open>removeConnectionInLoop\<close> that takes it out is queued. \<open>owed\<close> is the invariant, \<open>untold\<close> what
  every step but \<open>handleClose\<close> keeps to.
\<close>

definition told_down :: "nat \<Rightarrow> ('k, 'z) net_scheme \<Rightarrow> bool" where
  "told_down c w \<longleftrightarrow> (\<exists>cb. CalledConnection cb c False \<in> set (trace w))"

definition owed :: "nat \<Rightarrow> Functor list \<Rightarrow> nat \<Rightarrow> 'k world \<Rightarrow> bool" where
  "owed l B c w \<longleftrightarrow> (told_down c w \<longrightarrow> retired c w \<or> queued l B w (FRemoveConnection c))"

definition untold :: "nat \<Rightarrow> ('k, 'z) net_scheme \<Rightarrow> ('k, 'z) net_scheme \<Rightarrow> bool" where
  "untold c w w' \<longleftrightarrow> (told_down c w' \<longrightarrow> told_down c w)"

lemma untold_refl [simp]: "untold c w w"
  by (simp add: untold_def)

lemma untold_trans: "untold c u v \<Longrightarrow> untold c v w \<Longrightarrow> untold c u w"
  by (simp add: untold_def)

lemma untold_same: "trace w' = trace w \<Longrightarrow> untold c w w'"
  by (simp add: untold_def told_down_def)

lemma lives_untold:
  assumes "lives S D w w'"
  shows "untold c w w'"
proof -
  have "\<not> tells S (CalledConnection cb c False)" for cb by simp
  then show ?thesis using assms by (fastforce simp: untold_def told_down_def lives_def adds_def)
qed

text \<open>Whatever user code does, it tells nobody that a connection is down.\<close>

lemma noted_untold:
  assumes "run_actions os A as (note_call ob w) = Inr w'" and "tells UNIV ob"
  shows "untold c w w'"
proof -
  have "lives UNIV {} (note_call ob w) w'" by (rule life.actions_steps [OF assms(1)]) simp
  then show ?thesis using lives_untold [OF lives_trans [OF note_call_lives [OF assms(2)]]] by blast
qed

lemma call_message_untold: "call_message os A app d t w = Inr w' \<Longrightarrow> untold c w w'"
  by (auto simp: call_message_def split: option.splits intro!: noted_untold)

lemma in_conn_untold:
  assumes "in_conn d f w = Inr w'" and "\<And>x x'. f x = Inr x' \<Longrightarrow> cx_lives {d} x x'"
  shows "untold c w w'"
  using lives_untold [OF in_conn_lives [OF assms(1), of "{d}"]] assms(2) by blast

lemma in_conn_trace: "in_conn d f w = Inr w' \<Longrightarrow> trace w' = trace w"
  by (auto simp: in_conn_def res_iff split: option.splits)

lemma connEstablish_untold:
  assumes "connEstablish os A app d w = Inr w'"
  shows "untold c w w'"
proof -
  let ?f = "\<lambda>x. let x = cx_setState kConnected x in enableReadEvent (cx_update os d x) (tie d (tc_channel (cx_conn x)))"
  obtain w1 where w1: "in_conn d ?f w = Inr w1" and call: "call_connection os A app d w1 = Inr w'"
    using assms by (auto simp: connEstablish_def res_iff)
  have "tc_state (cx_conn x') = kConnected" if "?f x = Inr x'" for x x' :: "'a cctx"
    using that by (auto simp: Let_def enableReadEvent_def cx_update_def cx_setState_def res_iff)
  then obtain cn where cn: "conns w1 d = Some cn" "tc_state cn = kConnected"
    using w1 by (auto simp: in_conn_def res_iff split: option.splits)
  have "untold c w1 w'"
  proof -
    obtain cb where run: "run_actions os A (on_connection app cb w1 d) (note_call (CalledConnection cb d True) w1) = Inr w'"
      using call cn by (auto simp: call_connection_def isConnected_def split: option.splits)
    have "lives UNIV {} (note_call (CalledConnection cb d True) w1) w'" by (rule life.actions_steps [OF run]) simp
    moreover have "untold c w1 (note_call (CalledConnection cb d True) w1)"
      by (simp add: untold_def told_down_def note_call_def)
    ultimately show ?thesis using lives_untold untold_trans by blast
  qed
  then show ?thesis using untold_same [OF in_conn_trace [OF w1]] untold_trans by blast
qed

lemma net_push_untold: "untold c w (net_push os l f w)"
  by (rule untold_same) (simp add: net_push_fields)

section \<open>Steps that tell nobody\<close>

lemma queued_grows:
  assumes "loops_grow w w'" and "fresh_loop w \<le> fresh_loop w'" and "queued l B w f"
  shows "queued l B w' f"
  using assms(2,3) grows_queue [OF assms(1)] unfolding queued_def queue_of_def
  by (metis UnE UnI1 UnI2 order_less_le_trans set_append subsetD)

lemma owed_step:
  assumes "owed l B c w" and "untold c w w'" and "retires c w w'" and "loops_grow w w'" and "fresh_loop w \<le> fresh_loop w'"
  shows "owed l B c w'"
  using assms queued_grows [OF assms(4,5)] by (auto simp: owed_def untold_def retires_def)

lemma removeConnection_owed:
  assumes run: "removeConnection os c w = Inr w'" and s: "safe v opn l B H w" and c: "c < fresh_conn w"
  shows "owed l B c w'"
proof -
  obtain sv where sv: "server w = Some sv" using safe_server [OF s] by blast
  have "srv_loop sv < fresh_loop w" using safeD(4) [OF s] sv by (auto simp: acceptor_ok_def)
  moreover have "fresh_loop (net_push os m f w) = fresh_loop w" for m f 
    using evolves_world [OF net_push_evolves] by blast
  ultimately have "queued l B (net_push os (srv_loop sv) (FRemoveConnection c) w) (FRemoveConnection c)"
    by (auto simp: queued_def queue_of_def net_push_queue intro!: exI [of _ "srv_loop sv"])
  moreover have "removeConnectionInLoop os c w = Inr w' \<or> w' = net_push os (srv_loop sv) (FRemoveConnection c) w"
    using run sv by (auto simp: removeConnection_def with_server_def runLoopCallback_def split: if_split_asm)
  ultimately show ?thesis using removal_retires [OF _ s c] by (auto simp: owed_def)
qed

lemma down_born:
  assumes s: "safe v opn l B H w" and iv: "lived {} l B w" and p: "phase_at c w = Some Down"
  shows "c < fresh_conn w"
proof (cases "conns w c")
  case None
  obtain q where "phase_at c w = Some q" "life_ok {} l B w c q" using iv by (rule lived_phase)
  then show ?thesis using p None by (simp add: life_ok_def split: if_split_asm)
next
  case (Some cn)
  obtain sv where "server_ok sv w" using safe_server [OF s] by blast
  then show ?thesis using server_okD(7) [of sv w c] Some by (cases "c < fresh_conn w") simp_all
qed

lemma call_connection_other:
  assumes "call_connection os A app d w = Inr w'" and "d \<noteq> c"
  shows "untold c w w'"
proof -
  obtain cb up where run: "run_actions os A (on_connection app cb w d) (note_call (CalledConnection cb d up) w) = Inr w'"
    using assms(1) by (auto simp: call_connection_def split: option.splits)
  have "lives UNIV {} (note_call (CalledConnection cb d up) w) w'" by (rule life.actions_steps [OF run]) simp
  moreover have "untold c w (note_call (CalledConnection cb d up) w)"
    using assms(2) by (simp add: untold_def told_down_def note_call_def)
  ultimately show ?thesis using lives_untold untold_trans by blast
qed

lemma handleClose_owed:
  assumes k: "kernel_ok os v opn" and app: "app_ok app" and s: "safe v opn l B H w" and r: "ready l B w d"
    and t: "own_thread w d" and iv: "lived {} l B w" and run: "handleClose os A app (closer os) d w = Inr w'"
    and o: "owed l B c w"
  shows "owed l B c w'"
proof (cases "d = c")
  case True
  obtain w2 where w2: "safe v opn l B H w2" "lived {} l B w2" "phase_at d w2 = Some Down" "removeConnection os d w2 = Inr w'"
    by (rule handleClose_told [OF k app s r t iv run])
  then show ?thesis using removeConnection_owed [OF _ w2(1)] down_born [OF w2(1-3)] True by blast
next
  case False
  obtain w1 w2 where w1: "in_conn d (\<lambda>x. let x = cx_setState kDisconnected x in
      disableAllEvent (cx_update os d x) (tc_channel (cx_conn x))) w = Inr w1"
    and w2: "call_connection os A app d w1 = Inr w2" and w': "removeConnection os d w2 = Inr w'"
    using run by (rule handleClose_parts)
  have "untold c w w1" "untold c w1 w2" "untold c w2 w'"
    using in_conn_trace [OF w1] call_connection_other [OF w2 False] removeConnection_keeps [OF w'] by (simp_all add: untold_same)
  then have "untold c w w'" using untold_trans by blast
  moreover have "fresh_loop w' = fresh_loop w" using sound_Inr [OF handleClose_sound [OF k app s r t] run] by (simp add: readies_def)
  ultimately show ?thesis using owed_step [OF o _ handleClose_retires [OF run] handleClose_grows [OF run]] by simp
qed

section \<open>Handlers and functors\<close>

lemma handleRead_owed:
  assumes k: "kernel_ok os v opn" and app: "app_ok app" and s: "safe v opn l B H w" and r: "ready l B w d"
    and t: "own_thread w d" and iv: "lived {} l B w" and run: "handleRead os A app (closer os) d time w = Inr w'"
    and o: "owed l B c w"
  shows "owed l B c w'"
proof -
  obtain cn k1 b w1 where cn: "conns w d = Some cn"
    and w: "w1 = w\<lparr>kern := k1, conns := (conns w)(d := Some (cn\<lparr>input_buffer := b\<rparr>))\<rparr>"
    and w1: "lived {} l B w1" "ready l B w1 d" "own_thread w1 d" "safe v opn l B H w1"
    and x: "call_message os A app d time w1 = Inr w' \<or> handleClose os A app (closer os) d w1 = Inr w'
      \<or> in_conn d (\<lambda>x. Inr (handleError os x)) w1 = Inr w'"
    by (rule handleRead_ready [OF k s r t iv run])
  have o1: "owed l B c w1"
    by (rule owed_step [OF o lives_untold [OF input_lives [OF cn w]] settled_retires [OF input_settled [OF w]]]) (simp_all add: w)
  have own: "ready l B w1 d \<and> own_thread w1 d" using w1 by simp
  have fl: "fresh_loop w' = fresh_loop w1" 
    using x sound_Inr [OF handleClose_sound [OF k app w1(4,2,3)]] evolves_world [OF call_message_evolves]
      evolves_world [OF handleError_evolves] by (auto simp: readies_def)
  have "owed l B c w'" if "untold c w1 w'" "evolves w1 w'"
    by (rule owed_step [OF o1 that(1) evolves_retires [OF that(2)] evolves_loops [OF that(2)]]) (simp add: fl)
  moreover have "untold c w1 w'" if "in_conn d (\<lambda>x. Inr (handleError os x)) w1 = Inr w'"
    by (rule in_conn_untold [OF that]) (use life.error_steps in auto)
  moreover have "owed l B c w'" if "handleClose os A app (closer os) d w1 = Inr w'"
    by (rule handleClose_owed [OF k app w1(4,2,3,1) that o1])
  ultimately show ?thesis using x by (auto dest: call_message_untold call_message_evolves handleError_evolves)
qed

lemma newConnection_untold:
  assumes "newConnection os A app fd pa w = Inr w'" and s: "safe v opn l B H w"
  shows "untold c w w'"
proof -
  obtain k cn so io w1 where w1: "w1 = w\<lparr>kern := k, conns := (conns w)(fresh_conn w := Some cn), fresh_conn := fresh_conn w + 1, server := so\<rparr>"
    and r: "connEstablish os A app (fresh_conn w) w1 = Inr w' \<or> w' = net_push os io (FConnEstablish (fresh_conn w)) w1"
    using assms by (rule newConnection_parts)
  have "untold c w w1" by (rule untold_same) (simp add: w1)
  moreover have "untold c w1 w'" using r connEstablish_untold net_push_untold by blast
  ultimately show ?thesis by (rule untold_trans)
qed

lemma run_handler_owed:
  assumes k: "kernel_ok os v opn" and app: "app_ok app" and s: "safe v opn l B H w" and iv: "lived {} l B w"
    and h: "h \<in> range HAwake \<or> h = HAcceptRead \<or> (\<exists>c. h \<in> conn_handlers c \<and> target_ok l B w (ConnCh c))"
    and run: "run_handler os A app time h w = Inr w'" and o: "owed l B c w"
  shows "owed l B c w'"
proof -
  have fl: "fresh_loop w' = fresh_loop w" using sound_Inr [OF run_handler_sound [OF k app s h] run] by (simp add: readies_def)
  have quietly: ?thesis if "untold c w w'"
    using owed_step [OF o that run_handler_retires [OF k s run] run_handler_grows [OF run]] fl by simp
  show ?thesis
  proof (cases h)
    case (HAwake l')
    then have w': "w' = on_loop l' (awake os) w" using run by (simp add: run_handler_def)
    have "lives {} {} w w'" unfolding w' by (rule on_loop_lives) (auto dest!: arg_cong [where f = snd])
    then show ?thesis by (rule quietly [OF lives_untold])
  next
    case HAcceptRead
    obtain k1 where s1: "safe v opn l B H (w\<lparr>kern := k1\<rparr>)"
      and x: "w' = w\<lparr>kern := k1\<rparr> \<or> (\<exists>fd pa. newConnection os A app fd pa (w\<lparr>kern := k1\<rparr>) = Inr w')"
      using accept_parts [OF _ s k] run HAcceptRead by blast
    have "untold c (w\<lparr>kern := k1\<rparr>) w'" using x newConnection_untold [OF _ s1] untold_same by auto
    then show ?thesis by (intro quietly) (simp add: untold_def told_down_def)
  next
    case (HConnRead d)
    then show ?thesis using handleRead_owed [OF k app s _ _ iv _ o] h run by (auto simp: run_handler_def conn_handlers_def)
  next
    case (HConnClose d)
    then show ?thesis using handleClose_owed [OF k app s _ _ iv _ o] h run by (auto simp: run_handler_def conn_handlers_def)
  next
    case (HConnWrite d)
    then have "in_conn d (handleWrite os d) w = Inr w'" using run by (simp add: run_handler_def)
    then show ?thesis by (rule quietly [OF in_conn_untold]) (rule life.write_event_steps)
  next
    case (HConnError d)
    then have "in_conn d (\<lambda>x. Inr (handleError os x)) w = Inr w'" using run by (simp add: run_handler_def)
    then show ?thesis by (rule quietly [OF in_conn_untold]) (use life.error_steps in auto)
  qed
qed

lemma run_functor_owed:
  assumes k: "kernel_ok os v opn" and app: "app_ok app" and s: "safe v opn l (f # B) H w"
    and l: "l < fresh_loop w" and t: "isInLoopThread (cur_tid w) (loops w l)" and iv: "lived {} l (f # B) w"
    and run: "run_functor os A app f w = Inr w'" and o: "owed l (f # B) c w"
  shows "owed l B c w'"
proof (cases "f = FRemoveConnection c")
  case True
  then obtain cn where "conns w c = Some cn" using functor_at [OF s l] by auto
  moreover obtain sv where "server_ok sv w" using safe_server [OF s] by blast
  ultimately have "c < fresh_conn w" using server_okD(7) [of sv w c] by (cases "c < fresh_conn w") simp_all
  then have "retired c w'" using removal_retires [OF _ s] run True by (simp add: run_functor_def)
  then show ?thesis by (simp add: owed_def)
next
  case False
  have o': "owed l B c w" using o False l by (auto simp: owed_def queued_Cons)
  have fl: "fresh_loop w' = fresh_loop w" using sound_Inr [OF run_functor_sound [OF k app s l t] run] by simp
  have "untold c w w'"
  proof (cases f)
    case (FConnEstablish d)
    then show ?thesis using run connEstablish_untold by (simp add: run_functor_def)
  next
    case (FConnDestory d)
    then obtain cn where cn: "conns w d = Some cn" using functor_at [OF s l] by (auto simp: live_at_def)
    have "phase_at d w = Some Down" by (rule queued_phase(2) [OF iv]) (use cn l FConnDestory in \<open>auto simp: queued_Cons\<close>)
    then have "life_ok {} l (f # B) w d Down" using lived_phase [OF iv, of d] by auto
    then have "tc_state cn = kDisconnected" using life_okD(3) [OF _ cn] by blast
    then have "in_conn d (cx_remove os d) w = Inr w'" using run cn by (simp add: FConnDestory run_functor_def connDestory_def)
    then show ?thesis by (rule in_conn_untold) (rule cx_remove_lives)
  next
    case FListen
    then have "still w w'" using run by (simp add: run_functor_def listen_still)
    then show ?thesis unfolding still_def using lives_untold by blast
  next
    case (FRemoveConnection d)
    then have "removeConnectionInLoop os d w = Inr w'" using run by (simp add: run_functor_def)
    then have "trace w' = trace w" by (auto simp: removeConnectionInLoop_def with_server_def split: option.splits)
    then show ?thesis by (rule untold_same)
  qed (use functor_at [OF s l] run in \<open>auto simp: run_functor_def intro!: noted_untold\<close>)
  then show ?thesis
    using owed_step [OF o' _ run_functor_retires [OF run] run_functor_grows [OF run]] fl by simp
qed

section \<open>Turns\<close>

lemma owed_still:
  assumes "owed l B c w" and "trace w' = trace w" and "fresh_conn w' = fresh_conn w" and "server w' = server w"
    and "\<And>f. queued l B w f \<Longrightarrow> queued l' B' w' f"
  shows "owed l' B' c w'"
  using assms by (auto simp: owed_def told_down_def retired_def)

lemma release_functors_keeps:
  "trace (release_functors os fs w) = trace w \<and> loops (release_functors os fs w) = loops w
     \<and> fresh_conn (release_functors os fs w) = fresh_conn w \<and> server (release_functors os fs w) = server w
     \<and> fresh_loop (release_functors os fs w) = fresh_loop w"
proof -
  have "trace (fold (release os) cs w) = trace w \<and> loops (fold (release os) cs w) = loops w
     \<and> fresh_conn (fold (release os) cs w) = fresh_conn w \<and> server (fold (release os) cs w) = server w
     \<and> fresh_loop (fold (release os) cs w) = fresh_loop w" for cs w
    by (induction cs arbitrary: w) (simp_all add: release_def TcpConnection_destroy_def split: option.split)
  then show ?thesis by (simp add: release_functors_def)
qed

lemma turn_owed:
  assumes k: "kernel_ok os v opn" and app: "app_ok app" and h: "healthy v opn w" and l: "l < fresh_loop w"
    and iv: "lived {} l [] w" and run: "loop_turn os A app l w = Inr w'" and o: "owed l [] c w"
  shows "owed l [] c w'"
proof -
  have vec: "owed l (pending (loops u l)) c (upd_loop l (\<lambda>lp. lp\<lparr>pending := []\<rparr>) (upd_loop l (\<lambda>lp. lp\<lparr>calling_pending := True\<rparr>) u))"
    if "owed l [] c u" for u :: "'a world"
    by (rule owed_still [OF that]) (auto simp: upd_loop_def queued_def queue_of_def split: if_split_asm)
  obtain u fs where u: "owed l [] c u"
    and w': "w' = release_functors os fs (upd_loop l (\<lambda>lp. lp\<lparr>calling_pending := False\<rparr>) u)"
  proof (rule turn_rule [where Q = "owed l [] c" and V = "\<lambda>B. owed l B c", OF k app h l iv run])
    fix u assume p: "poll_phase os l (w\<lparr>cur_tid := thread_id (loops w l)\<rparr>) = Inr u"
    have o1: "owed l [] c (w\<lparr>cur_tid := thread_id (loops w l)\<rparr>)"
      by (rule owed_still [OF o]) (simp_all add: queued_def queue_of_def)
    have "lives {} {} (w\<lparr>cur_tid := thread_id (loops w l)\<rparr>) u" "settled (w\<lparr>cur_tid := thread_id (loops w l)\<rparr>) u"
      using poll_phase_still [OF p] by (simp_all add: still_def)
    then show "owed l [] c u"
      using owed_step [OF o1 lives_untold settled_retires poll_phase_grows [OF p]] by (simp add: settled_def)
  next
    fix f B H u u' assume x: "safe v opn l (f # B) H u" "lived {} l (f # B) u" "l < fresh_loop u"
        "isInLoopThread (cur_tid u) (loops u l)" "owed l (f # B) c u" "run_functor os A app f u = Inr u'"
    show "owed l B c u'" by (rule run_functor_owed [OF k app x(1,3,4,2,6,5)])
  qed (use vec run_handler_owed [OF k app] in blast)+
  show ?thesis
    by (rule owed_still [OF u])
       (auto simp: w' release_functors_keeps upd_loop_def queued_def queue_of_def split: if_split_asm)
qed

lemma owed_no_vector: "owed l [] c w \<longleftrightarrow> owed m [] c w"
  by (simp add: owed_def queued_def queue_of_def)

end
