(* ===== verification/Contract.thy ===== *)
theory Contract
  imports Farewell Safety
begin

text \<open>
  The contract of \<open>Lifecycle\<close> for whole runs: any turns of the loops of a process, and what every turn
  keeps (\<open>turns_keep\<close>) carried through \<open>loop\<close> and through the example program from the first line of its
  \<open>main\<close>.
\<close>

section \<open>Turns and the while loop\<close>

text \<open>Both invariants of the contract: its phases, and that who was told down is on the way out.\<close>

definition orderly :: "'k world \<Rightarrow> bool" where
  "orderly w \<longleftrightarrow> lived {} 0 [] w \<and> (\<forall>c. owed 0 [] c w)"

lemma orderlyD:
  assumes "orderly w"
  shows "lived {} l [] w" and "owed l [] c w"
  using assms lived_no_vector owed_no_vector unfolding orderly_def by blast+

lemma orderly_still:
  fixes w w' :: "'k world"
  assumes "orderly w" and "trace w' = trace w" and "conns w' = conns w" and "server w' = server w"
    and "fresh_conn w' = fresh_conn w" and "fresh_loop w' = fresh_loop w" and "\<And>l. pending (loops w' l) = pending (loops w l)"
  shows "orderly w'"
proof -
  have "still w w'" using assms(2-7) by (simp add: still_def settled_def lives_same)
  then have "lived {} 0 [] w'" using still_lived [OF orderlyD(1) [OF assms(1)]] by blast
  moreover have "owed 0 [] c w'" for c
    by (rule owed_still [OF orderlyD(2) [OF assms(1)] assms(2,5,4)]) (simp add: queued_def queue_of_def assms(6,7))
  ultimately show ?thesis by (simp add: orderly_def)
qed

definition sane :: "('k \<Rightarrow> interest_view) \<Rightarrow> ('k \<Rightarrow> int set) \<Rightarrow> nat \<Rightarrow> 'k world \<Rightarrow> bool" where
  "sane v opn N w \<longleftrightarrow> healthy v opn w \<and> orderly w \<and> fresh_loop w = N"

lemma saneD:
  assumes "sane v opn N w"
  shows "healthy v opn w" and "fresh_loop w = N" and "lived {} l [] w" and "owed l [] c w"
  using assms orderlyD unfolding sane_def by blast+

lemma turn_sane:
  assumes k: "kernel_ok os v opn" and app: "app_ok app" and s: "sane v opn N w" and l: "l < N"
    and run: "loop_turn os A app l w = Inr w'"
  shows "sane v opn N w'"
proof -
  note N = saneD(2) [OF s]
  have l': "l < fresh_loop w" using l N by simp
  note T = k app saneD(1) [OF s] l' saneD(3) [OF s] run
  have "lived {} l [] w'" by (rule loop_turn_lived [OF T])
  moreover have "owed l [] c w'" for c by (rule turn_owed [OF T saneD(4) [OF s]])
  ultimately have "orderly w'" unfolding orderly_def using lived_no_vector owed_no_vector by blast
  then show ?thesis using sound_Inr [OF loop_turn_sound [OF T(1-4)] run] N by (simp add: sane_def)
qed

lemma turns_sane:
  assumes k: "kernel_ok os v opn" and app: "app_ok app" and s: "sane v opn N w" and ls: "set ls \<subseteq> {..<N}"
    and run: "fold_res (loop_turn os A app) ls w = Inr w'"
  shows "sane v opn N w'"
  by (rule fold_res_invariant [OF run]) (use s ls turn_sane [OF k app] in auto)

text \<open>What holds at every turn of a loop holds when the loop is left, if the turns, the changes of its
  flags and the other threads keep it.\<close>

definition others_keep ::
  "('k \<Rightarrow> interest_view) \<Rightarrow> ('k \<Rightarrow> int set) \<Rightarrow> ('k world \<Rightarrow> bool) \<Rightarrow> ('k world \<Rightarrow> 'k world) \<Rightarrow> bool" where
  "others_keep v opn I others \<longleftrightarrow> others_ok v opn others \<and> (\<forall>w. healthy v opn w \<and> I w \<longrightarrow> I (others w))"

definition turns_keep ::
  "'k os \<Rightarrow> ('k \<Rightarrow> interest_view) \<Rightarrow> ('k \<Rightarrow> int set) \<Rightarrow> alloc \<Rightarrow> 'k world app \<Rightarrow> ('k world \<Rightarrow> bool) \<Rightarrow> bool" where
  "turns_keep os v opn A app I \<longleftrightarrow> kernel_ok os v opn \<and> app_ok app
     \<and> (\<forall>l w w'. healthy v opn w \<and> l < fresh_loop w \<and> I w \<and> loop_turn os A app l w = Inr w' \<longrightarrow> I w')
     \<and> (\<forall>l g w. (\<forall>lp. poller (g lp) = poller lp \<and> pending (g lp) = pending lp) \<and> I w \<longrightarrow> I (upd_loop l g w))"

lemma turns_keepD:
  assumes "turns_keep os v opn A app I"
  shows "kernel_ok os v opn" and "app_ok app"
    and "healthy v opn w \<Longrightarrow> l < fresh_loop w \<Longrightarrow> I w \<Longrightarrow> loop_turn os A app l w = Inr w' \<Longrightarrow> I w'"
    and "(\<And>lp. poller (g lp) = poller lp \<and> pending (g lp) = pending lp) \<Longrightarrow> I w \<Longrightarrow> I (upd_loop l g w)"
  using assms unfolding turns_keep_def by blast+

lemma orderly_kept:
  assumes k: "kernel_ok os v opn" and app: "app_ok app"
  shows "turns_keep os v opn A app orderly"
proof -
  have "orderly w'" if w: "healthy v opn w" "l < fresh_loop w" "orderly w" "loop_turn os A app l w = Inr w'" for l w w'
    using turn_sane [OF k app _ w(2,4)] w(1,3) by (simp add: sane_def)
  moreover have "orderly (upd_loop l g w)" if "\<forall>lp. poller (g lp) = poller lp \<and> pending (g lp) = pending lp" "orderly w" for l g w
    by (rule orderly_still [OF that(2)]) (simp_all add: upd_loop_def that(1))
  ultimately show ?thesis using k app unfolding turns_keep_def by blast
qed

lemma loop_while_keeps:
  assumes t: "turns_keep os v opn A app I" and o: "others_keep v opn I others"
    and "healthy v opn w" and "l < fresh_loop w" and "I w"
    and "loop_while os A app others l n w = Inr (Some w')"
  shows "I w'"
  using assms(3-)
proof (induction n arbitrary: w)
  case (Suc n)
  show ?case
  proof (cases "quit_flag (loops w l)")
    case False
    then obtain w1 where w1: "loop_turn os A app l w = Inr w1" "loop_while os A app others l n (others w1) = Inr (Some w')"
      using Suc.prems(4) by (auto simp: res_iff)
    have "healthy v opn w1" "fresh_loop w1 = fresh_loop w"
      using sound_Inr [OF loop_turn_sound [OF turns_keepD(1,2) [OF t] Suc.prems(1,2)] w1(1)] by blast+
    moreover have "I w1" by (rule turns_keepD(3) [OF t Suc.prems(1-3) w1(1)])
    ultimately have "healthy v opn (others w1)" "fresh_loop w \<le> fresh_loop (others w1)" "I (others w1)"
      using o unfolding others_keep_def others_ok_def by fastforce+
    then show ?thesis using Suc.IH [OF _ _ _ w1(2)] Suc.prems(2) by simp
  qed (use Suc.prems in simp)
qed simp

lemma EventLoop_loop_keeps:
  assumes t: "turns_keep os v opn A app I" and o: "others_keep v opn I others"
    and h: "healthy v opn w" and l: "l < fresh_loop w" and iv: "I w"
    and run: "EventLoop_loop os A app others fuel l w = Inr (Some w')"
  shows "I w'"
proof -
  let ?w = "upd_loop l (\<lambda>lp. lp\<lparr>looping := True, quit_flag := False\<rparr>) w"
  obtain w1 where w1: "loop_while os A app others l fuel ?w = Inr (Some w1)"
      and w': "w' = upd_loop l (\<lambda>lp. lp\<lparr>looping := False\<rparr>) w1"
    using run by (auto simp: EventLoop_loop_def res_iff)
  have "healthy v opn ?w" by (rule flags_healthy [OF h]) simp_all
  moreover have "I ?w" by (rule turns_keepD(4) [OF t _ iv]) simp
  moreover have "l < fresh_loop ?w" using l by (simp add: upd_loop_def)
  ultimately have "I w1" using loop_while_keeps [OF t o _ _ _ w1] by blast
  then show ?thesis unfolding w' by (intro turns_keepD(4) [OF t]) simp_all
qed

section \<open>Before the first connection\<close>

definition blank :: "'k world \<Rightarrow> bool" where
  "blank w \<longleftrightarrow> conns w = (\<lambda>_. None) \<and> fresh_conn w = 0 \<and> (\<forall>ob \<in> set (trace w). about ob = None)"

lemma blank_lived: "blank w \<Longrightarrow> lived {} l B w"
proof -
  assume b: "blank w"
  have "life_run c Unborn obs = Some Unborn" if "\<forall>ob \<in> set obs. about ob = None" for c obs
    using that by (induction obs) auto
  then show ?thesis using b by (auto simp: blank_def lived_def life_ok_def phase_at_def)
qed

lemma blank_orderly: "blank w \<Longrightarrow> orderly w"
  using blank_lived by (fastforce simp: orderly_def owed_def told_down_def blank_def)

lemma tells_nobody: "tells {} ob \<longleftrightarrow> about ob = None"
  by (cases ob) auto

lemma blank_lives:
  assumes b: "blank w" and l: "lives {} {} w w'" and f: "fresh_conn w' = fresh_conn w"
  shows "blank w'"
proof -
  have "conns w' c = None" for c
    using b l by (auto simp: blank_def lives_def dest: spec [of _ c])
  moreover have "\<forall>ob \<in> set (trace w'). about ob = None"
    using b l by (auto simp: blank_def lives_def adds_def tells_nobody)
  ultimately show ?thesis using b f by (auto simp: blank_def)
qed

lemma blank_same:
  "blank w \<Longrightarrow> conns w' = conns w \<Longrightarrow> fresh_conn w' = fresh_conn w \<Longrightarrow> trace w' = trace w \<Longrightarrow> blank w'"
  by (simp add: blank_def)

lemma call_init_blank:
  assumes "app_ok app" and "blank w" and "call_init os A app cb l w = Inr w'"
  shows "blank w'"
proof (rule blank_lives [OF assms(2)])
  have run: "run_actions os A (on_init app cb w l) (note_call (CalledInit cb l) w) = Inr w'"
    using assms(3) by (simp add: call_init_def)
  have "acts_ok None (fresh_loop w) 0 (good_str w) (on_init app cb w l)" using assms(1) by (simp add: app_ok_def)
  from user_lives [OF run this] show "lives {} {} w w'" by simp
  show "fresh_conn w' = fresh_conn w" using noted_actions_evolve [OF run] evolves_world by blast
qed

lemma spawn_loop_blank:
  fixes w w' :: "'k world"
  assumes app: "app_ok app" and b: "blank w" and run: "spawn_loop os A getenv app cb name w = Inr (l, t, w')"
  shows "blank w'"
proof -
  obtain t0 wn where n: "EventLoopThread_new cb name w = (t0, wn)" by fastforce
  define w0 where "w0 = wn\<lparr>cur_tid := fresh_tid wn, fresh_tid := fresh_tid wn + 1\<rparr>"
  have t0: "elt_init_callback t0 = cb" and b0: "blank w0"
    using n b by (auto simp: w0_def blank_def EventLoopThread_new_def split: prod.splits)
  obtain w2 where pro: "threadFunc_prologue os A getenv app cb w0 = Inr (l, w2)" and w': "w' = w2\<lparr>cur_tid := cur_tid wn\<rparr>"
    using run t0 by (auto simp: spawn_loop_def startLoop_def n res_iff Let_def w0_def)
  obtain k ts lp where lp: "EventLoop_new os getenv (fresh_loop w0) (cur_tid w0) (kern w0, tls w0) = Inr (k, ts, lp)"
    using pro by (auto simp: threadFunc_prologue_def res_iff Let_def)
  define w1 where "w1 = w0\<lparr>kern := k, tls := ts, loops := (loops w0)(fresh_loop w0 := lp), fresh_loop := fresh_loop w0 + 1\<rparr>"
  have "(case cb of None \<Rightarrow> Inr w1 | Some i \<Rightarrow> call_init os A app i (fresh_loop w0) w1) = Inr w2"
    using pro by (cases cb) (auto simp: threadFunc_prologue_def Let_def lp w1_def res_iff)
  moreover have "blank w1" using b0 by (simp add: w1_def blank_def)
  ultimately have "blank w2" using call_init_blank [OF app] by (auto split: option.splits)
  then show ?thesis by (simp add: w' blank_def)
qed

lemma server_start_blank:
  assumes app: "app_ok app" and b: "blank w" and run: "server_start os A getenv app w = Inr w'"
  shows "blank w'"
proof -
  obtain sv where sv: "server w = Some sv" using run by (auto simp: server_start_def with_server_def split: option.splits)
  show ?thesis
  proof (cases "srv_started sv = 0")
    case False
    then show ?thesis using run sv b by (auto simp: server_start_def with_server_def blank_def)
  next
    case True
    obtain p w1 w2 where f: "fold_res (pool_add (spawn_loop os A getenv app (thread_init_callback sv)))
          [0 ..< nat (thread_num (srv_pool sv))]
          ((srv_pool sv)\<lparr>pool_started := True\<rparr>, w\<lparr>server := Some (sv\<lparr>srv_started := 1\<rparr>)\<rparr>) = Inr (p, w1)"
        and i: "w2 = w1 \<or> (\<exists>cb l. call_init os A app cb l w1 = Inr w2)"
        and r: "runLoopCallback (cur_tid w2) (loops w2 (srv_loop sv)) (\<lambda>_. server_listen os)
          (net_push os (srv_loop sv)) FListen (w2\<lparr>server := map_option (\<lambda>sv. sv\<lparr>srv_pool := p\<rparr>) (server w2)\<rparr>) = Inr w'"
      by (rule server_start_parts [OF run sv True])
    have "blank (snd (p, w1))"
    proof (rule fold_res_invariant [OF f, where P = "\<lambda>x. blank (snd x)"])
      fix i s s' assume "blank (snd s)" "pool_add (spawn_loop os A getenv app (thread_init_callback sv)) i s = Inr s'"
      then show "blank (snd s')"
        using spawn_loop_blank [OF app] by (cases s) (auto simp: pool_add_def Let_def res_iff)
    qed (use b in \<open>simp add: blank_def\<close>)
    then have "blank w2" using i call_init_blank [OF app] by auto
    then have bw: "blank (w2\<lparr>server := map_option (\<lambda>sv. sv\<lparr>srv_pool := p\<rparr>) (server w2)\<rparr>)" (is "blank ?w")
      by (simp add: blank_def)
    have "blank (net_push os l FListen ?w)" for l
    proof (rule blank_lives [OF bw net_push_lives])
      show "fresh_conn (net_push os l FListen ?w) = fresh_conn ?w" using evolves_world net_push_evolves by blast
    qed simp
    moreover have "blank u" if "server_listen os ?w = Inr u" for u
      using listen_still [OF that] blank_lives [OF bw, of u] by (simp add: still_def settled_def)
    ultimately show ?thesis using r by (auto simp: runLoopCallback_def split: if_split_asm)
  qed
qed

lemma EchoServer_new_blank:
  assumes "EchoServer_new os lo addr name w = Inr w'" and "blank w"
  shows "blank w'"
  using assms by (auto simp: EchoServer_new_def TcpServer_new_def res_iff blank_def)

lemma echo_main_keeps:
  assumes t: "turns_keep os v opn A echo_app I" and env: "plain_env getenv" and o: "others_keep v opn I others"
    and w: "process_start w" and b: "blank w" and start: "\<And>u. blank u \<Longrightarrow> I u"
    and run: "echo_main os A getenv inet_addr others fuel w = Inr (Some w')"
  shows "I w'"
proof -
  note k = turns_keepD(1) [OF t]
  let ?addr = "InetAddress_new inet_addr 8002 ''127.0.0.1''"
  have fl: "fresh_loop w = 0" using w by (simp add: process_start_def)
  obtain k1 ts lp w2 w3 where lp: "EventLoop_new os getenv 0 (cur_tid w) (kern w, tls w) = Inr (k1, ts, lp)"
      and w2: "EchoServer_new os (Some 0) ?addr ''EchoServer'' (add_loop k1 ts lp w) = Inr w2"
      and w3: "server_start os A getenv echo_app w2 = Inr w3"
      and loop: "EventLoop_loop os A echo_app others fuel 0 w3 = Inr (Some w')"
    using run by (auto simp: echo_main_def Let_def add_loop_def fl res_iff EchoServer_start_def)
  have m: "loop_made v opn (kern w) 0 k1 lp" using sound_Inr [OF EventLoop_new_sound [OF k env] lp] by simp
  have bare: "bare v opn (add_loop k1 ts lp w)" by (rule add_loop_bare) (use m fl start_bare [OF w] in auto)
  have l: "0 < fresh_loop (add_loop k1 ts lp w)" by simp
  obtain sv where s2: "safe v opn 0 [] {} w2" "fresh_loop w2 = fresh_loop (add_loop k1 ts lp w)" "server w2 = Some sv"
      "srv_pool sv = setPoolSize 1 (ThreadPool_new 0 ''EchoServer'')"
    using sound_Inr [OF echo_server_sound [OF k bare l] w2] by blast
  have "blank (add_loop k1 ts lp w)" using b by (simp add: blank_def add_loop_def)
  then have "blank w3" using server_start_blank [OF echo_app_ok _ w3] EchoServer_new_blank [OF w2] by blast
  moreover have "safe v opn 0 [] {} w3 \<and> fresh_loop w2 \<le> fresh_loop w3"
    using sound_Inr [OF server_start_sound [OF k echo_app_ok env s2(1,3,4)] w3] .
  ultimately show ?thesis
    using EventLoop_loop_keeps [OF t o _ _ _ loop] start [of w3] l s2(2) by (simp add: healthy_def)
qed

section \<open>Properties\<close>

text \<open>What a phase says of a connection that exists, and of one that does not.\<close>

definition phase_fits :: "'k world \<Rightarrow> nat \<Rightarrow> phase \<Rightarrow> bool" where
  "phase_fits w c p \<longleftrightarrow>
     (case conns w c of
        None \<Rightarrow> p = (if c < fresh_conn w then Down else Unborn)
      | Some cn \<Rightarrow>
          (case p of
             Unborn \<Rightarrow> tc_state cn = kConnecting \<and> in_table c (server w)
           | Up \<Rightarrow> tc_state cn \<noteq> kConnecting \<and> in_table c (server w)
           | Down \<Rightarrow> tc_state cn = kDisconnected))"

definition on_its_way_out :: "nat \<Rightarrow> 'k world \<Rightarrow> bool" where
  "on_its_way_out c w \<longleftrightarrow> \<not> in_table c (server w) \<or> (\<exists>l < fresh_loop w. FRemoveConnection c \<in> set (pending (loops w l)))"

lemma orderly_fits:
  assumes s: "healthy v opn w" and o: "orderly w"
  shows "\<exists>p. life_run c Unborn (trace w) = Some p \<and> phase_fits w c p \<and> (told_down c w \<longrightarrow> on_its_way_out c w)"
proof -
  obtain p where p: "phase_at c w = Some p" "life_ok {} 0 [] w c p" using orderlyD(1) [OF o] by (rule lived_phase)
  have "phase_fits w c p"
  proof (cases "conns w c")
    case None
    then show ?thesis using p(2) by (simp add: phase_fits_def life_ok_def)
  next
    case (Some cn)
    note ok = life_okD [OF p(2) Some] and st = safe_stage(1) [OF s [unfolded healthy_def] Some]
    show ?thesis
      using ok(1-4) st by (cases p) (auto simp: phase_fits_def Some stage_ok_def state_orders)
  qed
  moreover have "told_down c w \<longrightarrow> on_its_way_out c w"
    using orderlyD(2) [OF o, of 0 c] by (auto simp: owed_def on_its_way_out_def retired_def queued_def queue_of_def)
  ultimately show ?thesis using p(1) by (auto simp: phase_at_def)
qed

text \<open>C4. The callbacks of every connection keep the contract of \<open>life_step\<close>, in whatever order the loops take
  their turns and whatever the user does in them: the first one says that the connection is up and no
  other does; none comes before it; a connection told down is never told up again and stays
  \<open>kDisconnected\<close>; and a connection is taken out of the table or destroyed only after it was told down.
  Conversely, one that was told down is out of the table, or its removal is queued. It starts from any
  state in which this is so (\<open>orderly\<close>), and ends in one.\<close>

theorem callbacks_keep_contract:
  assumes "kernel_ok os v opn" and "app_ok app" and "healthy v opn w" and "orderly w"
    and "set ls \<subseteq> {..<fresh_loop w}" and "fold_res (loop_turn os A app) ls w = Inr w'"
  shows "orderly w'
    \<and> (\<exists>p. life_run c Unborn (trace w') = Some p \<and> phase_fits w' c p \<and> (told_down c w' \<longrightarrow> on_its_way_out c w'))"
proof -
  have "sane v opn (fresh_loop w) w" using assms(3,4) by (simp add: sane_def)
  then have "sane v opn (fresh_loop w) w'" using turns_sane [OF assms(1,2) _ assms(5,6)] by blast
  then show ?thesis using orderly_fits unfolding sane_def by blast
qed

definition told_world :: "toy world" where
  "told_world = quiet_world\<lparr>trace := [CalledConnection kOnConnection 0 True]\<rparr>"

lemma told_healthy: "healthy interest checked_open told_world"
  unfolding healthy_def told_world_def
  by (rule inert_safe [OF quiet_healthy [unfolded healthy_def]])
     (simp_all add: inert_def same_queues_def epfd_def chans_def seen_def fun_eq_iff option.rel_refl cong: option.case_cong)

lemma told_lived: "lived {} 0 [] told_world"
proof -
  have q: "\<not> queued 0 [] told_world f" for f
    by (simp add: queued_def queue_of_def told_world_def quiet_world_def demo_world_def demo_loop_def)
  have "conns told_world c = (if c = 0 then Some demo_conn else None)" "fresh_conn told_world = 1" for c
    by (simp_all add: told_world_def quiet_world_def demo_world_def)
  moreover have "in_table 0 (server told_world)"
    by (simp add: told_world_def quiet_world_def demo_world_def demo_server_def in_table_def)
  moreover have "tc_state demo_conn = kConnected" by (simp add: demo_conn_def)
  ultimately have "life_ok {} 0 [] told_world c (if c = 0 then Up else Unborn)" for c
    by (simp add: life_ok_def awaiting_def parting_def q state_orders)
  moreover have "phase_at c told_world = Some (if c = 0 then Up else Unborn)" for c
    by (simp add: phase_at_def told_world_def)
  ultimately show ?thesis unfolding lived_def by blast
qed

lemma told_orderly: "orderly told_world"
proof -
  have "\<not> told_down c told_world" for c by (auto simp: told_down_def told_world_def)
  then show ?thesis using told_lived by (simp add: orderly_def owed_def)
qed

theorem callbacks_keep_contract_witness:
  "\<exists>w'. fold_res (loop_turn checked_os libstdcxx echo_app) [0] told_world = Inr w'
    \<and> (\<exists>p. life_run 0 Unborn (trace w') = Some p \<and> phase_fits w' 0 p)"
proof -
  have "happening (kern told_world) = []" "poller (loops told_world 0) = poller demo_loop" "pending (loops told_world 0) = []"
    using quiet_world_quiet by (simp_all add: told_world_def)
  then obtain w' where "loop_turn checked_os libstdcxx echo_app 0 told_world = Inr w'"
    using quiet_turn quiet_world_quiet(3) by fastforce
  then have run: "fold_res (loop_turn checked_os libstdcxx echo_app) [0] told_world = Inr w'" by simp
  have l: "set [0] \<subseteq> {..<fresh_loop told_world}" by (simp add: told_world_def quiet_world_def demo_world_def)
  from callbacks_keep_contract [OF checked_kernel_ok echo_app_ok told_healthy told_orderly l run, of 0] run
  show ?thesis by blast
qed

lemma turn_of_keeps:
  assumes t: "turns_keep os v opn A app I"
  shows "others_keep v opn I (turn_of os A app l)"
proof -
  have "I (turn_of os A app l w)" if "healthy v opn w" "I w" for w
    using turns_keepD(3) [OF t that(1) _ that(2)] that(2) by (auto simp: turn_of_def split: sum.split)
  then show ?thesis using turn_of_ok [OF turns_keepD(1,2) [OF t]] by (simp add: others_keep_def)
qed

end
