(* ===== verification/Callbacks.thy ===== *)
theory Callbacks
  imports Contract
begin

text \<open>
  Calls of empty functions. A \<open>std::function\<close> that was never set throws \<open>bad_function_call\<close> when it is
  called, and no class of the library tests its callbacks before a call, except for the optional ones.
  \<open>no_call\<close>: an operation does not end in that exception; it holds for all that call no user function,
  whatever the system does and in any state. \<open>dressed\<close>: a process whose server and connections have
  their functions set; the operations that call them keep it, from the constructor of the example
  server on. Nothing is assumed of the system or of user code, so these facts add to those of \<open>Safety\<close>.
\<close>

section \<open>Operations that call no function\<close>

abbreviation filled :: "('a \<Rightarrow> bool) \<Rightarrow> 'a res \<Rightarrow> bool" where
  "filled \<equiv> outcome (\<lambda>e. e \<noteq> BadFunctionCall)"

definition no_call :: "'a res \<Rightarrow> bool" where
  "no_call r \<longleftrightarrow> r \<noteq> Inl BadFunctionCall"

named_theorems silent \<open>operations that call no user function\<close>

lemma no_call_simps [simp]:
  "no_call (Inr x)" "no_call (Inl e) \<longleftrightarrow> e \<noteq> BadFunctionCall"
  by (simp_all add: no_call_def)

lemma no_call_bind [simp]:
  "no_call (bind_res m f) \<longleftrightarrow> no_call m \<and> (\<forall>x. m = Inr x \<longrightarrow> no_call (f x))"
  by (cases m) simp_all

lemma no_call_if [simp]: "no_call (if b then r else s) \<longleftrightarrow> (b \<longrightarrow> no_call r) \<and> (\<not> b \<longrightarrow> no_call s)"
  by simp

lemma filled_run: "no_call r \<Longrightarrow> (\<And>x. r = Inr x \<Longrightarrow> P x) \<Longrightarrow> filled P r"
  by (cases r) simp_all

lemma filled_no_call: "filled P r \<Longrightarrow> no_call r"
  by (cases r) simp_all

lemma bytes_silent [silent]: "no_call (bytes_read i n m)" "no_call (bytes_write i d m)"
  by (simp_all add: bytes_read_def bytes_write_def)

lemma buffer_silent [silent]:
  "no_call (vec_resize A n b)" "no_call (buffer_new A n)" "no_call (buffer_get n b)" "no_call (buffer_getAll b)"
  "no_call (makeSpace A n b)" "no_call (checkBuffer A n b)" "no_call (buffer_put A d b)"
  "no_call (buffer_write f k b)"
proof -
  show vr: "no_call (vec_resize A n b)" for n b by (simp add: vec_resize_def)
  show "no_call (buffer_new A n)" by (simp add: buffer_new_def vr)
  show bg: "no_call (buffer_get n b)" for n by (simp add: buffer_get_def silent)
  show "no_call (buffer_getAll b)" by (simp add: buffer_getAll_def bg)
  show ms: "no_call (makeSpace A n b)" for n by (simp add: makeSpace_def Let_def vr silent)
  show cb: "no_call (checkBuffer A n b)" for n by (simp add: checkBuffer_def ms)
  show "no_call (buffer_put A d b)" by (simp add: buffer_put_def cb silent)
  show "no_call (buffer_write f k b)" by (simp add: buffer_write_def silent)
qed

lemma buffer_read_silent [silent]: "no_call (buffer_absorb A d b)" "no_call (buffer_read A f k b)"
proof -
  show ba: "no_call (buffer_absorb A d b)" for d by (simp add: buffer_absorb_def Let_def silent)
  show "no_call (buffer_read A f k b)" by (simp add: buffer_read_def ba split: prod.split sum.split)
qed

lemma poller_silent [silent]:
  "no_call (epoll_update os op p s)" "no_call (updateChannel os p s)" "no_call (removeChannel os p s)"
  "no_call (loop_updateChannel os p s')" "no_call (loop_removeChannel os p s')"
proof -
  show eu: "no_call (epoll_update os op p s)" for op s
    by (simp add: epoll_update_def split: prod.split sum.split)
  show u: "no_call (updateChannel os p s)" for s by (simp add: updateChannel_def Let_def eu split: prod.split)
  show r: "no_call (removeChannel os p s)" for s by (simp add: removeChannel_def Let_def eu split: prod.split)
  show "no_call (loop_updateChannel os p s')" by (simp add: loop_updateChannel_def u split: prod.split option.split)
  show "no_call (loop_removeChannel os p s')" by (simp add: loop_removeChannel_def r split: prod.split option.split)
qed

lemma conn_silent [silent]:
  "no_call (cx_update os c x ch)" "no_call (cx_remove os c x)"
  "no_call (sendInLoop os A c d x)" "no_call (handleWrite os c x)"
proof -
  show u: "no_call (cx_update os c x ch)" for x ch by (simp add: cx_update_def silent split: prod.split)
  show "no_call (cx_remove os c x)" by (simp add: cx_remove_def silent split: prod.split)
  show "no_call (sendInLoop os A c d x)"
    by (simp add: sendInLoop_def sendInLoop_queue_def Let_def silent u interest_defs split: prod.split)
  show "no_call (handleWrite os c x)"
    by (simp add: handleWrite_def Let_def silent u interest_defs split: prod.split sum.split)
qed

lemma in_conn_silent: "(\<And>x. no_call (f x)) \<Longrightarrow> no_call (in_conn c f w)"
  by (simp add: in_conn_def split: option.split)

lemma upd_conn_silent: "(\<And>x. no_call (f x)) \<Longrightarrow> no_call (upd_conn c f w)"
  by (simp add: upd_conn_def split: option.split)

lemma run_conn_functor_silent [silent]: "no_call (run_conn_functor os A f w)"
  by (auto simp: run_conn_functor_def silent intro!: in_conn_silent split: Functor.split option.split)

lemma perform_silent [silent]: "no_call (perform os A a w)"
  by (cases a)
     (auto simp: tcp_send_def tcp_shutdown_def runLoopCallback_def silent Let_def
      intro!: in_conn_silent upd_conn_silent split: option.split prod.split)

lemma fold_silent: "(\<And>x s. no_call (f x s)) \<Longrightarrow> no_call (fold_res f xs s)"
  by (induction xs arbitrary: s) simp_all

lemma run_actions_silent [silent]: "no_call (run_actions os A as w)"
  by (simp add: run_actions_def fold_silent silent)

section \<open>A process whose functions are set\<close>

definition dressed_conn :: "tcp_connection \<Rightarrow> bool" where
  "dressed_conn cn \<longleftrightarrow> conn_callback cn \<noteq> None \<and> msg_callback cn \<noteq> None \<and> close_callback cn = Some kRemoveConnection"

definition dressed :: "'k world \<Rightarrow> bool" where
  "dressed w \<longleftrightarrow> (\<forall>c cn. conns w c = Some cn \<longrightarrow> dressed_conn cn)
     \<and> (\<forall>sv. server w = Some sv \<longrightarrow> srv_conn_callback sv \<noteq> None \<and> srv_msg_callback sv \<noteq> None)"

lemma dressed_evolves:
  assumes "evolves w w'" and "dressed w"
  shows "dressed w'"
proof -
  have "dressed_conn cn'" if "conns w' c = Some cn'" for c cn'
    using assms(2) evolves_conn_back [OF assms(1) that] by (auto simp: dressed_def dressed_conn_def same_conn_def)
  then show ?thesis using assms(2) evolves_world(1) [OF assms(1)] by (simp add: dressed_def)
qed

lemma dressed_same:
  "dressed w \<Longrightarrow> conns w' = conns w \<Longrightarrow> server w' = server w \<Longrightarrow> dressed w'"
  by (simp add: dressed_def)

lemma filled_evolves:
  "dressed w \<Longrightarrow> no_call r \<Longrightarrow> (\<And>w'. r = Inr w' \<Longrightarrow> evolves w w') \<Longrightarrow> filled dressed r"
  by (rule filled_run) (blast intro: dressed_evolves)+

lemma noted_filled: "dressed w \<Longrightarrow> filled dressed (run_actions os A as (note_call ob w))"
  by (rule filled_evolves) (auto simp: silent intro: noted_actions_evolve)

lemma dressed_conns: "dressed w \<Longrightarrow> conns w c = Some cn \<Longrightarrow> dressed_conn cn"
  by (simp add: dressed_def)

lemma call_connection_filled: "dressed w \<Longrightarrow> filled dressed (call_connection os A app c w)"
  using noted_filled by (auto simp: call_connection_def dressed_conn_def split: option.split dest: dressed_conns)

lemma call_message_filled: "dressed w \<Longrightarrow> filled dressed (call_message os A app c t w)"
  using noted_filled by (auto simp: call_message_def dressed_conn_def split: option.split dest: dressed_conns)

lemma in_conn_filled:
  "dressed w \<Longrightarrow> (\<And>x. no_call (f x)) \<Longrightarrow> (\<And>x x'. f x = Inr x' \<Longrightarrow> cx_grows x x') \<Longrightarrow> filled dressed (in_conn c f w)"
  by (rule filled_evolves) (auto intro: in_conn_silent in_conn_evolves)

lemma set_state_filled:
  "dressed w \<Longrightarrow> filled dressed (in_conn c (\<lambda>x. cx_update os c (cx_setState st x) (g x)) w)"
  by (rule in_conn_filled) (auto simp: silent dest: cx_update_grows)

lemma connEstablish_filled: "dressed w \<Longrightarrow> filled dressed (connEstablish os A app c w)"
  unfolding connEstablish_def Let_def interest_defs
  by (rule outcome_bind [OF set_state_filled call_connection_filled])

lemma disable_filled:
  "dressed w \<Longrightarrow> filled dressed (in_conn c (\<lambda>x. let x = cx_setState kDisconnected x in
      disableAllEvent (cx_update os c x) (tc_channel (cx_conn x))) w)"
  unfolding Let_def interest_defs by (rule set_state_filled)

lemma connDestory_filled:
  assumes "dressed w"
  shows "filled dressed (connDestory os A app c w)"
proof -
  have "filled dressed (in_conn c (cx_remove os c) u)" if "dressed u" for u :: "'a world"
    by (rule filled_evolves [OF that]) (auto simp: silent intro!: in_conn_silent intro: in_conn_evolves cx_remove_grows)
  then show ?thesis
    using assms by (auto simp: connDestory_def split: option.split
        intro!: outcome_bind disable_filled call_connection_filled)
qed

section \<open>The server\<close>

lemma dressed_server:
  "dressed w \<Longrightarrow> server w = Some sv \<Longrightarrow> srv_conn_callback sv' = srv_conn_callback sv \<Longrightarrow>
     srv_msg_callback sv' = srv_msg_callback sv \<Longrightarrow> dressed (w\<lparr>server := Some sv'\<rparr>)"
  by (simp add: dressed_def)

lemma net_push_dressed: "dressed w \<Longrightarrow> dressed (net_push os l f w)"
  using dressed_evolves net_push_evolves by blast

lemma removeConnectionInLoop_filled:
  "dressed w \<Longrightarrow> filled dressed (removeConnectionInLoop os c w)"
  by (auto simp: removeConnectionInLoop_def with_server_def split: option.split intro!: net_push_dressed dressed_server)

lemma removeConnection_filled: "dressed w \<Longrightarrow> filled dressed (removeConnection os c w)"
  by (auto simp: removeConnection_def with_server_def runLoopCallback_def split: option.split
      intro: net_push_dressed removeConnectionInLoop_filled)

lemma handleClose_filled:
  assumes "dressed w"
  shows "filled dressed (handleClose os A app (closer os) c w)"
  unfolding handleClose_def
  by (rule outcome_bind [OF disable_filled [OF assms]], rule outcome_bind [OF call_connection_filled])
     (auto simp: closer_def dressed_conn_def removeConnection_filled split: option.split dest: dressed_conns)

lemma handleRead_filled:
  assumes d: "dressed w"
  shows "filled dressed (handleRead os A app (closer os) c t w)"
proof (cases "conns w c")
  case (Some cn)
  have u: "dressed (w\<lparr>kern := k, conns := (conns w)(c := Some (cn\<lparr>input_buffer := b\<rparr>))\<rparr>)" for k b
    using d Some by (auto simp: dressed_def dressed_conn_def)
  have e: "filled dressed (in_conn c (\<lambda>x. Inr (handleError os x)) w)" if "dressed w" for w :: "'a world"
    by (rule in_conn_filled [OF that]) (auto intro: handleError_grows)
  have "filled (\<lambda>_. True) (buffer_read A (sys_readv os (ch_fd (tc_channel cn))) (kern w) (input_buffer cn))"
    by (rule filled_run) (simp_all add: silent)
  then show ?thesis
    unfolding handleRead_def Some option.case
    by (rule outcome_bind)
       (auto simp: Let_def split: sum.split intro!: call_message_filled handleClose_filled e u)
qed (simp add: handleRead_def)

lemma release_dressed: "dressed w \<Longrightarrow> dressed (release os c w)"
  by (auto simp: dressed_def release_def TcpConnection_destroy_def split: option.splits)

lemma newConnection_filled:
  fixes w :: "'k world"
  assumes d: "dressed w"
  shows "filled dressed (newConnection os A app fd pa w)"
proof (cases "server w")
  case (Some sv)
  have hand: "filled dressed (runLoopCallback t lp (\<lambda>_. connEstablish os A app c) (net_push os l) f u)"
    if "dressed u" for t lp c l f and u :: "'k world"
    using that by (simp add: runLoopCallback_def connEstablish_filled net_push_dressed)
  have opt: "dressed (case old of None \<Rightarrow> u | Some x \<Rightarrow> release os x u)" if "dressed u" for old and u :: "'k world"
    using that by (simp add: release_dressed split: option.split)
  have new: "filled (\<lambda>_. True) (TcpConnection_new os A c (Some l) nm fd la pa k)" for c l nm la k
    by (rule filled_run) (simp_all add: TcpConnection_new_def CheckLoopNotNull_def Let_def silent)
  have next': "filled (\<lambda>_. True) (getNextLoop p)" for p :: "event_loop_thread thread_pool"
    by (simp add: getNextLoop_def)
  show ?thesis
    unfolding newConnection_def with_server_def Some option.case Let_def
    apply (rule outcome_bind [OF next'])
    apply (clarsimp split: prod.split)
    apply (rule outcome_bind [OF new])
    apply (clarsimp intro!: hand opt)
    using d Some
    apply (auto simp: dressed_def dressed_conn_def conn_setCloseCallback_def setWriteCompleteCallback_def
        setMessageCallback_def setConnectionCallback_def)
    done
qed (simp add: newConnection_def with_server_def)

section \<open>Turns\<close>

lemma accept_filled:
  assumes "dressed w"
  shows "filled dressed (acceptor_handleRead os kern (\<lambda>k w. w\<lparr>kern := k\<rparr>) (newConnection os A app) ac w)"
proof -
  have "dressed (u\<lparr>kern := k\<rparr>)" if "dressed u" for k and u :: "'a world"
    by (rule dressed_same [OF that]) simp_all
  then show ?thesis
    using assms by (auto simp: acceptor_handleRead_def Let_def intro!: newConnection_filled split: prod.split sum.split)
qed

lemma server_listen_filled:
  assumes "dressed w"
  shows "filled dressed (server_listen os w)"
proof (rule filled_run)
  show "no_call (server_listen os w)"
    by (simp add: server_listen_def with_server_def acceptor_listen_def socket_listen_def interest_defs Let_def silent
        split: option.split prod.split sum.split)
  show "dressed w'" if "server_listen os w = Inr w'" for w'
    using that assms by (auto simp: server_listen_def with_server_def res_iff Let_def dressed_def split: option.splits)
qed

lemma run_handler_filled:
  assumes d: "dressed w"
  shows "filled dressed (run_handler os A app t h w)"
proof (cases h)
  case (HAwake l)
  have "evolves w (on_loop l (awake os) w)" by (rule on_loop_evolves) (rule awake_grows)
  then show ?thesis using d dressed_evolves by (simp add: run_handler_def HAwake)
next
  case (HConnError c)
  have "filled dressed (in_conn c (\<lambda>x. Inr (handleError os x)) w)"
    by (rule in_conn_filled [OF d]) (auto intro: handleError_grows)
  then show ?thesis by (simp add: run_handler_def HConnError)
qed (use d in \<open>auto simp: run_handler_def with_server_def silent split: option.split
    intro!: accept_filled handleRead_filled handleClose_filled in_conn_filled handleWrite_grows\<close>)

lemma run_functor_filled: "dressed w \<Longrightarrow> filled dressed (run_functor os A app f w)"
proof (cases f)
  case (FSendInLoop c s n)
  assume "dressed w"
  then show ?thesis
    by (rule filled_evolves) (auto simp: FSendInLoop run_functor_def silent intro: run_conn_functor_evolves)
next
  case (FShutdownInLoop c)
  assume "dressed w"
  then show ?thesis
    by (rule filled_evolves) (auto simp: FShutdownInLoop run_functor_def silent intro: run_conn_functor_evolves)
qed (auto simp: run_functor_def intro: connEstablish_filled connDestory_filled server_listen_filled
    removeConnectionInLoop_filled noted_filled)

lemma call_if_filled: "dressed w \<Longrightarrow> filled dressed (call_if (run_handler os A app t) cb w)"
  by (simp add: call_if_def run_handler_filled split: option.split)

lemma handleEvent_filled: "dressed w \<Longrightarrow> filled dressed (handleEvent alive (run_handler os A app t) ch w)"
proof -
  assume d: "dressed w"
  have "filled dressed (handleEventWithGuard (run_handler os A app t) ch w)"
    unfolding handleEventWithGuard_def Let_def
    by (intro outcome_bind [where P = dressed]) (simp_all add: d call_if_filled)
  then show ?thesis using d by (simp add: handleEvent_def split: option.split)
qed

lemma handle_channel_filled:
  assumes "dressed w"
  shows "filled dressed (handle_channel os A app t p w)"
proof (cases p)
  case (ConnCh c)
  then show ?thesis
    using assms by (auto simp: handle_channel_def Let_def intro!: outcome_bind [OF handleEvent_filled] release_dressed
        split: option.split)
qed (use assms in \<open>auto simp: handle_channel_def Let_def with_server_def intro!: handleEvent_filled split: option.split\<close>)

lemma set_revents_filled:
  assumes "dressed w"
  shows "filled dressed (set_revents p ev w)"
  using assms by (cases p) (auto simp: set_revents_def with_server_def upd_conn_def dressed_def dressed_conn_def split: option.split)

lemma triggerChannels_filled:
  "dressed w \<Longrightarrow> filled (\<lambda>(w, cs). dressed w) (triggerChannels set_revents es active w)"
proof (induction es arbitrary: active w)
  case (Cons e es)
  then show ?case by (cases e) (auto intro: outcome_bind [OF set_revents_filled])
qed simp

lemma upd_loop_dressed: "dressed (upd_loop l g w) \<longleftrightarrow> dressed w"
  by (simp add: dressed_def upd_loop_def)

lemma poll_phase_filled:
  assumes d: "dressed w"
  shows "filled dressed (poll_phase os l w)"
proof -
  let ?w = "upd_loop l (\<lambda>lp. lp\<lparr>active_channels := []\<rparr>) w"
  have poll: "filled (\<lambda>_. True) (poller_poll os kPollWaitTime (kern ?w, po))" for po
    by (rule filled_run) (simp_all add: poller_poll_def split: prod.split sum.split)
  have w: "dressed (upd_loop l g (?w\<lparr>kern := k\<rparr>))" for g k
    using dressed_same [of w "?w\<lparr>kern := k\<rparr>"] d by (simp add: upd_loop_dressed) (simp add: upd_loop_def)
  show ?thesis
    unfolding poll_phase_def Let_def
    by (cases "poller (loops ?w l)")
       (auto intro!: outcome_bind [OF poll] outcome_bind [OF triggerChannels_filled] w simp: upd_loop_dressed)
qed

lemma run_pending_filled:
  assumes d: "dressed w"
  shows "filled dressed (run_pending os A app l w)"
proof -
  have r: "dressed (fold (release os) cs u)" if "dressed u" for cs and u :: "'a world"
    using that by (induction cs arbitrary: u) (simp_all add: release_dressed)
  have f: "filled dressed (fold_res (run_functor os A app) fs u)" if "dressed u" for fs and u :: "'a world"
    by (rule outcome_fold [where I = "\<lambda>_. dressed"]) (use that run_functor_filled in auto)
  show ?thesis
    unfolding run_pending_def executePendingFunctors_def Let_def bind_res_assoc
    by (rule outcome_bind [OF f]) (simp_all add: d upd_loop_dressed release_functors_def r)
qed

lemma loop_turn_filled:
  assumes "dressed w"
  shows "filled dressed (loop_turn os A app l w)"
proof -
  have d: "dressed (w\<lparr>cur_tid := t\<rparr>)" for t by (rule dressed_same [OF assms]) simp_all
  have h: "filled dressed (handle_phase os A app l u)" if "dressed u" for u :: "'a world"
    unfolding handle_phase_def
    by (rule outcome_fold [where I = "\<lambda>_. dressed"]) (use that handle_channel_filled in auto)
  show ?thesis
    unfolding loop_turn_def
    by (intro outcome_bind [OF poll_phase_filled [OF d]] outcome_bind [OF h] run_pending_filled)
qed

lemma turns_filled: "dressed w \<Longrightarrow> filled dressed (fold_res (loop_turn os A app) ls w)"
  by (rule outcome_fold [where I = "\<lambda>_. dressed"]) (auto intro: loop_turn_filled)

lemma loop_while_filled:
  assumes o: "\<And>u. dressed u \<Longrightarrow> dressed (others u)"
  shows "dressed w \<Longrightarrow> filled (\<lambda>r. \<forall>w'. r = Some w' \<longrightarrow> dressed w') (loop_while os A app others l n w)"
proof (induction n arbitrary: w)
  case (Suc n)
  then show ?case using o by (auto intro!: outcome_bind [OF loop_turn_filled])
qed simp

lemma EventLoop_loop_filled:
  assumes "\<And>u. dressed u \<Longrightarrow> dressed (others u)" and "dressed w"
  shows "filled (\<lambda>r. \<forall>w'. r = Some w' \<longrightarrow> dressed w') (EventLoop_loop os A app others fuel l w)"
  unfolding EventLoop_loop_def
  by (rule outcome_bind [OF loop_while_filled [OF assms(1)]]) (use assms(2) in \<open>auto simp: upd_loop_dressed\<close>)

section \<open>Starting\<close>

lemma start_silent [silent]:
  "no_call (EventLoop_new os getenv self i s)" "no_call (TcpServer_new os lo addr name opt w)"
proof -
  show "no_call (EventLoop_new os getenv self i s)"
    by (simp add: EventLoop_new_def newDefaultPoller_def EpollPoller_new_def createEventFd_def interest_defs Let_def silent
        split: prod.split sum.split)
  show "no_call (TcpServer_new os lo addr name opt w)"
    by (simp add: TcpServer_new_def CheckLoopNotNull_def Acceptor_new_def createNonblocking_def bindAddress_def
        getIpAndPort_text Let_def split: prod.split sum.split option.split)
qed

lemma call_init_filled: "dressed w \<Longrightarrow> filled dressed (call_init os A app cb l w)"
  unfolding call_init_def by (rule noted_filled)

lemma spawn_loop_filled:
  fixes w :: "'k world"
  assumes "dressed w"
  shows "filled (\<lambda>(l, t, w'). dressed w') (spawn_loop os A getenv app cb name w)"
proof -
  have new: "filled (\<lambda>_. True) (EventLoop_new os getenv self i s)" for self i and s :: "'k \<times> (int \<Rightarrow> nat option)"
    by (rule filled_run) (simp_all add: silent)
  have init: "filled dressed (case ic of None \<Rightarrow> Inr u | Some i \<Rightarrow> call_init os A app i l u)" if "dressed u" for ic l and u :: "'k world"
    by (cases ic) (use that in \<open>auto intro: call_init_filled\<close>)
  have pro: "filled (\<lambda>(l, u'). dressed u') (threadFunc_prologue os A getenv app ic u)" if "dressed u" for ic and u :: "'k world"
    unfolding threadFunc_prologue_def Let_def
    by (rule outcome_bind [OF new], clarsimp, rule outcome_bind [OF init])
       (use that in \<open>auto simp: dressed_def\<close>)
  obtain t0 u where u: "EventLoopThread_new cb name w = (t0, u)" by fastforce
  then have "dressed u" using assms by (auto simp: EventLoopThread_new_def dressed_def split: prod.splits)
  then show ?thesis
    unfolding spawn_loop_def startLoop_def u prod.case Let_def
    by (intro outcome_bind [OF pro]) (auto simp: dressed_def)
qed

lemma server_start_filled:
  fixes w :: "'k world"
  assumes d: "dressed w"
  shows "filled dressed (server_start os A getenv app w)"
proof (cases "server w")
  case (Some sv)
  have add: "filled (\<lambda>s. dressed (snd s)) (pool_add (spawn_loop os A getenv app cb) i s)" if "dressed (snd s)"
    for i cb and s :: "event_loop_thread thread_pool \<times> 'k world"
    using that by (cases s) (auto simp: pool_add_def Let_def intro!: outcome_bind [OF spawn_loop_filled])
  have fold: "filled (\<lambda>s. dressed (snd s)) (fold_res (pool_add (spawn_loop os A getenv app cb)) is s)" if "dressed (snd s)"
    for "is" cb and s :: "event_loop_thread thread_pool \<times> 'k world"
    by (rule outcome_fold [where I = "\<lambda>_ s. dressed (snd s)"]) (use that add in auto)
  have pool: "filled (\<lambda>(p, u). dressed u) (pool_start (spawn_loop os A getenv app cb) (map_option (call_init os A app) ic) (p, u))"
    if "dressed u" for cb ic p and u :: "'k world"
    using that unfolding pool_start_def prod.case
    by (intro outcome_bind [OF fold])
       (auto split: option.split intro!: outcome_bind [OF call_init_filled])
  have hand: "filled dressed (runLoopCallback t lp (\<lambda>_. server_listen os) (net_push os l) f u)"
    if "dressed u" for t lp l f and u :: "'k world"
    using that by (simp add: runLoopCallback_def server_listen_filled net_push_dressed)
  have "dressed (w\<lparr>server := Some (sv\<lparr>srv_started := n\<rparr>)\<rparr>)" for n using d Some by (simp add: dressed_def)
  then show ?thesis
    unfolding server_start_def with_server_def Some option.case Let_def
    by (auto intro!: outcome_bind [OF pool] hand simp: dressed_def)
qed (simp add: server_start_def with_server_def)

lemma EchoServer_new_filled:
  assumes "\<And>c. conns w c = None"
  shows "filled dressed (EchoServer_new os lo addr name w)"
proof (rule filled_run)
  show "no_call (EchoServer_new os lo addr name w)" by (simp add: EchoServer_new_def silent)
  show "dressed w'" if "EchoServer_new os lo addr name w = Inr w'" for w'
    using that assms
    by (auto simp: EchoServer_new_def TcpServer_new_def res_iff Let_def dressed_def setThreadPoolSize_def
        srv_setMessageCallback_def srv_setConnectionCallback_def)
qed

lemma echo_main_filled:
  assumes o: "\<And>u. dressed u \<Longrightarrow> dressed (others u)" and w: "\<And>c. conns w c = None"
  shows "filled (\<lambda>r. \<forall>w'. r = Some w' \<longrightarrow> dressed w') (echo_main os A getenv inet_addr others fuel w)"
proof -
  have new: "filled (\<lambda>_. True) (EventLoop_new os getenv self i s)" for self i s
    by (rule filled_run) (simp_all add: silent)
  show ?thesis
    unfolding echo_main_def Let_def EchoServer_start_def
    by (intro outcome_bind [OF new], clarsimp, intro outcome_bind [OF EchoServer_new_filled] outcome_bind [OF server_start_filled]
        EventLoop_loop_filled o) (simp_all add: w)
qed

section \<open>Properties\<close>

text \<open>C8. No turns of the loops of a process call an empty function, in any order, on any system and with
  any user code: if the server has its connection and message callbacks and every connection those
  and the close callback, this stays so, the connections accepted meanwhile included, and
  \<open>bad_function_call\<close> is never thrown.\<close>

theorem turns_call_no_empty_function:
  assumes "dressed w"
  shows "case fold_res (loop_turn os A app) ls w of Inl e \<Rightarrow> e \<noteq> BadFunctionCall | Inr w' \<Rightarrow> dressed w'"
  using turns_filled [OF assms, of os A app ls] by (simp add: outcome_def)

lemma demo_dressed: "dressed demo_world"
  by (simp add: dressed_def dressed_conn_def demo_world_def demo_conn_def demo_server_def)

theorem turns_call_no_empty_function_witness:
  "case fold_res (loop_turn checked_os libstdcxx echo_app) [0, 0] demo_world of
      Inl e \<Rightarrow> e \<noteq> BadFunctionCall | Inr w' \<Rightarrow> dressed w'"
  by (rule turns_call_no_empty_function [OF demo_dressed])

lemma turn_of_dressed: "dressed w \<Longrightarrow> dressed (turn_of os A app l w)"
  using loop_turn_filled [of w os A app l] by (auto simp: turn_of_def split: sum.split)



end
