(* ===== verification/Attention.thy ===== *)
theory Attention
  imports Contract
begin

text \<open>
  The system keeps waiting for the input of every connection that is up. \<open>listens\<close>: a connection wants
  to read, and the epoll instance of its own loop waits for exactly the events it wants. No operation on
  a connection and nothing user code may do ends this (a relation of \<open>Steps\<close>); only \<open>handleClose\<close> and
  \<open>connDestory\<close> do, and they tell the user in the same breath. At the end the properties of the example
  program that follow from this and from \<open>Contract\<close>.
\<close>

section \<open>Operations on one connection\<close>

definition cx_listens :: "('k \<Rightarrow> interest_view) \<Rightarrow> nat \<Rightarrow> 'k cctx \<Rightarrow> bool" where
  "cx_listens v c x \<longleftrightarrow> isReadSet (tc_channel (cx_conn x)) \<and> (case poller (cx_loop x) of None \<Rightarrow> False
     | Some po \<Rightarrow> v (cx_kern x) (epollfd po) (ch_fd (tc_channel (cx_conn x))) = Some (ch_events (tc_channel (cx_conn x)), ConnCh c))"

definition cx_attends :: "'k os \<Rightarrow> ('k \<Rightarrow> interest_view) \<Rightarrow> ('k \<Rightarrow> int set) \<Rightarrow> nat \<Rightarrow> 'k cctx \<Rightarrow> 'k cctx \<Rightarrow> bool" where
  "cx_attends os v opn c x x' \<longleftrightarrow> (kernel_ok os v opn \<and> cx_reg v c x \<longrightarrow>
     cx_reg v c x' \<and> cx_step v opn c x x' \<and> (cx_listens v c x \<longrightarrow> cx_listens v c x'))"

lemma cx_attends_refl [simp]: "cx_attends os v opn c x x"
  by (simp add: cx_attends_def cx_step_refl)

lemma cx_attends_trans: "cx_attends os v opn c x y \<Longrightarrow> cx_attends os v opn c y z \<Longrightarrow> cx_attends os v opn c x z"
  unfolding cx_attends_def using cx_step_trans by metis

text \<open>A registration that returns leaves the system waiting for what the channel asks for.\<close>

lemma cx_update_attends:
  assumes k: "kernel_ok os v opn" and x: "cx_reg v c x" and u: "cx_update os c x ch = Inr x'"
    and ch: "chan_same (tc_channel (cx_conn x)) ch" "ch_state ch = ch_state (tc_channel (cx_conn x))"
  shows "cx_reg v c x' \<and> cx_step v opn c x x' \<and> (isReadSet ch \<longrightarrow> cx_listens v c x')"
proof -
  note S = sound_Inr [OF cx_update_sound [OF k x ch] u]
  obtain po where po: "poller (cx_loop x) = Some po" "chan_reg v (ConnCh c) (cx_kern x, po, tc_channel (cx_conn x))"
    using x by (auto simp: cx_reg_def split: option.splits)
  then have reg: "chan_reg v (ConnCh c) (cx_kern x, po, ch)" using ch by (simp add: chan_reg_simp chan_same_def)
  obtain k' po' ch' where up: "updateChannel os (ConnCh c) (cx_kern x, po, ch) = Inr (k', po', ch')"
      and x': "x' = x\<lparr>cx_kern := k', cx_loop := (cx_loop x)\<lparr>poller := Some po'\<rparr>, cx_conn := (cx_conn x)\<lparr>tc_channel := ch'\<rparr>\<rparr>"
    using u po(1) by (auto simp: cx_update_def loop_updateChannel_def res_iff)
  have R: "ch' = setState (next_state ch) ch" "chan_sync v (ConnCh c) (k', po', ch')"
    using updateChannel_result [OF k reg up] by blast+
  have "cx_listens v c x'" if r: "isReadSet ch"
  proof -
    have "ch_events ch \<noteq> 0" using r by (auto simp: isReadSet_def)
    then have "next_state ch = kChannelAdded" by (simp add: next_state_def isSilent_def kNoneEvent_def)
    then show ?thesis using R r by (simp add: cx_listens_def x' chan_sync_def)
  qed
  then show ?thesis using S by blast
qed

lemma write_interest_reads:
  assumes "m \<in> write_interests (ch_events ch)"
  shows "isReadSet (ch\<lparr>ch_events := m\<rparr>) \<longleftrightarrow> isReadSet ch"
proof -
  have "(e OR kWritable) AND kReadable = e AND kReadable" "(e AND NOT kWritable) AND kReadable = e AND kReadable" for e
    by (simp_all add: event_masks bit.conj_disj_distrib2 and.assoc)
  then have "m AND kReadable = ch_events ch AND kReadable"
    using assms unfolding write_interests_def by blast
  then show ?thesis by (simp add: isReadSet_def)
qed

lemma cx_local_attends:
  assumes "cx_grows x (x\<lparr>cx_conn := cn\<rparr>)" and "tc_channel cn = tc_channel (cx_conn x)"
  shows "cx_attends os v opn c x (x\<lparr>cx_conn := cn\<rparr>)"
proof -
  have "cx_listens v c (x\<lparr>cx_conn := cn\<rparr>) \<longleftrightarrow> cx_listens v c x" using assms(2) by (simp add: cx_listens_def cong: option.case_cong)
  then show ?thesis
    using assms cx_step_local [of v c x "x\<lparr>cx_conn := cn\<rparr>"] cx_reg_same_chan [of "x\<lparr>cx_conn := cn\<rparr>" x v c]
    by (simp add: cx_attends_def)
qed

lemma cx_kern_attends:
  assumes "io_call os (cx_kern x) k"
  shows "cx_attends os v opn c x (x\<lparr>cx_kern := k\<rparr>)"
proof (cases "kernel_ok os v opn")
  case True
  have "keeps_views v opn (cx_kern x) k"
    using assms kernel_quiet(2,6,10) [OF True] by (auto simp: io_call_def)
  then show ?thesis
    using cx_step_kern [of v c x opn k] by (auto simp: cx_attends_def cx_listens_def keeps_views_def split: option.splits)
qed (simp add: cx_attends_def)

lemma cx_push_attends:
  assumes "user_note c f"
  shows "cx_attends os v opn c x (cx_push os f x)"
proof -
  have "cx_listens v c (cx_push os f x) \<longleftrightarrow> cx_listens v c x" if "kernel_ok os v opn"
    using cx_push_kern [of os f x] kernel_quiet(10) [OF that]
    by (auto simp: cx_listens_def keeps_views_def split: option.split)
  then show ?thesis using cx_push_step [OF _ _ assms] by (auto simp: cx_attends_def)
qed

interpretation attends: cx_steps "cx_attends os v opn self" os self for os v opn self
proof
  show "cx_attends os v opn self x (x\<lparr>cx_conn := (cx_conn x)\<lparr>output_buffer := b\<rparr>\<rparr>)" for x :: "'a cctx" and b
    by (rule cx_local_attends) simp_all
  show "cx_attends os v opn self x (cx_setState kDisconnected x)" for x :: "'a cctx"
    by (rule cx_local_attends [of x "(cx_conn x)\<lparr>tc_state := kDisconnected\<rparr>", folded cx_setState_def]) simp_all
  show "cx_attends os v opn self x x'" if m: "m \<in> write_interests (ch_events (tc_channel (cx_conn x)))"
    and u: "cx_update os self x ((tc_channel (cx_conn x))\<lparr>ch_events := m\<rparr>) = Inr x'" for x x' :: "'a cctx" and m
    using cx_update_attends [OF _ _ u] write_interest_reads [OF m]
    by (auto simp: cx_attends_def cx_listens_def)
qed (auto intro: cx_attends_trans cx_kern_attends cx_push_attends)

section \<open>The whole state\<close>

definition listens :: "('k \<Rightarrow> interest_view) \<Rightarrow> ('k, 'z) net_scheme \<Rightarrow> nat \<Rightarrow> bool" where
  "listens v w c \<longleftrightarrow> (\<exists>cn. conns w c = Some cn \<and> isReadSet (tc_channel cn)
     \<and> seen v w (tc_loop cn) (ch_fd (tc_channel cn)) = Some (ch_events (tc_channel cn), ConnCh c))"

lemma listens_cx: "listens v w c \<longleftrightarrow> (case conns w c of None \<Rightarrow> False | Some cn \<Rightarrow> cx_listens v c (conn_cx w cn))"
  by (auto simp: listens_def cx_listens_def seen_def split: option.split)

text \<open>Every connection agrees with its poller, and no two share a descriptor.\<close>

definition tidy :: "('k \<Rightarrow> interest_view) \<Rightarrow> ('k, 'z) net_scheme \<Rightarrow> bool" where
  "tidy v w \<longleftrightarrow> (\<forall>c cn. conns w c = Some cn \<longrightarrow> cx_reg v c (conn_cx w cn)
     \<and> (\<forall>d dn. conns w d = Some dn \<and> ch_fd (tc_channel dn) = ch_fd (tc_channel cn) \<longrightarrow> d = c))"

definition attends :: "'k os \<Rightarrow> ('k \<Rightarrow> interest_view) \<Rightarrow> ('k \<Rightarrow> int set) \<Rightarrow> ('k, 'z) net_scheme \<Rightarrow> ('k, 'z) net_scheme \<Rightarrow> bool" where
  "attends os v opn w w' \<longleftrightarrow> (kernel_ok os v opn \<and> tidy v w \<longrightarrow>
     tidy v w' \<and> (\<forall>c. listens v w c \<longrightarrow> listens v w' c))"

lemma attends_refl [simp]: "attends os v opn w w"
  by (simp add: attends_def)

lemma attends_trans: "attends os v opn a b \<Longrightarrow> attends os v opn b c \<Longrightarrow> attends os v opn a c"
  by (simp add: attends_def)

lemma safe_tidy: "safe v opn l B H w \<Longrightarrow> tidy v w"
  unfolding tidy_def safe_def conns_ok_def conn_ok_def cx_ok_def fds_ok_def by metis

text \<open>What a poller and the system know of a descriptor.\<close>

definition slot :: "('k \<Rightarrow> interest_view) \<Rightarrow> ('k, 'z) net_scheme \<Rightarrow> nat \<Rightarrow> int \<Rightarrow> (chan_ptr option \<times> (32 word \<times> chan_ptr) option) option" where
  "slot v w l fd = map_option (\<lambda>po. (channels po fd, v (kern w) (epollfd po) fd)) (poller (loops w l))"

lemma cx_slot:
  fixes w :: "('k, 'z) net_scheme" and w' :: "('k, 'z) net_scheme"
  assumes "slot v w' (tc_loop cn') (ch_fd (tc_channel cn')) = slot v w (tc_loop cn) (ch_fd (tc_channel cn))"
    and "ch_state (tc_channel cn') = ch_state (tc_channel cn)" and "ch_events (tc_channel cn') = ch_events (tc_channel cn)"
  shows "cx_reg v c (conn_cx w' cn') \<longleftrightarrow> cx_reg v c (conn_cx w cn)"
    and "cx_listens v c (conn_cx w' cn') \<longleftrightarrow> cx_listens v c (conn_cx w cn)"
proof -
  have r: "cx_reg v c (conn_cx u un) \<longleftrightarrow> (\<exists>reg sn. slot v u (tc_loop un) (ch_fd (tc_channel un)) = Some (reg, sn)
      \<and> slot_state (ch_state (tc_channel un)) (ConnCh c) reg sn)" for u :: "('k, 'z) net_scheme" and un
    by (auto simp: cx_reg_slots slot_def epfd_def chans_def seen_def split: option.splits)
  have l: "cx_listens v c (conn_cx u un) \<longleftrightarrow> isReadSet (tc_channel un)
      \<and> (\<exists>reg. slot v u (tc_loop un) (ch_fd (tc_channel un)) = Some (reg, Some (ch_events (tc_channel un), ConnCh c)))"
    for u :: "('k, 'z) net_scheme" and un
    by (auto simp: cx_listens_def slot_def split: option.splits)
  show "cx_reg v c (conn_cx w' cn') \<longleftrightarrow> cx_reg v c (conn_cx w cn)" by (simp add: r assms)
  show "cx_listens v c (conn_cx w' cn') \<longleftrightarrow> cx_listens v c (conn_cx w cn)" by (simp add: l isReadSet_def assms)
qed

definition same_chan :: "tcp_connection \<Rightarrow> tcp_connection \<Rightarrow> bool" where
  "same_chan cn cn' \<longleftrightarrow> tc_loop cn' = tc_loop cn \<and> ch_fd (tc_channel cn') = ch_fd (tc_channel cn)
     \<and> ch_state (tc_channel cn') = ch_state (tc_channel cn) \<and> ch_events (tc_channel cn') = ch_events (tc_channel cn)"

lemma same_chan_refl [simp]: "same_chan cn cn"
  by (simp add: same_chan_def)

text \<open>Two states in which a connection and all that concerns it are the same.\<close>

definition same_at :: "('k \<Rightarrow> interest_view) \<Rightarrow> nat \<Rightarrow> ('k, 'z) net_scheme \<Rightarrow> ('k, 'z) net_scheme \<Rightarrow> bool" where
  "same_at v c w w' \<longleftrightarrow> rel_option same_chan (conns w c) (conns w' c) \<and> (\<forall>cn. conns w c = Some cn \<longrightarrow>
     slot v w' (tc_loop cn) (ch_fd (tc_channel cn)) = slot v w (tc_loop cn) (ch_fd (tc_channel cn)))"

lemma same_at_listens:
  assumes "same_at v c w w'"
  shows "listens v w' c \<longleftrightarrow> listens v w c"
  using assms cx_slot(2) [of v w' _ w]
  by (cases "conns w c"; cases "conns w' c") (auto simp: listens_cx same_chan_def same_at_def)

lemma same_at_reg:
  assumes "same_at v c w w'" and "conns w' c = Some cn'"
  obtains cn where "conns w c = Some cn" and "same_chan cn cn'"
    and "cx_reg v c (conn_cx w' cn') \<longleftrightarrow> cx_reg v c (conn_cx w cn)"
proof -
  obtain cn where cn: "conns w c = Some cn" "same_chan cn cn'"
    using assms by (cases "conns w c") (auto simp: same_at_def)
  then show ?thesis
    using that [OF cn] cx_slot(1) [of v w' cn' w cn c] assms(1) by (simp add: same_at_def same_chan_def)
qed

lemma tidyD:
  assumes "tidy v w" and "conns w c = Some cn"
  shows "cx_reg v c (conn_cx w cn)"
    and "conns w d = Some dn \<Longrightarrow> ch_fd (tc_channel dn) = ch_fd (tc_channel cn) \<Longrightarrow> d = c"
  using assms unfolding tidy_def by blast+

text \<open>At most one connection changes, and that one keeps its descriptor.\<close>

lemma tidy_change:
  assumes t: "tidy v w" and s: "\<And>d. d \<noteq> c \<Longrightarrow> same_at v d w w'"
    and c: "\<And>cn'. conns w' c = Some cn' \<Longrightarrow> cx_reg v c (conn_cx w' cn')
      \<and> (\<exists>cn. conns w c = Some cn \<and> ch_fd (tc_channel cn') = ch_fd (tc_channel cn))"
  shows "tidy v w'"
proof -
  have old: "cx_reg v d (conn_cx w' dn') \<and> (\<exists>dn. conns w d = Some dn \<and> ch_fd (tc_channel dn') = ch_fd (tc_channel dn))"
    if "conns w' d = Some dn'" for d dn'
  proof (cases "d = c")
    case False
    then show ?thesis
      using same_at_reg [OF s that] tidyD(1) [OF t] by (metis same_chan_def)
  qed (use c that in blast)
  then show ?thesis unfolding tidy_def using tidyD(2) [OF t] by metis
qed

lemma attends_same:
  assumes "\<And>c. kernel_ok os v opn \<Longrightarrow> same_at v c w w'"
  shows "attends os v opn w w'"
  unfolding attends_def
proof (intro impI)
  assume a: "kernel_ok os v opn \<and> tidy v w"
  have s: "same_at v c w w'" for c using assms a by blast
  have "tidy v w'"
  proof (rule tidy_change [of v w 0])
    show "cx_reg v 0 (conn_cx w' cn') \<and> (\<exists>cn. conns w 0 = Some cn \<and> ch_fd (tc_channel cn') = ch_fd (tc_channel cn))"
      if "conns w' 0 = Some cn'" for cn'
      using same_at_reg [OF s that] tidyD(1) [OF conjunct2 [OF a]] by (metis same_chan_def)
  qed (use a s in blast)+
  then show "tidy v w' \<and> (\<forall>c. listens v w c \<longrightarrow> listens v w' c)" using same_at_listens [OF s] by blast
qed

text \<open>An operation on one connection: the others stay as they are.\<close>

lemma conn_put_same_at:
  assumes t: "tidy v w" and cn: "conns w c = Some cn" and st: "cx_step v opn c (conn_cx w cn) x" and d: "d \<noteq> c"
  shows "same_at v d w (conn_put c cn x w)"
proof -
  obtain po po' where po: "poller (loops w (tc_loop cn)) = Some po" "poller (cx_loop x) = Some po'"
      and pf: "poll_frame v (kern w, po, tc_channel cn) (cx_kern x, po', tc_channel (cx_conn x))"
    using st by (auto simp: cx_step_def)
  have "slot v (conn_put c cn x w) l fd = slot v w l fd" if "fd \<noteq> ch_fd (tc_channel cn)" for l fd
    using po pf that by (cases "l = tc_loop cn") (auto simp: slot_def poll_frame_def split: option.split)
  then show ?thesis
    using tidyD(2) [OF t cn] d by (auto simp: same_at_def option.rel_refl)
qed

lemma in_conn_attends:
  assumes t: "tidy v w" and run: "in_conn c f w = Inr w'"
    and f: "\<And>x x'. f x = Inr x' \<Longrightarrow> cx_reg v c x \<Longrightarrow> cx_reg v c x' \<and> cx_step v opn c x x'"
  obtains cn x' where "conns w c = Some cn" and "f (conn_cx w cn) = Inr x'" and "tidy v w'"
    and "\<And>d. d \<noteq> c \<Longrightarrow> same_at v d w w'"
    and "listens v w' c \<longleftrightarrow> cx_listens v c x'"
proof -
  obtain cn where cn: "conns w c = Some cn" using run by (auto simp: in_conn_def split: option.splits)
  then obtain x where x: "f (conn_cx w cn) = Inr x" and w': "w' = conn_put c cn x w"
    using run by (auto simp: in_conn_put res_iff)
  have r: "cx_reg v c x" "cx_step v opn c (conn_cx w cn) x" using f [OF x tidyD(1) [OF t cn]] by blast+
  have loop: "tc_loop (cx_conn x) = tc_loop cn" and fd: "ch_fd (tc_channel (cx_conn x)) = ch_fd (tc_channel cn)"
    using r(2) by (simp_all add: cx_step_def cx_grows_def same_conn_def chan_same_def)
  have c: "cx_reg v c (conn_cx w' (cx_conn x)) \<longleftrightarrow> cx_reg v c x" "cx_listens v c (conn_cx w' (cx_conn x)) \<longleftrightarrow> cx_listens v c x"
    by (simp_all add: cx_reg_def cx_listens_def w' loop cong: option.case_cong)
  have s: "\<And>d. d \<noteq> c \<Longrightarrow> same_at v d w w'" unfolding w' by (rule conn_put_same_at [OF t cn r(2)])
  have "tidy v w'" by (rule tidy_change [OF t s]) (use c r cn fd in \<open>auto simp: w'\<close>)
  moreover have "listens v w' c \<longleftrightarrow> cx_listens v c x" using c(2) by (simp add: listens_cx w')
  ultimately show ?thesis using that [OF cn x] s by blast
qed

section \<open>User code\<close>

lemma same_at_fields:
  assumes "slot v w' = slot v w" and "rel_option same_chan (conns w c) (conns w' c)"
  shows "same_at v c w w'"
  using assms by (simp add: same_at_def)

lemma on_loop_slot:
  assumes "v (fst (f (kern w, loops w l))) = v (kern w)" and "poller (snd (f (kern w, loops w l))) = poller (loops w l)"
  shows "slot v (on_loop l f w) = slot v w"
  using assms by (simp add: slot_def on_loop_simps fun_eq_iff)

lemma loop_calls_slot:
  assumes k: "kernel_ok os v opn"
  shows "slot v (net_push os l f w) = slot v w" and "slot v (on_loop l (loop_quit os t) w) = slot v w"
    and "slot v (on_loop l (awake os) w) = slot v w"
proof -
  note kv = kernel_quiet(9,10) [OF k, unfolded keeps_views_def]
  show "slot v (net_push os l f w) = slot v w"
    unfolding net_push_def by (rule on_loop_slot) (simp_all add: pushLoopCallback_wakes pushLoopCallback_loop kv)
  show "slot v (on_loop l (loop_quit os t) w) = slot v w"
    by (rule on_loop_slot) (simp_all add: loop_quit_loop loop_quit_def Let_def wakeup_def kv)
  show "slot v (on_loop l (awake os) w) = slot v w"
    by (rule on_loop_slot) (simp_all add: awake_loop awake_def kv)
qed

lemma net_push_attends: "attends os v opn w (net_push os l f w)"
  by (rule attends_same, rule same_at_fields [OF loop_calls_slot(1)])
     (simp_all add: option.rel_refl net_push_def on_loop_simps)

lemma conn_field_attends:
  assumes "conns w c = Some cn" and "same_chan cn cn'"
  shows "attends os v opn w (w\<lparr>conns := (conns w)(c \<mapsto> cn')\<rparr>)"
  by (rule attends_same, rule same_at_fields) (use assms in \<open>simp_all add: slot_def fun_eq_iff option.rel_refl\<close>)

interpretation attending: net_steps "cx_attends os v opn" "attends os v opn" os "\<lambda>_. True" for os v opn
proof
  show "attends os v opn w w'" if run: "in_conn c f w = Inr w'" and f: "\<And>x x'. f x = Inr x' \<Longrightarrow> cx_attends os v opn c x x'"
    for c f and w w' :: "('a, 'b) net_scheme"
    unfolding attends_def
  proof (intro impI)
    assume a: "kernel_ok os v opn \<and> tidy v w"
    have st: "cx_reg v c x' \<and> cx_step v opn c x x' \<and> (cx_listens v c x \<longrightarrow> cx_listens v c x')"
      if "f x = Inr x'" "cx_reg v c x" for x x'
      using f [OF that(1)] that(2) a by (simp add: cx_attends_def)
    obtain cn x' where cn: "conns w c = Some cn" and x: "f (conn_cx w cn) = Inr x'" and t: "tidy v w'"
        and s: "\<And>d. d \<noteq> c \<Longrightarrow> same_at v d w w'" and l: "listens v w' c \<longleftrightarrow> cx_listens v c x'"
      by (rule in_conn_attends [OF conjunct2 [OF a] run]) (use st in blast)+
    have "listens v w' c" if "listens v w c"
      using that l cn st [OF x] tidyD(1) [OF conjunct2 [OF a] cn] by (simp add: listens_cx)
    then show "tidy v w' \<and> (\<forall>d. listens v w d \<longrightarrow> listens v w' d)"
      using t same_at_listens [OF s] by metis
  qed
  show "attends os v opn w (on_loop l (loop_quit os t) w)" for l t and w :: "('a, 'b) net_scheme"
    by (rule attends_same, rule same_at_fields [OF loop_calls_slot(2)]) (simp_all add: option.rel_refl on_loop_simps)
  show "attends os v opn w (w\<lparr>strs := ss\<rparr>)" for ss and w :: "('a, 'b) net_scheme"
    by (rule attends_same, rule same_at_fields) (simp_all add: slot_def fun_eq_iff option.rel_refl)
qed (auto simp: setHighWaterCallback_def same_chan_def attends.cx_steps_axioms
    intro: conn_field_attends net_push_attends attends_trans)

lemma noted_attends:
  assumes "run_actions os A as (note_call ob w) = Inr w'"
  shows "attends os v opn w w'"
proof -
  have "attends os v opn w (note_call ob w)"
    by (rule attends_same, rule same_at_fields) (simp_all add: note_call_def slot_def fun_eq_iff option.rel_refl)
  moreover have "attends os v opn (note_call ob w) w'" by (rule attending.actions_steps [OF assms]) simp
  ultimately show ?thesis by (rule attends_trans)
qed

lemma user_calls_attend:
  "call_connection os A app d w = Inr w' \<Longrightarrow> attends os v opn w w'"
  "call_message os A app d t w = Inr w' \<Longrightarrow> attends os v opn w w'"
  by (auto simp: call_connection_def call_message_def split: option.splits intro: noted_attends)

section \<open>Connections that are up\<close>

definition watched :: "('k \<Rightarrow> interest_view) \<Rightarrow> nat \<Rightarrow> ('k, 'z) net_scheme \<Rightarrow> bool" where
  "watched v c w \<longleftrightarrow> (phase_at c w = Some Up \<longrightarrow> listens v w c)"

lemma watched_same:
  assumes "watched v c w" and "same_at v c w w'" and "phase_at c w' = phase_at c w"
  shows "watched v c w'"
  using assms(1,3) same_at_listens [OF assms(2)] by (simp add: watched_def)

lemma watched_attends:
  assumes "watched v c w" and "kernel_ok os v opn" and "tidy v w" and "attends os v opn w w'"
    and "phase_at c w' = phase_at c w"
  shows "watched v c w'"
  using assms by (simp add: watched_def attends_def)

lemma lives_phase_at:
  assumes "lived E l B w" and "lives S D w w'" and "c \<in> S \<Longrightarrow> phase_at c w \<noteq> Some Unborn"
  shows "phase_at c w' = phase_at c w"
proof -
  obtain p where p: "phase_at c w = Some p" using assms(1) by (rule lived_phase)
  then show ?thesis using lives_phase [OF assms(2) p] assms(3) by auto
qed

text \<open>Calls of user code for a connection that was told up, or for none.\<close>

lemma noted_watched:
  assumes k: "kernel_ok os v opn" and t: "tidy v w" and iv: "lived E l B w" and wa: "watched v c w"
    and run: "run_actions os A as (note_call ob w) = Inr w'" and ok: "acts_ok me N n G as"
    and me: "\<And>d. me = Some d \<Longrightarrow> phase_at d w \<noteq> Some Unborn" and ob: "tells (set_option me) ob"
  shows "watched v c w'"
  by (rule watched_attends [OF wa k t noted_attends [OF run]], rule lives_phase_at [OF iv user_lives [OF run ok ob]])
     (use me in auto)

lemma call_message_watched:
  assumes k: "kernel_ok os v opn" and t: "tidy v w" and iv: "lived {} l B w" and wa: "watched v c w"
    and app: "app_ok app" and call: "call_message os A app d time w = Inr w'" and vw: "view_ok w d"
    and p: "phase_at d w \<noteq> Some Unborn"
  shows "watched v c w'"
proof -
  obtain cb where run: "run_actions os A (on_message app cb w d time) (note_call (CalledMessage cb d) w) = Inr w'"
    using call view_conn [OF vw] by (auto simp: call_message_def split: option.splits)
  have ok: "own_ok w d (on_message app cb w d time)" using app vw by (simp add: app_ok_def)
  show ?thesis by (rule noted_watched [OF k t iv wa run ok [unfolded own_ok_def]]) (use p in auto)
qed

text \<open>The connection callback of one connection says nothing of the others.\<close>

lemma call_connection_apart:
  assumes p: "phase_at c w \<noteq> None" and app: "app_ok app" and call: "call_connection os A app d w = Inr w'"
    and vw: "view_ok w d" and ne: "c \<noteq> d"
  shows "phase_at c w' = phase_at c w"
proof -
  obtain cb up where run: "run_actions os A (on_connection app cb w d) (note_call (CalledConnection cb d up) w) = Inr w'"
    using call by (auto simp: call_connection_def split: option.splits)
  have ok: "own_ok w d (on_connection app cb w d)" using app vw by (simp add: app_ok_def)
  have "lives {d} {} (note_call (CalledConnection cb d up) w) w'"
    by (rule life.actions_steps [OF run]) (use acts_ok_conn [OF ok [unfolded own_ok_def]] in auto)
  moreover obtain p where p: "phase_at c w = Some p" using p by blast
  moreover have "phase_at c (note_call (CalledConnection cb d up) w) = phase_at c w" using ne by (simp add: phase_note)
  ultimately show ?thesis using lives_phase [of "{d}" "{}" _ w' c p] ne by simp
qed

text \<open>Operations of a connection that call no user code.\<close>

lemma in_conn_watched:
  assumes k: "kernel_ok os v opn" and t: "tidy v w" and wa: "watched v c w" and run: "in_conn d f w = Inr w'"
    and f: "\<And>x x'. f x = Inr x' \<Longrightarrow> cx_attends os v opn d x x'"
  shows "watched v c w'"
  by (rule watched_attends [OF wa k t attending.net_in_conn [OF run TrueI f] phase_same [OF in_conn_trace [OF run]]])

lemma state_update_attends:
  assumes k: "kernel_ok os v opn" and x: "cx_reg v c x" and u: "cx_update os c (cx_setState st x) ch = Inr x'"
    and ch: "chan_same (tc_channel (cx_conn x)) ch" "ch_state ch = ch_state (tc_channel (cx_conn x))"
  shows "cx_reg v c x' \<and> cx_step v opn c x x' \<and> (isReadSet ch \<longrightarrow> cx_listens v c x')"
proof -
  let ?x = "cx_setState st x"
  have "cx_reg v c ?x" using x cx_reg_same_chan [of ?x x] by (simp add: cx_setState_def)
  moreover have "cx_step v opn c x ?x"
    by (rule cx_step_local [OF x]) (simp, simp_all add: cx_setState_def)
  ultimately show ?thesis
    using cx_update_attends [OF k _ u] ch cx_step_trans by (auto simp: cx_setState_def)
qed

lemma enabled_listens:
  assumes k: "kernel_ok os v opn" and t: "tidy v w" and run: "in_conn c (\<lambda>x. let x = cx_setState kConnected x in
      enableReadEvent (cx_update os c x) (tie c (tc_channel (cx_conn x)))) w = Inr w'"
  shows "tidy v w' \<and> listens v w' c \<and> (\<forall>d. d \<noteq> c \<longrightarrow> same_at v d w w')"
proof -
  let ?f = "\<lambda>x. let x = cx_setState kConnected x in enableReadEvent (cx_update os c x) (tie c (tc_channel (cx_conn x)))"
  have read: "isReadSet (tie c ch\<lparr>ch_events := ch_events (tie c ch) OR kReadable\<rparr>)" for ch :: "handler channel"
  proof -
    have "(e OR kReadable) AND kReadable = kReadable" for e by (simp add: bit.conj_disj_distrib2)
    then show ?thesis by (simp add: isReadSet_def event_masks)
  qed
  have f: "cx_reg v c x' \<and> cx_step v opn c x x' \<and> cx_listens v c x'" if "?f x = Inr x'" "cx_reg v c x" for x x'
  proof -
    let ?ch = "tie c (tc_channel (cx_conn x))\<lparr>ch_events := ch_events (tie c (tc_channel (cx_conn x))) OR kReadable\<rparr>"
    have "cx_update os c (cx_setState kConnected x) ?ch = Inr x'"
      using that(1) by (simp add: enableReadEvent_def Let_def cx_setState_def)
    then have "cx_reg v c x' \<and> cx_step v opn c x x' \<and> (isReadSet ?ch \<longrightarrow> cx_listens v c x')"
      by (rule state_update_attends [OF k that(2)]) (simp_all, simp add: tie_def)
    then show ?thesis using read by blast
  qed
  obtain cn x' where "conns w c = Some cn" "?f (conn_cx w cn) = Inr x'" "tidy v w'" "\<And>d. d \<noteq> c \<Longrightarrow> same_at v d w w'"
    "listens v w' c \<longleftrightarrow> cx_listens v c x'"
    by (rule in_conn_attends [OF t run]) (use f in blast)+
  then show ?thesis using f tidyD(1) [OF t] by blast
qed

lemma disabled_same_at:
  assumes k: "kernel_ok os v opn" and t: "tidy v w" and run: "in_conn c (\<lambda>x. let x = cx_setState kDisconnected x in
      disableAllEvent (cx_update os c x) (tc_channel (cx_conn x))) w = Inr w'"
  shows "tidy v w' \<and> (\<forall>d. d \<noteq> c \<longrightarrow> same_at v d w w')"
proof -
  let ?f = "\<lambda>x. let x = cx_setState kDisconnected x in disableAllEvent (cx_update os c x) (tc_channel (cx_conn x))"
  have "cx_reg v c x' \<and> cx_step v opn c x x'" if "?f x = Inr x'" "cx_reg v c x" for x x'
    using state_update_attends [OF k that(2), of kDisconnected _ x'] that(1)
    by (simp add: disableAllEvent_def Let_def cx_setState_def)
  then obtain cn x' where "tidy v w'" "\<And>d. d \<noteq> c \<Longrightarrow> same_at v d w w'"
    using in_conn_attends [OF t run] by metis
  then show ?thesis by blast
qed

section \<open>Establishing, closing, accepting\<close>

lemma connEstablish_watched:
  assumes k: "kernel_ok os v opn" and t: "tidy v w" and app: "app_ok app" and run: "connEstablish os A app d w = Inr w'"
    and p: "phase_at c w \<noteq> None" and cn: "conns w d = Some cn" "tc_state cn = kConnecting" and vw: "view_ok w d"
    and wa: "watched v c w"
  shows "watched v c w'"
proof -
  obtain w1 where w1: "in_conn d (\<lambda>x. let x = cx_setState kConnected x in
      enableReadEvent (cx_update os d x) (tie d (tc_channel (cx_conn x)))) w = Inr w1"
    and call: "call_connection os A app d w1 = Inr w'"
    using run by (auto simp: connEstablish_def res_iff)
  note L = enabled_listens [OF k t w1]
  have at: "attends os v opn w1 w'" by (rule user_calls_attend(1) [OF call])
  have ph: "phase_at c w1 = phase_at c w" by (rule phase_same [OF in_conn_trace [OF w1]])
  show ?thesis
  proof (cases "c = d")
    case True
    then show ?thesis using at L k by (simp add: attends_def watched_def)
  next
    case False
    have "view_ok w1 d" using establish_conn [OF w1 cn] vw by blast
    then have "phase_at c w' = phase_at c w1" using call_connection_apart [OF _ app call _ False] p ph by simp
    moreover have "watched v c w1" using watched_same [OF wa _ ph] L False by blast
    ultimately show ?thesis using watched_attends [OF _ k _ at] L by blast
  qed
qed

lemma server_attends: "attends os v opn w (w\<lparr>server := so\<rparr>)"
  by (rule attends_same, rule same_at_fields) (simp_all add: slot_def fun_eq_iff option.rel_refl)

lemma removal_attends:
  assumes "removeConnectionInLoop os d w = Inr w'"
  shows "attends os v opn w w' \<and> trace w' = trace w"
proof -
  obtain sv cn where "server w = Some sv" "conns w d = Some cn"
    using assms by (auto simp: removeConnectionInLoop_def with_server_def split: option.splits)
  then have "w' = net_push os (tc_loop cn) (FConnDestory d)
      (w\<lparr>server := Some (sv\<lparr>connections := AList.delete (tc_name cn) (connections sv)\<rparr>)\<rparr>)"
    using assms by (simp add: removeConnectionInLoop_def with_server_def)
  then show ?thesis using attends_trans [OF server_attends net_push_attends] by simp
qed

lemma removeConnection_attends:
  "removeConnection os d w = Inr w' \<Longrightarrow> attends os v opn w w' \<and> trace w' = trace w"
  using removeConnection_cases [of os d w w'] removal_attends [of os d w w'] net_push_attends by auto

lemma handleClose_watched:
  assumes k: "kernel_ok os v opn" and app: "app_ok app" and s: "safe v opn l B H w" and r: "ready l B w d"
    and t: "own_thread w d" and iv: "lived {} l B w" and run: "handleClose os A app (closer os) d w = Inr w'"
    and wa: "watched v c w"
  shows "watched v c w'"
proof (cases "c = d")
  case True
  obtain w2 where "phase_at d w2 = Some Down" "removeConnection os d w2 = Inr w'"
    by (rule handleClose_told [OF k app s r t iv run])
  then have "phase_at d w' = Some Down" using removeConnection_attends phase_same by metis
  then show ?thesis by (simp add: watched_def True)
next
  case False
  obtain w1 w2 where w1: "in_conn d (\<lambda>x. let x = cx_setState kDisconnected x in
      disableAllEvent (cx_update os d x) (tc_channel (cx_conn x))) w = Inr w1"
    and w2: "call_connection os A app d w1 = Inr w2" and w': "removeConnection os d w2 = Inr w'"
    using run by (rule handleClose_parts)
  obtain cn where cn: "conns w d = Some cn" using ready_conn [OF r] by blast
  note D = disabled_same_at [OF k safe_tidy [OF s] w1]
  have ph: "phase_at c w1 = phase_at c w" by (rule phase_same [OF in_conn_trace [OF w1]])
  have 1: "watched v c w1" using watched_same [OF wa _ ph] D False by blast
  have "phase_at c w1 \<noteq> None" using ph iv by (auto simp: lived_def)
  moreover have "view_ok w1 d" using disable_conn [OF w1 cn] safe_view [OF s t] by blast
  ultimately have "phase_at c w2 = phase_at c w1" using call_connection_apart [OF _ app w2 _ False] by blast
  moreover have "phase_at c w' = phase_at c w2" using removeConnection_attends [OF w'] phase_same by blast
  moreover have "attends os v opn w1 w'"
    using user_calls_attend(1) [OF w2] removeConnection_attends [OF w'] attends_trans by blast
  ultimately show ?thesis using watched_attends [OF 1 k] D by simp
qed

lemma handleRead_watched:
  assumes k: "kernel_ok os v opn" and app: "app_ok app" and s: "safe v opn l B H w" and r: "ready l B w d"
    and t: "own_thread w d" and iv: "lived {} l B w" and run: "handleRead os A app (closer os) d time w = Inr w'"
    and wa: "watched v c w"
  shows "watched v c w'"
proof -
  obtain cn k1 b w1 where cn: "conns w d = Some cn" and kv: "keeps_views v opn (kern w) k1"
    and w: "w1 = w\<lparr>kern := k1, conns := (conns w)(d := Some (cn\<lparr>input_buffer := b\<rparr>))\<rparr>"
    and w1: "lived {} l B w1" "ready l B w1 d" "own_thread w1 d" "safe v opn l B H w1"
    and x: "call_message os A app d time w1 = Inr w' \<or> handleClose os A app (closer os) d w1 = Inr w'
      \<or> in_conn d (\<lambda>x. Inr (handleError os x)) w1 = Inr w'"
    by (rule handleRead_ready [OF k s r t iv run])
  have "same_at v c w w1"
    by (rule same_at_fields) (use cn kv in \<open>simp_all add: w slot_def fun_eq_iff option.rel_refl same_chan_def keeps_views_def\<close>)
  then have wa1: "watched v c w1" by (rule watched_same [OF wa]) (simp add: phase_at_def w)
  have "watched v c w'" if "in_conn d (\<lambda>x. Inr (handleError os x)) w1 = Inr w'"
    by (rule in_conn_watched [OF k safe_tidy [OF w1(4)] wa1 that]) (use attends.error_steps in auto)
  then show ?thesis
    using x call_message_watched [OF k safe_tidy [OF w1(4)] w1(1) wa1 app _ safe_view [OF w1(4,3)] lived_ready [OF w1(1,2)]]
      handleClose_watched [OF k app w1(4,2,3,1) _ wa1] by blast
qed

text \<open>A connection that does not exist yet was not told up.\<close>

lemma newConnection_watched:
  assumes k: "kernel_ok os v opn" and app: "app_ok app" and s: "safe v opn l B H w" and fd: "spare_fd opn w fd"
    and iv: "lived {} l B w" and run: "newConnection os A app fd pa w = Inr w'" and wa: "watched v c w"
  shows "watched v c w'"
proof -
  let ?c = "fresh_conn w"
  obtain io cn k1 so w1 where kv: "keeps_views v opn (kern w) k1" and nc: "new_conn ?c io fd cn"
      and w1: "w1 = w\<lparr>kern := k1, conns := (conns w)(?c := Some cn), fresh_conn := ?c + 1, server := so\<rparr>"
      and s1: "safe v opn l B H w1"
      and r: "newConnection os A app fd pa w = runLoopCallback (cur_tid w1) (loops w1 io)
        (\<lambda>_. connEstablish os A app ?c) (net_push os io) (FConnEstablish ?c) w1"
    by (rule newConnection_added [where A = A and app = app and pa = pa, OF k s fd]) (simp add: run)
  have ph: "phase_at c w1 = phase_at c w" by (simp add: phase_at_def w1)
  have wa1: "watched v c w1"
  proof (cases "c = ?c")
    case True
    obtain sv where "server_ok sv w" using safe_server [OF s] by blast
    then have "conns w ?c = None" by (rule server_okD(7)) simp
    moreover obtain p where "phase_at c w = Some p" "life_ok {} l B w c p" using iv by (rule lived_phase)
    ultimately show ?thesis using True ph by (auto simp: watched_def life_ok_def)
  next
    case False
    have "same_at v c w w1"
      by (rule same_at_fields) (use False kv in \<open>simp_all add: w1 slot_def fun_eq_iff option.rel_refl keeps_views_def\<close>)
    then show ?thesis by (rule watched_same [OF wa _ ph])
  qed
  have cn: "conns w1 ?c = Some cn" "tc_state cn = kConnecting" "view_ok w1 ?c"
    using nc by (simp_all add: w1 new_conn_def view_ok_def front_inv_def)
  have p: "phase_at c w1 \<noteq> None" using ph iv by (auto simp: lived_def)
  have "watched v c w'" if "connEstablish os A app ?c w1 = Inr w'"
    by (rule connEstablish_watched [OF k safe_tidy [OF s1] app that p cn wa1])
  moreover have "watched v c (net_push os io (FConnEstablish ?c) w1)"
    by (rule watched_attends [OF wa1 k safe_tidy [OF s1] net_push_attends phase_same]) simp
  ultimately show ?thesis using run r by (auto simp: runLoopCallback_def split: if_split_asm)
qed

section \<open>Handlers and functors\<close>

lemma run_handler_watched:
  assumes k: "kernel_ok os v opn" and app: "app_ok app" and s: "safe v opn l B H w" and iv: "lived {} l B w"
    and h: "h \<in> range HAwake \<or> h = HAcceptRead \<or> (\<exists>c. h \<in> conn_handlers c \<and> target_ok l B w (ConnCh c))"
    and run: "run_handler os A app time h w = Inr w'" and wa: "watched v c w"
  shows "watched v c w'"
proof (cases h)
  case (HAwake l')
  then have w': "w' = on_loop l' (awake os) w" using run by (simp add: run_handler_def)
  have "same_at v c w w'"
    unfolding w' by (rule same_at_fields [OF loop_calls_slot(3) [OF k]]) (simp add: option.rel_refl on_loop_simps)
  then show ?thesis by (rule watched_same [OF wa]) (simp add: w' phase_at_def on_loop_def split: prod.split)
next
  case HAcceptRead
  obtain k1 where s1: "safe v opn l B H (w\<lparr>kern := k1\<rparr>)" and kv: "v k1 = v (kern w)"
    and x: "w' = w\<lparr>kern := k1\<rparr> \<or> (\<exists>fd pa. spare_fd opn (w\<lparr>kern := k1\<rparr>) fd \<and> newConnection os A app fd pa (w\<lparr>kern := k1\<rparr>) = Inr w')"
    by (rule accept_steps [OF run [unfolded HAcceptRead] s k])
  have "same_at v c w (w\<lparr>kern := k1\<rparr>)"
    by (rule same_at_fields) (simp_all add: kv slot_def fun_eq_iff option.rel_refl)
  then have wa1: "watched v c (w\<lparr>kern := k1\<rparr>)" by (rule watched_same [OF wa]) (simp add: phase_at_def)
  have iv1: "lived {} l B (w\<lparr>kern := k1\<rparr>)"
    by (rule lived_requeue [OF iv]) (simp_all add: settled_def queue_of_def)
  show ?thesis using x wa1 newConnection_watched [OF k app s1 _ iv1 _ wa1] by blast
next
  case (HConnRead d)
  then show ?thesis using handleRead_watched [OF k app s _ _ iv _ wa] h run by (auto simp: run_handler_def conn_handlers_def)
next
  case (HConnClose d)
  then show ?thesis using handleClose_watched [OF k app s _ _ iv _ wa] h run by (auto simp: run_handler_def conn_handlers_def)
next
  case (HConnWrite d)
  then have "in_conn d (handleWrite os d) w = Inr w'" using run by (simp add: run_handler_def)
  then show ?thesis by (rule in_conn_watched [OF k safe_tidy [OF s] wa]) (rule attends.write_event_steps)
next
  case (HConnError d)
  then have "in_conn d (\<lambda>x. Inr (handleError os x)) w = Inr w'" using run by (simp add: run_handler_def)
  then show ?thesis by (rule in_conn_watched [OF k safe_tidy [OF s] wa]) (use attends.error_steps in auto)
qed

lemma slot_parts:
  assumes "epfd w' l = epfd w l" and "chans w' l fd = chans w l fd" and "seen v w' l fd = seen v w l fd"
  shows "slot v w' l fd = slot v w l fd"
  using assms by (auto simp: slot_def epfd_def chans_def seen_def split: option.splits)

text \<open>The acceptor's registration concerns its own descriptor only.\<close>

lemma listen_watched:
  assumes k: "kernel_ok os v opn" and s: "safe v opn l B H w" and run: "server_listen os w = Inr w'" and wa: "watched v c w"
  shows "watched v c w'"
proof -
  obtain sv where sv: "server w = Some sv" using safe_server [OF s] by blast
  let ?ac = "srv_acceptor sv"
  let ?al = "acc_loop ?ac" and ?fa = "accept_socket ?ac"
    and ?ch = "(accept_channel ?ac)\<lparr>ch_events := ch_events (accept_channel ?ac) OR kReadable\<rparr>"
  have fa: "ch_fd (accept_channel ?ac) = ?fa" "?fa \<in> infra_fds w"
    using safeD(4) [OF s] sv by (auto simp: acceptor_ok_def infra_fds_def)
  obtain k1 k2 lp ch where k1: "socket_listen os ?fa (kern w) = Inr k1"
      and u: "loop_updateChannel os AcceptCh (k1, loops w ?al, ?ch) = Inr (k2, lp, ch)"
      and w': "w' = w\<lparr>kern := k2, loops := (loops w)(?al := lp), server := Some (sv\<lparr>srv_acceptor :=
          ?ac\<lparr>listenning := True, accept_channel := ch\<rparr>\<rparr>)\<rparr>"
    using run by (auto simp: server_listen_def with_server_def sv acceptor_listen_def Let_def enableReadEvent_def res_iff)
  have v1: "v k1 = v (kern w)"
    using k1 kernel_quiet(4) [OF k, of "kern w" ?fa kSocketDefaultBacklog]
    by (auto simp: socket_listen_def keeps_views_def split: prod.splits sum.splits)
  obtain po po' where po: "poller (loops w ?al) = Some po" "updateChannel os AcceptCh (k1, po, ?ch) = Inr (k2, po', ch)"
      and lp: "lp = (loops w ?al)\<lparr>poller := Some po'\<rparr>"
    using loop_updateChannel_result [OF u] by blast
  note U = updateChannel_frame [OF k po(2)]
  have "slot v w' i fd = slot v w i fd" if "fd \<noteq> ?fa" for i fd
    using U po(1) that by (auto simp: slot_def w' lp v1 fa(1) split: option.split)
  moreover have "ch_fd (tc_channel cn) \<noteq> ?fa" if "conns w c = Some cn" for cn
  proof -
    have "tc_sockfd cn \<notin> infra_fds w" using safeD(3) [OF s] that unfolding fds_ok_def by blast
    then show ?thesis using safe_conn [OF s that] fa(2) by (auto simp: conn_ok_def)
  qed
  ultimately have "same_at v c w w'" by (simp add: same_at_def w' option.rel_refl)
  then show ?thesis by (rule watched_same [OF wa]) (simp add: w' phase_at_def)
qed

lemma run_functor_watched:
  assumes k: "kernel_ok os v opn" and app: "app_ok app" and s: "safe v opn l (f # B) H w"
    and l: "l < fresh_loop w" and t: "isInLoopThread (cur_tid w) (loops w l)" and iv: "lived {} l (f # B) w"
    and run: "run_functor os A app f w = Inr w'" and wa: "watched v c w"
  shows "watched v c w'"
proof -
  note ok = functor_at [OF s l] and ti = safe_tidy [OF s]
  have own: "view_ok w d" if "live_at w l d" for d
    using that t safe_view [OF s, of d] by (auto simp: live_at_def own_thread_def)
  have qf: "queued l (f # B) w f" using l by (simp add: queued_Cons)
  note q = queued_phase [OF iv _ qf]
  have live: "conns w d \<noteq> None" if "live_at w l d" for d using that by (auto simp: live_at_def)
  show ?thesis
  proof (cases f)
    case (FSendInLoop d a n)
    then show ?thesis using ok by simp
  next
    case (FShutdownInLoop d)
    then show ?thesis using ok by simp
  next
    case (FConnEstablish d)
    then obtain cn where cn: "conns w d = Some cn" using ok by (auto simp: live_at_def)
    have "tc_state cn = kConnecting"
      using safe_stage(1) [OF s cn] l FConnEstablish by (simp add: stage_ok_def awaiting_def queued_Cons)
    moreover have "phase_at c w \<noteq> None" using iv by (auto simp: lived_def)
    ultimately show ?thesis
      using connEstablish_watched [OF k ti app _ _ cn _ _ wa] own ok run by (simp add: FConnEstablish run_functor_def)
  next
    case (FConnDestory d)
    then obtain cn where cn: "conns w d = Some cn" using ok by (auto simp: live_at_def)
    have p: "phase_at d w = Some Down" using q(2) live ok by (simp add: FConnDestory)
    then have "life_ok {} l (f # B) w d Down" using lived_phase [OF iv, of d] by auto
    then have "tc_state cn = kDisconnected" using life_okD(3) [OF _ cn] by blast
    then have run: "in_conn d (cx_remove os d) w = Inr w'" using run cn by (simp add: FConnDestory run_functor_def connDestory_def)
    have "cx_reg v d x' \<and> cx_step v opn d x x'" if "cx_remove os d x = Inr x'" "cx_reg v d x" for x x'
      using sound_Inr [OF cx_remove_sound [OF k that(2)] that(1)] by blast
    then have "same_at v c w w'" if "c \<noteq> d" using in_conn_attends [OF ti run] that by metis
    moreover have ph: "phase_at c w' = phase_at c w" by (rule phase_same [OF in_conn_trace [OF run]])
    ultimately show ?thesis using watched_same [OF wa _ ph] p by (cases "c = d") (auto simp: watched_def)
  next
    case (FWriteComplete cb d)
    have "acts_ok (Some d) (fresh_loop w) (input_len w d) (good_str w) (on_write_complete app cb w d)"
      using app own ok FWriteComplete by (simp add: app_ok_def own_ok_def)
    then show ?thesis
      using noted_watched [OF k ti iv wa, of A _ "CalledWriteComplete cb d"] q(1) live ok run
      by (simp add: FWriteComplete run_functor_def)
  next
    case (FHighWater cb d n)
    have "acts_ok (Some d) (fresh_loop w) (input_len w d) (good_str w) (on_high_water app cb w d n)"
      using app own ok FHighWater by (simp add: app_ok_def own_ok_def)
    then show ?thesis
      using noted_watched [OF k ti iv wa, of A _ "CalledHighWater cb d n"] q(1) live ok run
      by (simp add: FHighWater run_functor_def)
  next
    case FListen
    then show ?thesis using listen_watched [OF k s _ wa] run by (simp add: run_functor_def)
  next
    case (FRemoveConnection d)
    then have "removeConnectionInLoop os d w = Inr w'" using run by (simp add: run_functor_def)
    then show ?thesis
      using watched_attends [OF wa k ti] removal_attends phase_same by blast
  next
    case (FUser u)
    have "acts_ok None (fresh_loop w) 0 (good_str w) (on_user app u w)" using app by (simp add: app_ok_def)
    moreover have "run_actions os A (on_user app u w) (note_call (CalledUser u) w) = Inr w'"
      using run by (simp add: FUser run_functor_def)
    ultimately show ?thesis
      by (intro noted_watched [where me = None and ob = "CalledUser u", OF k ti iv wa]) simp_all
  qed
qed

section \<open>Turns\<close>

lemma set_revents_same_at: "set_revents p ev w = Inr w' \<Longrightarrow> same_at v c w w'"
  by (rule same_at_fields)
    (auto simp: set_revents_def with_server_def upd_conn_def slot_def fun_eq_iff option.rel_refl same_chan_def setRevents_def
      split: chan_ptr.splits option.splits if_split_asm)

lemma triggerChannels_watched:
  "triggerChannels set_revents es active w = Inr (w', as) \<Longrightarrow> watched v c w \<Longrightarrow> watched v c w'"
proof (induction es arbitrary: w active)
  case (Cons e es)
  then obtain w1 where w1: "set_revents (snd e) (fst e) w = Inr w1"
      and r: "triggerChannels set_revents es (active @ [snd e]) w1 = Inr (w', as)"
    by (cases e) (auto simp: res_iff)
  have "trace w1 = trace w"
    using w1 by (auto simp: set_revents_def with_server_def upd_conn_def split: chan_ptr.splits option.splits)
  then have "watched v c w1" using watched_same [OF Cons.prems(2) set_revents_same_at [OF w1] phase_same] by blast
  then show ?case by (rule Cons.IH [OF r])
qed simp

lemma upd_loop_watched:
  assumes "watched v c w" and "\<And>lp. poller (g lp) = poller lp"
  shows "watched v c (upd_loop l g w)"
proof (rule watched_same [OF assms(1)])
  show "same_at v c w (upd_loop l g w)"
    by (rule same_at_fields) (simp_all add: slot_def upd_loop_def assms(2) fun_eq_iff option.rel_refl)
qed (simp add: phase_at_def upd_loop_def)

lemma poll_watched:
  assumes k: "kernel_ok os v opn" and run: "poll_phase os l w = Inr w'" and wa: "watched v c w"
  shows "watched v c w'"
proof -
  obtain po k2 po' es now w1 w2 as where po: "poller (loops w l) = Some po"
      and poll: "poller_poll os kPollWaitTime (kern w, po) = Inr (k2, po', es, now)"
      and w1: "w1 = upd_loop l (\<lambda>lp. lp\<lparr>active_channels := [], poller := Some po'\<rparr>) (w\<lparr>kern := k2\<rparr>)"
      and w2: "triggerChannels set_revents es [] w1 = Inr (w2, as)"
      and w': "w' = upd_loop l (\<lambda>lp. lp\<lparr>active_channels := as, poll_return_time := now\<rparr>) w2"
    using run by (rule poll_phase_parts)
  have "keeps_views v opn (kern w) k2 \<and> epollfd po' = epollfd po \<and> channels po' = channels po"
    by (rule poller_poll_result [OF k, of kPollWaitTime "kern w" po]) (simp add: poll)
  then have "same_at v c w w1"
    by (intro same_at_fields) (auto simp: w1 upd_loop_def slot_def po keeps_views_def fun_eq_iff option.rel_refl)
  then have "watched v c w1" by (rule watched_same [OF wa]) (simp add: phase_at_def w1 upd_loop_def)
  then show ?thesis unfolding w' by (intro upd_loop_watched triggerChannels_watched [OF w2]) simp_all
qed

text \<open>The end of a connection does not concern the others.\<close>

lemma release_same_at:
  assumes k: "kernel_ok os v opn" and s: "safe v opn l B H w" and cn: "conns (release os d w) c = Some cn"
  shows "same_at v c w (release os d w)"
proof (cases "conns w d = None \<or> referenced d w")
  case True
  then have "release os d w = w" by (auto simp: release_def split: option.splits)
  then show ?thesis by (simp add: same_at_def option.rel_refl)
next
  case False
  then obtain dn where dn: "conns w d = Some dn" "release os d w = TcpConnection_destroy os d dn w"
    by (auto simp: release_def)
  note C = closed_connD [OF destroy_closed [OF k s dn(1)], folded dn(2)]
  have c: "conns w c = Some cn" "c \<noteq> d" using cn C(9) by auto
  have ok: "ch_fd (tc_channel cn) = tc_sockfd cn" "tc_loop cn < fresh_loop w"
    using safe_conn [OF s c(1)] by (simp_all add: conn_ok_def)
  have "tc_sockfd cn \<noteq> tc_sockfd dn" using safeD(3) [OF s] c dn(1) unfolding fds_ok_def by blast
  then have "slot v (release os d w) (tc_loop cn) (ch_fd (tc_channel cn)) = slot v w (tc_loop cn) (ch_fd (tc_channel cn))"
    using C(1,2) C(8) [OF ok(2), of "tc_sockfd cn"] ok(1) by (intro slot_parts) auto
  then show ?thesis using c(1) cn by (simp add: same_at_def)
qed

lemma release_functors_watched:
  fixes w :: "'k world"
  assumes k: "kernel_ok os v opn" and s: "safe v opn l [] H w" and wa: "watched v c w"
    and cn: "conns (release_functors os fs w) c \<noteq> None"
  shows "watched v c (release_functors os fs w)"
proof -
  have gone: "conns (fold (release os) cs w) c = None" if "conns w c = None" for cs and w :: "'k world"
    using that by (induction cs arbitrary: w) (auto simp: release_def TcpConnection_destroy_def split: option.split)
  have "watched v c (fold (release os) cs w)"
    if "safe v opn l [] H w" "watched v c w" "conns (fold (release os) cs w) c \<noteq> None" for cs H and w :: "'k world"
    using that
  proof (induction cs arbitrary: H w)
    case (Cons d cs)
    have "conns (release os d w) c \<noteq> None"
    proof
      assume "conns (release os d w) c = None"
      then show False using gone [of "release os d w" cs] Cons.prems(3) by simp
    qed
    then have "watched v c (release os d w)"
      using watched_same [OF Cons.prems(2) release_same_at [OF k Cons.prems(1)] phase_same] release_loops by blast
    then show ?case using Cons.IH [OF release_safe [OF k Cons.prems(1)]] Cons.prems(3) by simp
  qed simp
  then show ?thesis using s wa cn by (simp add: release_functors_def)
qed

lemma turn_watched:
  assumes k: "kernel_ok os v opn" and app: "app_ok app" and h: "healthy v opn w" and l: "l < fresh_loop w"
    and iv: "lived {} l [] w" and run: "loop_turn os A app l w = Inr w'" and wa: "watched v c w"
  shows "watched v c w'"
proof -
  obtain u H fs where u: "watched v c u" and s: "safe v opn l [] H (upd_loop l (\<lambda>lp. lp\<lparr>calling_pending := False\<rparr>) u)"
    and w': "w' = release_functors os fs (upd_loop l (\<lambda>lp. lp\<lparr>calling_pending := False\<rparr>) u)"
  proof (rule turn_rule [where Q = "watched v c" and V = "\<lambda>B. watched v c", OF k app h l iv run])
    fix u assume p: "poll_phase os l (w\<lparr>cur_tid := thread_id (loops w l)\<rparr>) = Inr u"
    have "same_at v c w (w\<lparr>cur_tid := thread_id (loops w l)\<rparr>)"
      by (rule same_at_fields) (simp_all add: slot_def fun_eq_iff option.rel_refl)
    then have "watched v c (w\<lparr>cur_tid := thread_id (loops w l)\<rparr>)" by (rule watched_same [OF wa]) (simp add: phase_at_def)
    then show "watched v c u" by (rule poll_watched [OF k p])
  next
    fix f B H u u' assume x: "safe v opn l (f # B) H u" "lived {} l (f # B) u" "l < fresh_loop u"
        "isInLoopThread (cur_tid u) (loops u l)" "watched v c u" "run_functor os A app f u = Inr u'"
    show "watched v c u'" by (rule run_functor_watched [OF k app x(1,3,4,2,6,5)])
  next
    fix u assume u: "watched v c u"
    show "watched v c (upd_loop l (\<lambda>lp. lp\<lparr>pending := []\<rparr>) (upd_loop l (\<lambda>lp. lp\<lparr>calling_pending := True\<rparr>) u))"
      by (intro upd_loop_watched u) simp_all
  qed (use run_handler_watched [OF k app] in blast)+
  show ?thesis
  proof (cases "conns w' c")
    case None
    obtain p where "phase_at c w' = Some p" "life_ok {} l [] w' c p"
      using loop_turn_lived [OF k app h l iv run] by (rule lived_phase)
    then show ?thesis using None by (auto simp: watched_def life_ok_def)
  next
    case (Some cn)
    have "watched v c (upd_loop l (\<lambda>lp. lp\<lparr>calling_pending := False\<rparr>) u)" by (rule upd_loop_watched [OF u]) simp
    then show ?thesis using release_functors_watched [OF k s] Some unfolding w' by simp
  qed
qed

section \<open>Properties\<close>

lemma blank_watched: "blank w \<Longrightarrow> watched v c w"
  using blank_lived [of w 0 "[]"] by (auto simp: watched_def lived_def life_ok_def blank_def)

definition attended :: "('k \<Rightarrow> interest_view) \<Rightarrow> 'k world \<Rightarrow> bool" where
  "attended v w \<longleftrightarrow> orderly w \<and> (\<forall>c. life_run c Unborn (trace w) = Some Up \<longrightarrow> listens v w c)"

lemma attended_watched: "attended v w \<longleftrightarrow> orderly w \<and> (\<forall>c. watched v c w)"
  by (simp add: attended_def watched_def phase_at_def)

lemma attended_kept:
  assumes k: "kernel_ok os v opn" and app: "app_ok app"
  shows "turns_keep os v opn A app (attended v)"
proof -
  note O = orderly_kept [OF k app, of A]
  have "attended v w'" if w: "healthy v opn w" "l < fresh_loop w" "attended v w" "loop_turn os A app l w = Inr w'" for l w w'
    using turns_keepD(3) [OF O w(1,2) _ w(4)] turn_watched [OF k app w(1,2) orderlyD(1) w(4)] w(3)
    unfolding attended_watched by blast
  moreover have "attended v (upd_loop l g w)" if g: "\<forall>lp. poller (g lp) = poller lp \<and> pending (g lp) = pending lp" "attended v w"
    for l g and w :: "'a world"
    using turns_keepD(4) [OF O, of g w l] upd_loop_watched [of v _ w g l] g unfolding attended_watched by blast
  ultimately show ?thesis using k app unfolding turns_keep_def by blast
qed

text \<open>C9. Who was told that a connection is up and not yet that it is down may rely on its input being waited
  for: the connection exists, it wants to read, and the epoll instance of its own loop is registered for
  exactly the events its channel asks for. However the loops take their turns and whatever user code does
  in them, this stays so for every connection (\<open>attended\<close>), those accepted meanwhile included.\<close>

theorem up_connections_heard:
  assumes "kernel_ok os v opn" and "app_ok app" and "healthy v opn w" and "attended v w"
    and "set ls \<subseteq> {..<fresh_loop w}" and "fold_res (loop_turn os A app) ls w = Inr w'"
  shows "attended v w'"
proof -
  let ?I = "\<lambda>u. healthy v opn u \<and> fresh_loop u = fresh_loop w \<and> attended v u"
  have "?I w'"
  proof (rule fold_res_invariant [OF assms(6)])
    fix l u u' assume l: "l \<in> set ls" and u: "?I u" and r: "loop_turn os A app l u = Inr u'"
    then have l: "l < fresh_loop u" using assms(5) by auto
    then show "?I u'"
      using sound_Inr [OF loop_turn_sound [OF assms(1,2) _ l] r] turns_keepD(3) [OF attended_kept [OF assms(1,2)] _ l _ r] u
      by simp
  qed (use assms(3,4) in simp)
  then show ?thesis by blast
qed

lemma told_attended: "attended interest told_world"
proof -
  have "listens interest told_world 0"
    by (simp add: listens_def told_world_def quiet_world_def demo_world_def demo_conn_def demo_chan_def demo_loop_def seen_def
        isReadSet_def event_masks tie_def setReadCallback_def setWriteCallback_def setCloseCallback_def setErrorCallback_def
        Channel_new_def)
  moreover have "life_run c Unborn (trace told_world) = Some Up \<longleftrightarrow> c = 0" for c
    by (simp add: told_world_def)
  ultimately show ?thesis using told_orderly by (simp add: attended_def)
qed

theorem up_connections_heard_witness:
  "\<exists>w'. fold_res (loop_turn checked_os libstdcxx echo_app) [0] told_world = Inr w'
    \<and> life_run 0 Unborn (trace w') = Some Up \<and> listens interest w' 0"
proof -
  have "happening (kern told_world) = []" "poller (loops told_world 0) = poller demo_loop" "pending (loops told_world 0) = []"
    using quiet_world_quiet by (simp_all add: told_world_def)
  then obtain w' where "loop_turn checked_os libstdcxx echo_app 0 told_world = Inr w'" and tr: "trace w' = trace told_world"
    using quiet_turn quiet_world_quiet(3) by fastforce
  then have run: "fold_res (loop_turn checked_os libstdcxx echo_app) [0] told_world = Inr w'" by simp
  have l: "set [0] \<subseteq> {..<fresh_loop told_world}" by (simp add: told_world_def quiet_world_def demo_world_def)
  have "life_run 0 Unborn (trace w') = Some Up" unfolding tr by (simp add: told_world_def)
  with up_connections_heard [OF checked_kernel_ok echo_app_ok told_healthy told_attended l run] run
  show ?thesis by (auto simp: attended_def)
qed



end
