(* ===== verification/Rounds.thy ===== *)
theory Rounds
  imports Contract
begin

text \<open>
  Rounds of turns, in which every loop takes its turn at least once, and what four of them do to a
  connection whose user was told that it is down.
\<close>

section \<open>Turns of any loops\<close>

text \<open>A round in which \<open>Q\<close> holds until the loop \<open>i\<close> takes a turn and \<open>R\<close> from then on.\<close>

lemma round_reaches:
  assumes k: "kernel_ok os v opn" and app: "app_ok app" and s: "sane v opn N w" and ls: "set ls \<subseteq> {..<N}"
    and run: "fold_res (loop_turn os A app) ls w = Inr w'" and i: "i \<in> set ls" and start: "Q w"
    and wait: "\<And>l u u'. l < N \<Longrightarrow> l \<noteq> i \<Longrightarrow> sane v opn N u \<Longrightarrow> loop_turn os A app l u = Inr u' \<Longrightarrow> Q u \<Longrightarrow> Q u'"
    and hit: "\<And>u u'. sane v opn N u \<Longrightarrow> loop_turn os A app i u = Inr u' \<Longrightarrow> Q u \<Longrightarrow> R u'"
    and keep: "\<And>l u u'. l < N \<Longrightarrow> sane v opn N u \<Longrightarrow> loop_turn os A app l u = Inr u' \<Longrightarrow> R u \<Longrightarrow> R u'"
  shows "R w'"
proof -
  obtain a b where ab: "ls = a @ i # b" "i \<notin> set a" using i by (meson split_list_first)
  obtain w1 w2 where w1: "fold_res (loop_turn os A app) a w = Inr w1"
    and w2: "loop_turn os A app i w1 = Inr w2" and w': "fold_res (loop_turn os A app) b w2 = Inr w'"
    using run by (auto simp: ab(1) fold_res_append res_iff)
  have "sane v opn N w1 \<and> Q w1"
  proof (rule fold_res_invariant [OF w1])
    fix l u u' assume l: "l \<in> set a" and i: "sane v opn N u \<and> Q u" and r: "loop_turn os A app l u = Inr u'"
    have "l < N" "l \<noteq> i" using l ls ab by auto
    then show "sane v opn N u' \<and> Q u'" using turn_sane [OF k app _ _ r] wait [OF _ _ _ r] i by blast
  qed (use s start in simp)
  moreover have "i < N" using i ls by blast
  ultimately have "sane v opn N w2 \<and> R w2" using turn_sane [OF k app _ _ w2] hit [OF _ w2] by blast
  moreover have "l < N" if "l \<in> set b" for l using that ls ab by auto
  ultimately have "sane v opn N w' \<and> R w'"
    by (intro fold_res_invariant [OF w', where P = "\<lambda>u. sane v opn N u \<and> R u"]) (use turn_sane [OF k app] keep in blast)+
  then show ?thesis by blast
qed

lemma round_keeps:
  assumes k: "kernel_ok os v opn" and app: "app_ok app" and s: "sane v opn N w" and ls: "set ls \<subseteq> {..<N}"
    and run: "fold_res (loop_turn os A app) ls w = Inr w'" and start: "Q w"
    and keep: "\<And>l u u'. l < N \<Longrightarrow> sane v opn N u \<Longrightarrow> loop_turn os A app l u = Inr u' \<Longrightarrow> Q u \<Longrightarrow> Q u'"
  shows "Q w'"
proof -
  have "sane v opn N w' \<and> Q w'"
    by (rule fold_res_invariant [OF run]) (use s ls start turn_sane [OF k app] keep in auto)
  then show ?thesis by blast
qed

section \<open>Four rounds\<close>

text \<open>The first round runs the \<open>removeConnectionInLoop\<close>.\<close>

lemma round_removes:
  assumes k: "kernel_ok os v opn" and app: "app_ok app" and s: "sane v opn N w" and ls: "set ls = {..<N}"
    and run: "fold_res (loop_turn os A app) ls w = Inr w'"
    and c: "retired c w \<or> c < fresh_conn w \<and> (\<exists>i < N. FRemoveConnection c \<in> set (pending (loops w i)))"
  shows "retired c w'"
proof -
  have R: "retired c u'" if "l < N" "sane v opn N u" "loop_turn os A app l u = Inr u'" "retired c u" for l and u u' :: "'a world"
    using turn_retires [OF k app saneD(1) [OF that(2)] _ saneD(3) [OF that(2)] that(3)] that saneD(2) [OF that(2)]
    by (simp add: retires_def)
  show ?thesis
  proof (cases "retired c w")
    case True
    then show ?thesis using round_keeps [OF k app s _ run, where Q = "retired c"] ls R by blast
  next
    case False
    then obtain i where i: "i < N" "c < fresh_conn w" "FRemoveConnection c \<in> set (pending (loops w i))" using c by blast
    let ?Q = "\<lambda>u. c < fresh_conn u \<and> FRemoveConnection c \<in> set (pending (loops u i))"
    show ?thesis
    proof (rule round_reaches [where Q = ?Q and R = "retired c" and i = i, OF k app s _ run])
      fix l u u' assume u: "l < N" "l \<noteq> i" "sane v opn N u" "loop_turn os A app l u = Inr u'" "?Q u"
      have l: "l < fresh_loop u" using u(1) saneD(2) [OF u(3)] by simp
      note T = k app saneD(1) [OF u(3)] l saneD(3) [OF u(3)] u(4)
      show "?Q u'" using turn_retires [OF T, of c] turn_keeps_queue [OF T, of i "FRemoveConnection c"] u(2,5)
        by (simp add: retires_def)
    next
      fix u u' assume u: "sane v opn N u" "loop_turn os A app i u = Inr u'" "?Q u"
      have l: "i < fresh_loop u" using i(1) saneD(2) [OF u(1)] by simp
      show "retired c u'" using remove_turn [OF k app saneD(1) [OF u(1)] l saneD(3) [OF u(1)] u(2)] u(3) by blast
    qed (use i ls R in auto)
  qed
qed

lemma turn_stays_dead:
  assumes k: "kernel_ok os v opn" and app: "app_ok app" and l: "l < N" and s: "sane v opn N u"
    and run: "loop_turn os A app l u = Inr u'" and d: "dead c u"
  shows "dead c u'"
    and "adds (\<lambda>f. functor_holds f = Some c \<longrightarrow> FRemoveConnection c \<in> set (pending (loops u l)) \<and> f = FConnDestory c)
      (if l' = l then [] else pending (loops u l')) (pending (loops u' l'))"
  using dead_turn [OF k app saneD(1) [OF s] _ saneD(3) [OF s] run d] l saneD(2) [OF s] by simp_all

text \<open>The second round runs the \<open>connDestory\<close>.\<close>

lemma round_destroys:
  assumes k: "kernel_ok os v opn" and app: "app_ok app" and s: "sane v opn N w" and ls: "set ls = {..<N}"
    and run: "fold_res (loop_turn os A app) ls w = Inr w'" and c: "retired c w"
  shows "dead c w'"
proof (cases "dead c w")
  case True
  show ?thesis
    by (rule round_keeps [OF k app s _ run, where Q = "dead c"]) (use True ls turn_stays_dead(1) [OF k app] in auto)
next
  case False
  then obtain cn where cn: "conns w c = Some cn" using c by (auto simp: dead_def idle_def)
  obtain p where p: "life_ok {} 0 [] w c p" using saneD(3) [OF s] by (rule lived_phase)
  have "tc_state cn = kDisconnected" using life_okD(3,4) [OF p cn] c by (simp add: retired_def)
  then have "\<not> quiet cn" using False c cn by (auto simp: dead_def idle_def quiet_def)
  then have "queued 0 [] w (FConnDestory c)"
    using safe_stage(1) [OF saneD(1) [OF s, unfolded healthy_def] cn] c by (simp add: stage_ok_def kept_def retired_def)
  then obtain i where i: "i < N" "FConnDestory c \<in> set (pending (loops w i))"
    using saneD(2) [OF s] by (auto simp: queued_def queue_of_def split: if_split_asm)
  let ?Q = "\<lambda>u. retired c u \<and> FConnDestory c \<in> set (pending (loops u i))"
  show ?thesis
  proof (rule round_reaches [where Q = ?Q and R = "dead c" and i = i, OF k app s _ run])
    fix l u u' assume u: "l < N" "l \<noteq> i" "sane v opn N u" "loop_turn os A app l u = Inr u'" "?Q u"
    have l: "l < fresh_loop u" using u(1) saneD(2) [OF u(3)] by simp
    note T = k app saneD(1) [OF u(3)] l saneD(3) [OF u(3)] u(4)
    show "?Q u'" using turn_retires [OF T, of c] turn_keeps_queue [OF T, of i "FConnDestory c"] u(2,5)
      by (simp add: retires_def)
  next
    fix u u' assume u: "sane v opn N u" "loop_turn os A app i u = Inr u'" "?Q u"
    have l: "i < fresh_loop u" using i(1) saneD(2) [OF u(1)] by simp
    show "dead c u'" using destroy_turn [OF k app saneD(1) [OF u(1)] l saneD(3) [OF u(1)] u(2)] u(3) by blast
  qed (use i ls c turn_stays_dead(1) [OF k app] in auto)
qed

text \<open>
  The third round runs what the queues hold of a dead connection, and can only queue its
  \<open>connDestory\<close> once more; the fourth runs that.
\<close>

definition drained :: "(Functor \<Rightarrow> bool) \<Rightarrow> nat \<Rightarrow> nat \<Rightarrow> 'k world \<Rightarrow> bool" where
  "drained P c l w \<longleftrightarrow> (\<forall>f \<in> set (pending (loops w l)). functor_holds f = Some c \<longrightarrow> P f)"

lemma round_drains:
  assumes k: "kernel_ok os v opn" and app: "app_ok app" and s: "sane v opn N w" and ls: "set ls = {..<N}"
    and run: "fold_res (loop_turn os A app) ls w = Inr w'" and c: "dead c w" and l: "l < N"
    and P: "\<And>u l f. dead c u \<Longrightarrow> I u \<Longrightarrow> l < N \<Longrightarrow> FRemoveConnection c \<in> set (pending (loops u l)) \<Longrightarrow> P (FConnDestory c)"
    and I: "I w" "\<And>l u u'. l < N \<Longrightarrow> sane v opn N u \<Longrightarrow> loop_turn os A app l u = Inr u' \<Longrightarrow> dead c u \<and> I u \<Longrightarrow> I u'"
  shows "drained P c l w'"
proof -
  have step: "adds (\<lambda>f. functor_holds f = Some c \<longrightarrow> P f) (if l' = m then [] else pending (loops u l')) (pending (loops u' l'))"
    if u: "m < N" "sane v opn N u" "loop_turn os A app m u = Inr u'" "dead c u \<and> I u" for m l' u u'
    using turn_stays_dead(2) [OF k app u(1-3), of c l'] u(1,4) P by (auto elim!: adds_mono)
  have "(dead c w' \<and> I w') \<and> drained P c l w'"
  proof (rule round_reaches [where Q = "\<lambda>u. dead c u \<and> I u" and i = l, OF k app s _ run])
    fix m u u' assume u: "m < N" "sane v opn N u" "loop_turn os A app m u = Inr u'" "(dead c u \<and> I u) \<and> drained P c l u"
    then show "(dead c u' \<and> I u') \<and> drained P c l u'"
      using turn_stays_dead(1) [OF k app u(1-3)] I(2) [OF u(1-3)] step [OF u(1-3), of l]
      by (auto simp: drained_def adds_def split: if_split_asm)
  next
    fix u u' assume u: "sane v opn N u" "loop_turn os A app l u = Inr u'" "dead c u \<and> I u"
    then show "(dead c u' \<and> I u') \<and> drained P c l u'"
      using turn_stays_dead(1) [OF k app l u(1,2)] I(2) [OF l u(1,2)] step [OF l u(1,2), of l]
      by (auto simp: drained_def adds_def)
  qed (use l ls c I turn_stays_dead(1) [OF k app] in auto)
  then show ?thesis by blast
qed

lemma turn_drained:
  assumes k: "kernel_ok os v opn" and app: "app_ok app" and l: "l < N" and s: "sane v opn N u"
    and run: "loop_turn os A app l u = Inr u'" and d: "dead c u" and i: "drained (\<lambda>f. f = FConnDestory c) c i u"
  shows "drained (\<lambda>f. f = FConnDestory c) c i u'"
  using turn_stays_dead(2) [OF k app l s run d, of i] i by (auto simp: drained_def adds_def split: if_split_asm)

lemma drained_removal: "drained (\<lambda>f. f = FConnDestory c) c l u \<Longrightarrow> FRemoveConnection c \<notin> set (pending (loops u l))"
  by (force simp: drained_def)

lemma drained_gone:
  assumes s: "sane v opn N w" and d: "dead c w" and q: "\<And>l. l < N \<Longrightarrow> drained (\<lambda>_. False) c l w"
  shows "conns w c = None \<and> \<not> referenced c w"
proof -
  have r: "\<not> referenced c w" using d q saneD(2) [OF s] by (auto simp: referenced_def dead_def retired_def drained_def list_ex_iff)
  moreover have "conns w c \<noteq> Some cn" for cn using safe_stage(2) [OF saneD(1) [OF s, unfolded healthy_def]] r by blast
  ultimately show ?thesis by auto
qed

lemma round_stays_dead:
  assumes "kernel_ok os v opn" and "app_ok app" and "sane v opn N w" and "set ls = {..<N}"
    and "fold_res (loop_turn os A app) ls w = Inr w'" and "dead c w"
  shows "dead c w'"
  by (rule round_keeps [where Q = "dead c", OF assms(1-3) _ assms(5,6)])
     (use assms(4) turn_stays_dead(1) [OF assms(1,2)] in auto)

lemma four_rounds:
  assumes k: "kernel_ok os v opn" and app: "app_ok app" and s: "sane v opn N w"
    and rs: "set r1 = {..<N}" "set r2 = {..<N}" "set r3 = {..<N}" "set r4 = {..<N}"
    and run: "fold_res (loop_turn os A app) (r1 @ r2 @ r3 @ r4) w = Inr w'"
    and c: "retired c w \<or> c < fresh_conn w \<and> (\<exists>i < N. FRemoveConnection c \<in> set (pending (loops w i)))"
  shows "conns w' c = None \<and> \<not> referenced c w'"
proof -
  obtain w1 w2 w3 where 1: "fold_res (loop_turn os A app) r1 w = Inr w1" and 2: "fold_res (loop_turn os A app) r2 w1 = Inr w2"
    and 3: "fold_res (loop_turn os A app) r3 w2 = Inr w3" and 4: "fold_res (loop_turn os A app) r4 w3 = Inr w'"
    using run by (auto simp: fold_res_append res_iff)
  let ?d = "\<lambda>l. drained (\<lambda>f. f = FConnDestory c) c l"
  have s1: "sane v opn N w1" by (rule turns_sane [OF k app s _ 1]) (simp add: rs)
  have s2: "sane v opn N w2" by (rule turns_sane [OF k app s1 _ 2]) (simp add: rs)
  have s3: "sane v opn N w3" by (rule turns_sane [OF k app s2 _ 3]) (simp add: rs)
  have s4: "sane v opn N w'" by (rule turns_sane [OF k app s3 _ 4]) (simp add: rs)
  have "retired c w1" by (rule round_removes [OF k app s rs(1) 1 c])
  then have d2: "dead c w2" by (rule round_destroys [OF k app s1 rs(2) 2])
  have d3: "dead c w3" by (rule round_stays_dead [OF k app s2 rs(3) 3 d2])
  have d4: "dead c w'" by (rule round_stays_dead [OF k app s3 rs(4) 4 d3])
  have q3: "?d l w3" if "l < N" for l
    by (rule round_drains [where I = "\<lambda>_. True", OF k app s2 rs(3) 3 d2 that]) simp_all
  have "drained (\<lambda>_. False) c l w'" if l: "l < N" for l
  proof (rule round_drains [where I = "\<lambda>u. \<forall>l < N. ?d l u", OF k app s3 rs(4) 4 d3 l])
    fix m u u' assume u: "m < N" "sane v opn N u" "loop_turn os A app m u = Inr u'" "dead c u \<and> (\<forall>l < N. ?d l u)"
    then show "\<forall>l < N. ?d l u'" using turn_drained [OF k app u(1-3)] by blast
  qed (use q3 drained_removal in blast)+
  then show ?thesis by (rule drained_gone [OF s4 d4])
qed

section \<open>Told down\<close>

lemma told_born:
  assumes s: "sane v opn N w" and t: "told_down c w"
  shows "c < fresh_conn w"
proof -
  have down: "p = Down" if "CalledConnection cb c False \<in> set obs" "life_run c q obs = Some p" for cb obs p q
  proof -
    have stays: "p = Down" if "life_run c Down obs = Some p" for obs
      using that by (induction obs) (auto split: if_split_asm option.splits elim: life_step.elims)
    show ?thesis using that
    proof (induction obs arbitrary: q)
      case (Cons ob obs)
      then show ?case
        using stays by (cases q) (auto split: if_split_asm option.splits)
    qed simp
  qed
  obtain p where p: "phase_at c w = Some p" using saneD(3) [OF s] by (rule lived_phase)
  then have "phase_at c w = Some Down" using down t by (auto simp: told_down_def phase_at_def)
  then show ?thesis using down_born [OF healthy_safe [OF saneD(1) [OF s]] saneD(3) [OF s]] by blast
qed

section \<open>A connection whose peer has closed\<close>

text \<open>The example server with one connection that is up, as its end of stream arrives.\<close>

definition eof_world :: "toy world" where
  "eof_world = told_world\<lparr>kern := (kern told_world)\<lparr>happening := [(1, ConnCh 0)], input := \<lambda>_. []\<rparr>\<rparr>"

lemma eof_healthy: "healthy interest checked_open eof_world"
  unfolding healthy_def eof_world_def
  by (rule kern_safe [OF told_healthy [unfolded healthy_def], THEN conjunct1]) (simp add: keeps_views_def checked_open_def)

lemma eof_fields:
  "loops eof_world = (\<lambda>_. demo_loop)" "conns eof_world = [0 \<mapsto> demo_conn]" "cur_tid eof_world = 1"
  "server eof_world = Some demo_server" "happening (kern eof_world) = [(1, ConnCh 0)]" "fresh_loop eof_world = 1"
  "trace eof_world = [CalledConnection kOnConnection 0 True]"
  by (simp_all add: eof_world_def told_world_def quiet_world_def demo_world_def)

lemma eof_orderly: "orderly eof_world"
  by (rule orderly_still [OF told_orderly]) (simp_all add: eof_world_def)

definition demo_poller :: epoll_poller where
  "demo_poller = the (poller demo_loop)"

abbreviation eof_kern :: toy where
  "eof_kern \<equiv> (kern eof_world)\<lparr>happening := []\<rparr>"

lemma eof_poll:
  "poller_poll checked_os kPollWaitTime (kern eof_world, demo_poller) = Inr (eof_kern, demo_poller, [(1, ConnCh 0)], 0)"
proof -
  have "registered (kern eof_world) 3 (ConnCh 0)"
    by (simp add: registered_def eof_world_def told_world_def quiet_world_def demo_world_def list_ex_iff) (rule bexI [of _ 6]; simp)
  then show ?thesis
    by (simp add: poller_poll_def checked_wait_def demo_poller_def demo_loop_def eof_fields) (simp add: checked_os_def toy_os_def)
qed

lemma eof_read: "sys_readv checked_os fd lens eof_kern = (Inr [], eof_kern)"
  by (simp add: checked_os_def toy_readv_def Let_def eof_world_def) (simp add: fun_upd_idem)

lemma eof_absorb: "buffer_absorb libstdcxx [] demo_buffer = Inr demo_buffer"
  by (simp add: buffer_absorb_def demo_buffer_def writableBytes_def bytes_write_def size_add_def Let_def libstdcxx_def)

lemma eof_ctl:
  "toy_ctl 3 EPOLL_CTL_DEL 6 e p eof_kern = (Inr (), eof_kern\<lparr>interest :=
     (interest (kern eof_world))(3 := (interest (kern eof_world) 3)(6 := None))\<rparr>)"
  by (simp add: toy_ctl_def) (simp add: eof_world_def told_world_def quiet_world_def demo_world_def)

lemma eof_close: "sys_close checked_os fd k = (Inr (), k)"
  by (simp add: checked_os_def toy_os_def)

definition eof_seen :: "toy world" where
  "eof_seen = upd_loop 0 (\<lambda>lp. lp\<lparr>active_channels := [ConnCh 0], poll_return_time := 0\<rparr>)
     (eof_world\<lparr>kern := eof_kern, conns := [0 \<mapsto> demo_conn\<lparr>tc_channel := setRevents 1 demo_chan\<rparr>]\<rparr>)"

lemma upd_loop_same: "g (loops w l) = loops w l \<Longrightarrow> upd_loop l g w = w"
  by (simp add: upd_loop_def fun_upd_idem)

lemma eof_reported: "poll_phase checked_os 0 (eof_world\<lparr>cur_tid := thread_id (loops eof_world 0)\<rparr>) = Inr eof_seen"
proof -
  have "eof_world\<lparr>cur_tid := thread_id (loops eof_world 0)\<rparr> = eof_world"
    by (simp add: eof_world_def told_world_def quiet_world_def demo_world_def demo_loop_def)
  moreover have "upd_loop 0 (\<lambda>lp. lp\<lparr>active_channels := []\<rparr>) eof_world = eof_world"
    by (rule upd_loop_same) (simp add: eof_fields demo_loop_def)
  moreover have same: "upd_loop 0 (\<lambda>lp. lp\<lparr>poller := Some demo_poller\<rparr>) (eof_world\<lparr>kern := k\<rparr>) = eof_world\<lparr>kern := k\<rparr>" for k
    by (rule upd_loop_same) (simp add: eof_fields demo_loop_def demo_poller_def)
  moreover have "poller (loops eof_world 0) = Some demo_poller" by (simp add: eof_fields demo_loop_def demo_poller_def)
  ultimately show ?thesis
    unfolding poll_phase_def Let_def
    by (simp add: eof_poll upd_conn_def eof_seen_def set_revents_def eof_fields) (simp add: demo_conn_def)
qed

lemmas turn_defs = handle_phase_def upd_loop_def handle_channel_def handleEvent_def handleEventWithGuard_def event_masks
  setRevents_def run_handler_def call_if_def run_pending_def executePendingFunctors_def run_functor_def
  release_functors_def release_def referenced_def in_table_def List.map_filter_def Let_def

lemmas closing_defs = handleRead_def buffer_read_def handleClose_def in_conn_def cx_setState_def disableAllEvent_def
  cx_update_def loop_updateChannel_def updateChannel_def epoll_update_def isSilent_def setState_def
  call_connection_def run_actions_def note_call_def isConnected_def echo_app_def echo_onConnection_def
  closer_def removeConnection_def with_server_def runLoopCallback_def removeConnectionInLoop_def
  net_push_def on_loop_def isInLoopThread_def pushLoopCallback_def
  connDestory_def cx_remove_def loop_removeChannel_def removeChannel_def TcpConnection_destroy_def Socket_destroy_def

lemma eof_turn:
  "\<exists>w1. loop_turn checked_os libstdcxx echo_app 0 eof_world = Inr w1 \<and> told_down 0 w1
    \<and> happening (kern w1) = [] \<and> poller (loops w1 0) \<noteq> None \<and> pending (loops w1 0) = []"
  unfolding loop_turn_def eof_reported
  by (simp add: eof_seen_def told_down_def turn_defs closing_defs eof_fields eof_read eof_absorb eof_ctl eof_close
      demo_loop_def demo_conn_def demo_chan_def demo_server_def Channel_new_def setReadCallback_def
      setWriteCallback_def setCloseCallback_def setErrorCallback_def tie_def)

lemma quiet_turns:
  assumes "happening (kern w) = []" and "poller (loops w l) \<noteq> None" and "pending (loops w l) = []"
  shows "\<exists>w'. fold_res (loop_turn checked_os A app) (replicate n l) w = Inr w'"
  using assms
proof (induction n arbitrary: w)
  case (Suc n)
  then obtain po where "poller (loops w l) = Some po" by blast
  then obtain w1 where "loop_turn checked_os A app l w = Inr w1" "happening (kern w1) = []" "poller (loops w1 l) = Some po"
      "pending (loops w1 l) = []"
    using quiet_turn Suc.prems by meson
  then show ?case using Suc.IH [of w1] by simp
qed simp

section \<open>Properties\<close>

text \<open>C6. Every connection that is closed is destroyed. Once the connection callback has said that a connection
  is down, four rounds of turns, in each of which every loop of the process takes its turn at least once, in
  any order, leave nothing of it: its object has been destroyed, and neither the table of the server nor
  a queued functor holds it. It is so whatever the user does and whatever else the loops have to do
  meanwhile. It starts from any state in which the contract of the callbacks is kept.\<close>

theorem closed_connection_reclaimed:
  assumes "kernel_ok os v opn" and "app_ok app" and "healthy v opn w" and "orderly w"
    and "set ls \<subseteq> {..<fresh_loop w}" and "fold_res (loop_turn os A app) ls w = Inr w1" and "told_down c w1"
    and "set r1 = {..<fresh_loop w}" "set r2 = {..<fresh_loop w}" "set r3 = {..<fresh_loop w}" "set r4 = {..<fresh_loop w}"
    and "fold_res (loop_turn os A app) (r1 @ r2 @ r3 @ r4) w1 = Inr w'"
  shows "conns w' c = None \<and> \<not> referenced c w'"
proof -
  have s: "sane v opn (fresh_loop w) w" using assms(3,4) by (simp add: sane_def)
  have s1: "sane v opn (fresh_loop w) w1" by (rule turns_sane [OF assms(1,2) s assms(5,6)])
  have "retired c w1 \<or> (\<exists>i < fresh_loop w. FRemoveConnection c \<in> set (pending (loops w1 i)))"
    using saneD(4) [OF s1, of 0 c] assms(7) saneD(2) [OF s1] by (auto simp: owed_def queued_def queue_of_def split: if_split_asm)
  then show ?thesis
    using four_rounds [OF assms(1,2) s1 assms(8-12)] told_born [OF s1 assms(7)] by blast
qed

theorem closed_connection_reclaimed_witness:
  "\<exists>w1 w'. fold_res (loop_turn checked_os libstdcxx echo_app) [0] eof_world = Inr w1 \<and> told_down 0 w1
    \<and> fold_res (loop_turn checked_os libstdcxx echo_app) [0, 0, 0, 0] w1 = Inr w' \<and> conns w' 0 = None"
proof -
  obtain w1 where w1: "loop_turn checked_os libstdcxx echo_app 0 eof_world = Inr w1" "told_down 0 w1"
    "happening (kern w1) = []" "poller (loops w1 0) \<noteq> None" "pending (loops w1 0) = []"
    using eof_turn by blast
  obtain w' where w': "fold_res (loop_turn checked_os libstdcxx echo_app) (replicate 4 0) w1 = Inr w'"
    using quiet_turns [OF w1(3-5), of libstdcxx echo_app 4] by blast
  have r: "replicate 4 (0 :: nat) = [0] @ [0] @ [0] @ [0]" by (simp add: eval_nat_numeral)
  have ls: "set [0 :: nat] \<subseteq> {..<fresh_loop eof_world}" "set [0 :: nat] = {..<fresh_loop eof_world}"
    by (simp_all add: eof_fields lessThan_Suc)
  have run: "fold_res (loop_turn checked_os libstdcxx echo_app) [0] eof_world = Inr w1" using w1(1) by simp
  have "conns w' 0 = None \<and> \<not> referenced 0 w'"
    by (rule closed_connection_reclaimed [OF checked_kernel_ok echo_app_ok eof_healthy eof_orderly ls(1) run w1(2)
          ls(2) ls(2) ls(2) ls(2) w' [unfolded r]])
  then show ?thesis using run w1(2) w' by (auto simp: r)
qed

end
