(* ===== verification/Shutdown.thy ===== *)
theory Shutdown
  imports Reactor
begin

text \<open>
  The end of a server: the destructors of \<open>TcpServer\<close>, \<open>EventLoopThreadPool\<close>, \<open>EventLoopThread\<close> and
  \<open>EventLoop\<close> with their members, on the whole process, and the last lines of \<open>threadFunc\<close>, which the
  thread of a pool runs while the destructor waits in \<open>join\<close>.

  Where that thread is when \<open>quit\<close> comes matters, and a world between two turns does not say it:
  \<open>late l\<close> means that the loop \<open>l\<close> has already taken its queue of the current turn, so that the next
  thing it reads is \<open>quit_\<close>; otherwise it is in \<open>epoll_wait\<close> or before it takes the queue, and there is
  one more turn. A destroyed loop stays in the world without poller and queue.
\<close>

section \<open>The end of a loop and of its thread\<close>

text \<open>The destructor of \<open>EventLoop\<close>: its body, then the members, the queue before the poller. The queue may
  hold the last pointers to connections.\<close>

definition EventLoop_end :: "'k os \<Rightarrow> nat \<Rightarrow> 'k world \<Rightarrow> 'k world res" where
  "EventLoop_end os l w =
     bind_res (EventLoop_destroy_body os l (kern w, tls w, loops w l)) (\<lambda>(k, ts, lp).
     let functors = pending lp;
         w = w\<lparr>kern := k, tls := ts, loops := (loops w)(l := lp\<lparr>pending := [], poller := None\<rparr>)\<rparr>;
         w = release_functors os functors w
     in Inr (case poller lp of
               None \<Rightarrow> w
             | Some po \<Rightarrow> w\<lparr>kern := EpollPoller_destroy os (kern w, po)\<rparr>))"

text \<open>\<open>threadFunc\<close> from inside \<open>loop()\<close> to its end. The thread's own pointer \<open>loop_\<close> is set to null and is
  not read again.\<close>

definition threadFunc_epilogue ::
  "'k os \<Rightarrow> alloc \<Rightarrow> 'k world app \<Rightarrow> ('k world \<Rightarrow> 'k world) \<Rightarrow> (nat \<Rightarrow> bool) \<Rightarrow> nat \<Rightarrow> nat \<Rightarrow> 'k world \<Rightarrow>
   'k world option res" where
  "threadFunc_epilogue os A app others late fuel l w =
     bind_res (if late l then Inr w else loop_turn os A app l w) (\<lambda>w.
     bind_res (loop_while os A app others l fuel w) (\<lambda>r.
       case r of
         None \<Rightarrow> Inr None
       | Some w \<Rightarrow>
           bind_res (EventLoop_end os l (upd_loop l (\<lambda>lp. lp\<lparr>looping := False\<rparr>) (w\<lparr>cur_tid := thread_id (loops w l)\<rparr>)))
             (\<lambda>w. Inr (Some w))))"

text \<open>The destructor of \<open>EventLoopThread\<close>; it is \<open>None\<close> when \<open>join\<close> has not returned on this fuel. A thread
  whose loop has ended before is left alone, and its \<open>Thread\<close> detaches it.\<close>

definition EventLoopThread_destroy ::
  "'k os \<Rightarrow> alloc \<Rightarrow> 'k world app \<Rightarrow> ('k world \<Rightarrow> 'k world) \<Rightarrow> (nat \<Rightarrow> bool) \<Rightarrow> nat \<Rightarrow> event_loop_thread \<Rightarrow>
   'k world \<Rightarrow> (event_loop_thread \<times> 'k world) option res" where
  "EventLoopThread_destroy os A app others late fuel t w =
     (let t = t\<lparr>elt_exiting := True\<rparr> in
      case elt_loop t of
        None \<Rightarrow> Inr (Some (t, w))
      | Some l \<Rightarrow>
          let caller = cur_tid w;
              w = on_loop l (loop_quit os (cur_tid w)) w;
              t = t\<lparr>elt_thread := Thread_join (elt_thread t)\<rparr>
          in bind_res (threadFunc_epilogue os A app others late fuel l w) (\<lambda>r.
               Inr (map_option (\<lambda>w. (t\<lparr>elt_loop := None\<rparr>, w\<lparr>cur_tid := caller\<rparr>)) r)))"

section \<open>The end of the server\<close>

text \<open>The pool destroys its threads in order; its own destructor has an empty body.\<close>

fun threads_destroy ::
  "'k os \<Rightarrow> alloc \<Rightarrow> 'k world app \<Rightarrow> ('k world \<Rightarrow> 'k world) \<Rightarrow> (nat \<Rightarrow> bool) \<Rightarrow> nat \<Rightarrow> event_loop_thread list \<Rightarrow>
   'k world \<Rightarrow> 'k world option res" where
  "threads_destroy os A app others late fuel [] w = Inr (Some w)"
| "threads_destroy os A app others late fuel (t # ts) w =
     bind_res (EventLoopThread_destroy os A app others late fuel t w) (\<lambda>r.
       case r of
         None \<Rightarrow> Inr None
       | Some (t, w) \<Rightarrow> threads_destroy os A app others late fuel ts w)"

definition server_acceptor_destroy :: "'k os \<Rightarrow> 'k world \<Rightarrow> 'k world res" where
  "server_acceptor_destroy os = with_server (\<lambda>sv w.
     let l = acc_loop (srv_acceptor sv) in
     bind_res (Acceptor_destroy os (kern w, loops w l, srv_acceptor sv)) (\<lambda>(k, lp).
       Inr (w\<lparr>kern := k, loops := (loops w)(l := lp)\<rparr>)))"

text \<open>The destructor of \<open>TcpServer\<close>: the body, then the members in reverse order, of which the pool and the
  acceptor do something. \<open>items\<close> is the table in the order of iteration.\<close>

definition TcpServer_destroy ::
  "'k os \<Rightarrow> alloc \<Rightarrow> 'k world app \<Rightarrow> ('k world \<Rightarrow> 'k world) \<Rightarrow> (nat \<Rightarrow> bool) \<Rightarrow> nat \<Rightarrow> (string \<times> nat) list \<Rightarrow>
   'k world \<Rightarrow> 'k world option res" where
  "TcpServer_destroy os A app others late fuel items w =
     bind_res (TcpServer_destroy_body os A app items w) (with_server (\<lambda>sv w.
       bind_res (threads_destroy os A app others late fuel (threads (srv_pool sv)) w) (\<lambda>r.
         case r of
           None \<Rightarrow> Inr None
         | Some w \<Rightarrow> bind_res (server_acceptor_destroy os w) (\<lambda>w. Inr (Some (w\<lparr>server := None\<rparr>))))))"

end
