(* ===== verification/ShutdownFacts.thy ===== *)
theory ShutdownFacts
  imports Safety Shutdown
begin

text \<open>
  What the destructors do. The body of \<open>~TcpServer\<close> hands every connection to its loop and keeps the
  process well-formed; a thread of the pool ends after at most one more turn; what its loop has not
  run by then is dropped.
\<close>

section \<open>The body of the destructor\<close>

lemma safe_holds: "safe v opn l B H w \<Longrightarrow> H \<subseteq> H' \<Longrightarrow> safe v opn l B H' w"
  unfolding safe_def stages_ok_def by blast

text \<open>A \<open>connDestory\<close> about to be called is a vector with one functor, and the local pointer a holder.\<close>

lemma vector_destroy:
  assumes s: "safe v opn m [] H w" and cn: "conns w c = Some cn" and aw: "\<not> awaiting m [] w c"
  shows "safe v opn (tc_loop cn) [FConnDestory c] (insert c H) w"
proof -
  let ?l = "tc_loop cn" and ?B = "[FConnDestory c]"
  have s': "safe v opn ?l [] H w" and aw': "\<not> awaiting ?l [] w c"
    using s aw safe_no_vector [of v opn m H w ?l] by (simp_all add: awaiting_def queued_def queue_of_def)
  have q: "queue_of ?l ?B w l' = (if l' = ?l then ?B else []) @ queue_of ?l [] w l'" for l'
    by (simp add: queue_of_def)
  have "stage_ok ?l ?B w d dn" if "conns w d = Some dn" for d dn
    using safe_stage(1) [OF s' that] aw'
    by (auto simp: stage_ok_def kept_def awaiting_def parting_def queued_Cons)
  moreover have "queues_ok ?l ?B w"
    using safeD(5) [OF s'] cn unfolding queues_ok_def q by (auto simp: live_at_def)
  ultimately show ?thesis
    using s' by (auto simp: safe_def stages_ok_def)
qed

lemma ready_vector:
  assumes "d \<noteq> c"
  shows "ready l [FConnDestory c] w d \<longleftrightarrow> ready m [] w d"
proof -
  have "queued l [FConnDestory c] w f \<longleftrightarrow> queued m [] w f \<or> f = FConnDestory c \<and> l < fresh_loop w" for f
    unfolding queued_Cons by (simp add: queued_def queue_of_def)
  then show ?thesis using assms by (simp add: ready_def kept_def awaiting_def)
qed

lemma ready_release:
  assumes "d \<noteq> c"
  shows "ready l B (release os c w) d \<longleftrightarrow> ready l B w d"
  using assms
  by (simp add: ready_def kept_def awaiting_def queued_def queue_of_def release_conns
      fold_release(1-3) [where os = os and cs = "[c]", simplified])

lemma hand_over_sound:
  assumes k: "kernel_ok os v opn" and app: "app_ok app" and s: "safe v opn 0 [] {} w"
    and sv: "server w = Some sv" and i: "(n, c) \<in> set (connections sv)" and aw: "\<not> awaiting 0 [] w c"
  shows "sound (\<lambda>w'. safe v opn 0 [] {} w' \<and> server w' = Some (sv\<lparr>connections := AList.delete n (connections sv)\<rparr>)
      \<and> (\<forall>d. d \<noteq> c \<and> ready 0 [] w d \<longrightarrow> ready 0 [] w' d)) (hand_over os A app (n, c) w)"
proof -
  have ok: "server_ok sv w" using safe_server [OF s] sv by auto
  obtain cn where cn: "conns w c = Some cn" and n: "tc_name cn = n"
    using server_okD(2) [OF ok] i by (auto simp: table_ok_def)
  let ?l = "tc_loop cn" and ?F = "FConnDestory c" and ?sv = "sv\<lparr>connections := AList.delete n (connections sv)\<rparr>"
  let ?w1 = "w\<lparr>server := Some ?sv\<rparr>"
  have l: "?l < fresh_loop w" using safe_conn [OF s cn] by (simp add: conn_ok_def)
  show ?thesis
  proof (cases "isInLoopThread (cur_tid w) (loops w ?l)")
    case True
    have s1: "safe v opn ?l [?F] {c} ?w1" and r1: "readies ?l [?F] w ?w1"
      using table_delete_safe [OF vector_destroy [OF s cn aw] sv cn _ _ refl] l
      by (auto simp: n queued_Cons)
    have own: "own_thread ?w1 c" using True cn by (simp add: own_thread_def)
    have r: "ready ?l [?F] ?w1 c" by (rule destroy_ready [OF s1]) (simp add: l)
    have run: "hand_over os A app (n, c) w = bind_res (connDestory os A app c ?w1) (\<lambda>w. Inr (release os c w))"
      using True by (simp add: hand_over_def cn sv runLoopCallback_def)
    show ?thesis
      unfolding run
    proof (rule sound_bind [OF connDestory_sound [OF k app s1 r own]], simp only: outcome_simps)
      fix w2 assume e: "connDestory os A app c ?w1 = Inr w2"
        and a: "(safe v opn ?l [?F] {c} w2 \<and> readies ?l [?F] ?w1 w2) \<and> hushed c w2"
      have "safe v opn ?l [] {c} w2"
        by (rule drop_functor [of v opn ?l ?F "[]"]) (use a l readiesD(1) [of ?l "[?F]" ?w1 w2] in auto)
      then have "safe v opn ?l [] {} (release os c w2)" using release_safe [OF k, where H = "{c}" and c = c] by simp
      then have "safe v opn 0 [] {} (release os c w2)" using safe_no_vector by blast
      moreover have "server w2 = Some ?sv" using evolves_world(1) [OF connDestory_evolves [OF e]] by simp
      then have "server (release os c w2) = Some ?sv" by (simp add: fold_release(1-3) [where os = os and cs = "[c]", simplified])
      moreover have "ready 0 [] (release os c w2) d" if "d \<noteq> c" "ready 0 [] w d" for d
        using that a r1 readiesD(2) [of ?l "[?F]"] unfolding ready_release [OF that(1)]
        by (metis ready_vector)
      ultimately show "safe v opn 0 [] {} (release os c w2) \<and> server (release os c w2) = Some ?sv
          \<and> (\<forall>d. d \<noteq> c \<and> ready 0 [] w d \<longrightarrow> ready 0 [] (release os c w2) d)" by blast
    qed
  next
    case False
    let ?w2 = "net_push os ?l ?F ?w1"
    have "removeConnectionInLoop os c w = Inr ?w2"
      by (simp add: removeConnectionInLoop_def with_server_def sv cn n)
    then have s2: "safe v opn 0 [] {} ?w2" "readies 0 [] w ?w2"
      using removeConnectionInLoop_sound [OF k s cn aw] by simp_all
    have "hand_over os A app (n, c) w = Inr ?w2"
      using False release_held [OF s2(1)] by (simp add: hand_over_def cn sv runLoopCallback_def)
    moreover have "server ?w2 = Some ?sv" by (simp add: net_push_server)
    ultimately show ?thesis using s2 readiesD(2) by (simp add: readies_def)
  qed
qed

lemma delete_entry:
  assumes "distinct (map fst ((n, c) # rest))" and "set ((n, c) # rest) = set xs" and "distinct (map fst xs)"
  shows "set rest = set (AList.delete n xs)"
proof -
  have "set (AList.delete n xs) = {p \<in> set xs. fst p \<noteq> n}" by (auto simp: AList.delete_eq)
  then show ?thesis using assms(1,2) by (auto simp: image_iff)
qed

definition handing :: "('k \<Rightarrow> interest_view) \<Rightarrow> ('k \<Rightarrow> int set) \<Rightarrow> (string \<times> nat) list \<Rightarrow> 'k world \<Rightarrow> bool" where
  "handing v opn items w \<longleftrightarrow> safe v opn 0 [] {} w \<and> distinct (map fst items)
     \<and> (\<exists>sv. server w = Some sv \<and> set items = set (connections sv))
     \<and> (\<forall>(n, c) \<in> set items. ready 0 [] w c)"

lemma handing_step:
  assumes k: "kernel_ok os v opn" and app: "app_ok app" and h: "handing v opn (i # items) w"
  shows "sound (handing v opn items) (hand_over os A app i w)"
proof -
  obtain n c where i: "i = (n, c)" by fastforce
  obtain sv where s: "safe v opn 0 [] {} w" and sv: "server w = Some sv" "set (i # items) = set (connections sv)"
    and d: "distinct (map fst (i # items))" and r: "\<forall>(n, c) \<in> set (i # items). ready 0 [] w c"
    using h unfolding handing_def by blast
  have tab: "table_ok sv (conns w)" using safe_server [OF s] sv(1) server_okD(2) by auto
  have "(n, c) \<in> set (connections sv)" using sv(2) i by auto
  moreover have "\<not> awaiting 0 [] w c" using r i by (simp add: ready_def)
  ultimately have step: "sound (\<lambda>w'. safe v opn 0 [] {} w' \<and> server w' = Some (sv\<lparr>connections := AList.delete n (connections sv)\<rparr>)
      \<and> (\<forall>d. d \<noteq> c \<and> ready 0 [] w d \<longrightarrow> ready 0 [] w' d)) (hand_over os A app i w)"
    unfolding i by (rule hand_over_sound [OF k app s sv(1)])
  have rest: "set items = set (AList.delete n (connections sv))"
    by (rule delete_entry [of n c]) (use d sv(2) tab i in \<open>simp_all add: table_ok_def\<close>)
  have other: "e \<noteq> c" if "(m, e) \<in> set items" for m e
  proof
    assume "e = c"
    then have "(m, c) \<in> set (connections sv)" "(n, c) \<in> set (connections sv)" using that sv(2) i by auto
    then have "\<exists>cn. conns w c = Some cn \<and> tc_name cn = m" "\<exists>cn. conns w c = Some cn \<and> tc_name cn = n"
      using tab unfolding table_ok_def by blast+
    then have "m = n" by auto
    then show False using that d i by force
  qed
  show ?thesis
  proof (rule sound_mono [OF step])
    fix w' assume a: "safe v opn 0 [] {} w' \<and> server w' = Some (sv\<lparr>connections := AList.delete n (connections sv)\<rparr>)
      \<and> (\<forall>d. d \<noteq> c \<and> ready 0 [] w d \<longrightarrow> ready 0 [] w' d)"
    moreover have "ready 0 [] w' e" if "(m, e) \<in> set items" for m e
      using a other [OF that] r that by auto
    ultimately show "handing v opn items w'" using rest d by (auto simp: handing_def)
  qed
qed

lemma destroy_body_sound:
  assumes k: "kernel_ok os v opn" and app: "app_ok app" and h: "handing v opn items w"
  shows "sound (\<lambda>w'. healthy v opn w' \<and> (\<exists>sv. server w' = Some sv \<and> connections sv = []))
    (TcpServer_destroy_body os A app items w)"
proof -
  have "sound (handing v opn []) (fold_res (hand_over os A app) items w)"
    by (rule sound_fold [where I = "handing v opn"]) (use h handing_step [OF k app] in auto)
  then show ?thesis
    unfolding TcpServer_destroy_body_def by (rule sound_mono) (simp add: handing_def healthy_def)
qed

section \<open>The end of a thread\<close>

lemma loop_turn_keeps_quit:
  assumes "loop_turn os A app l w = Inr w'" and "quit_flag (loops w l)"
  shows "quit_flag (loops w' l)"
proof -
  obtain w1 w2 where t: "poll_phase os l (w\<lparr>cur_tid := thread_id (loops w l)\<rparr>) = Inr w1"
      "handle_phase os A app l w1 = Inr w2" "run_pending os A app l w2 = Inr w'"
    using assms(1) by (auto simp: loop_turn_def res_iff)
  have "quit_flag (loops w2 l)"
    using poll_phase_grows [OF t(1)] handle_phase_grows [OF t(2)] assms(2) by (simp add: loops_grow_def loop_grows_def)
  moreover obtain w3 w4 where r: "loops w3 l = (loops w2 l)\<lparr>calling_pending := True, pending := []\<rparr>"
      "fold_res (run_functor os A app) (pending (loops w2 l)) w3 = Inr w4"
      "w' = release_functors os (pending (loops w2 l)) (upd_loop l (\<lambda>lp. lp\<lparr>calling_pending := False\<rparr>) w4)"
    using run_pending_unfold [OF t(3)] by blast
  moreover have "loops_grow w3 w4" by (rule fold_res_grows [OF r(2)]) (rule run_functor_grows)
  ultimately show ?thesis
    by (simp add: release_functors_def fold_release upd_loop_def loops_grow_def loop_grows_def)
qed

lemma EventLoop_destroy_body_loop:
  assumes "EventLoop_destroy_body os l (k, ts, lp) = Inr (k', ts', lp')"
  shows "pending lp' = pending lp \<and> ts' = ts"
  using assms
  by (auto simp: EventLoop_destroy_body_def disableAllEvent_def loop_updateChannel_def loop_removeChannel_def res_iff
      split: option.splits)

lemma EventLoop_end_result:
  assumes "EventLoop_end os l w = Inr w'"
  shows "trace w' = trace w" "server w' = server w" "pending (loops w' l) = []" "poller (loops w' l) = None"
    "l' \<noteq> l \<Longrightarrow> loops w' l' = loops w l'" "fresh_loop w' = fresh_loop w"
    "conns w' c = (if (\<exists>f \<in> set (pending (loops w l)). functor_holds f = Some c) \<and> \<not> referenced c w'
       then None else conns w c)"
proof -
  obtain k ts lp where d: "EventLoop_destroy_body os l (kern w, tls w, loops w l) = Inr (k, ts, lp)"
    using assms by (auto simp: EventLoop_end_def res_iff)
  let ?fs = "pending (loops w l)"
  let ?w1 = "w\<lparr>kern := k, tls := ts, loops := (loops w)(l := lp\<lparr>pending := [], poller := None\<rparr>)\<rparr>"
  have p: "pending lp = ?fs" using EventLoop_destroy_body_loop [OF d] by simp
  obtain k' where w': "w' = (release_functors os ?fs ?w1)\<lparr>kern := k'\<rparr>"
  proof (cases "poller lp")
    case None
    have "w' = (release_functors os ?fs ?w1)\<lparr>kern := kern (release_functors os ?fs ?w1)\<rparr>"
      using assms None by (simp add: EventLoop_end_def d p Let_def)
    then show ?thesis by (rule that)
  next
    case (Some po)
    then show ?thesis using assms that by (auto simp: EventLoop_end_def d p Let_def)
  qed
  have held: "c \<in> set (List.map_filter functor_holds fs) \<longleftrightarrow> (\<exists>f \<in> set fs. functor_holds f = Some c)" for c fs
    by (force simp: List.map_filter_def image_iff)
  have ref: "referenced c w' \<longleftrightarrow> referenced c ?w1"
    using fold_release(5) [where os = os and w = ?w1] by (simp add: w' referenced_def release_functors_def fold_release)
  show "trace w' = trace w" "server w' = server w" "pending (loops w' l) = []" "poller (loops w' l) = None"
    "l' \<noteq> l \<Longrightarrow> loops w' l' = loops w l'" "fresh_loop w' = fresh_loop w"
    by (simp_all add: w' release_functors_def fold_release)
  show "conns w' c = (if (\<exists>f \<in> set ?fs. functor_holds f = Some c) \<and> \<not> referenced c w' then None else conns w c)"
    unfolding ref by (simp add: w' release_functors_def fold_release(6) held)
qed

text \<open>Connections held by something else than the queue of the loop \<open>l\<close>.\<close>

definition held_elsewhere :: "nat \<Rightarrow> nat \<Rightarrow> 'k world \<Rightarrow> bool" where
  "held_elsewhere l c w \<longleftrightarrow> in_table c (server w)
     \<or> list_ex (\<lambda>l'. l' \<noteq> l \<and> list_ex (\<lambda>f. functor_holds f = Some c) (pending (loops w l'))) [0 ..< fresh_loop w]"

lemma thread_destroy_result:
  assumes "EventLoopThread_destroy os A app others late fuel t w = Inr r" and "elt_loop t = Some l" and "0 < fuel"
  shows "\<exists>t' w' w1. r = Some (t', w') \<and> elt_loop t' = None \<and> \<not> Thread_destroy (elt_thread t')
    \<and> (if late l then w1 = on_loop l (loop_quit os (cur_tid w)) w
       else loop_turn os A app l (on_loop l (loop_quit os (cur_tid w)) w) = Inr w1)
    \<and> pending (loops w' l) = [] \<and> trace w' = trace w1 \<and> cur_tid w' = cur_tid w
    \<and> (\<forall>c. conns w' c = (if (\<exists>f \<in> set (pending (loops w1 l)). functor_holds f = Some c) \<and> \<not> held_elsewhere l c w1
         then None else conns w1 c))"
proof -
  let ?w0 = "on_loop l (loop_quit os (cur_tid w)) w"
  have q0: "quit_flag (loops ?w0 l)" 
    using loop_quit_loop [of os "cur_tid w" "kern w" "loops w l"] by (auto simp: on_loop_def split: prod.splits)
  obtain r' where e: "threadFunc_epilogue os A app others late fuel l ?w0 = Inr r'"
    and r: "r = map_option (\<lambda>w'. (t\<lparr>elt_exiting := True, elt_thread := Thread_join (elt_thread t), elt_loop := None\<rparr>,
        w'\<lparr>cur_tid := cur_tid w\<rparr>)) r'"
    using assms(1,2) by (auto simp: EventLoopThread_destroy_def Let_def res_iff)
  obtain w1 where w1: "(if late l then Inr ?w0 else loop_turn os A app l ?w0) = Inr w1"
    using e by (auto simp: threadFunc_epilogue_def res_iff)
  have "quit_flag (loops w1 l)" using w1 q0 loop_turn_keeps_quit by (auto split: if_split_asm)
  then have stop: "loop_while os A app others l fuel w1 = Inr (Some w1)"
    using assms(3) by (cases fuel) simp_all
  define w2 where "w2 = upd_loop l (\<lambda>lp. lp\<lparr>looping := False\<rparr>) (w1\<lparr>cur_tid := thread_id (loops w1 l)\<rparr>)"
  have "bind_res (EventLoop_end os l w2) (\<lambda>w. Inr (Some w)) = Inr r'"
    using e unfolding threadFunc_epilogue_def w1 by (simp add: stop w2_def)
  then obtain w3 where end_: "EventLoop_end os l w2 = Inr w3" and r': "r' = Some w3" by (auto simp: res_iff)
  note E = EventLoop_end_result [OF end_]
  have w2: "pending (loops w2 i) = pending (loops w1 i)" "server w2 = server w1" "fresh_loop w2 = fresh_loop w1"
      "conns w2 = conns w1" "trace w2 = trace w1" for i
    by (simp_all add: w2_def upd_loop_def)
  have "pending (loops w3 i) = (if i = l then [] else pending (loops w1 i))" for i using E(3,5) w2(1) by simp
  then have ref: "referenced c w3 \<longleftrightarrow> held_elsewhere l c w1" for c
    unfolding referenced_def held_elsewhere_def E(2,6) w2 list_ex_iff by auto
  show ?thesis
    using w1 E(1,3) E(7) [unfolded ref w2]
    by (intro exI [of _ "t\<lparr>elt_exiting := True, elt_thread := Thread_join (elt_thread t), elt_loop := None\<rparr>"]
        exI [of _ "w3\<lparr>cur_tid := cur_tid w\<rparr>"] exI [of _ w1])
      (auto simp: r r' w2 Thread_destroy_def Thread_join_def split: if_split_asm)
qed

lemma threads_destroy_returns:
  assumes "threads_destroy os A app others late fuel ts w = Inr r" and "0 < fuel"
  shows "r \<noteq> None"
  using assms(1)
proof (induction ts arbitrary: w)
  case (Cons t ts)
  then obtain r1 where r1: "EventLoopThread_destroy os A app others late fuel t w = Inr r1"
    by (auto simp: res_iff)
  have "\<exists>t' w'. r1 = Some (t', w')"
  proof (cases "elt_loop t")
    case None
    then show ?thesis using r1 by (auto simp: EventLoopThread_destroy_def Let_def)
  next
    case (Some l)
    then show ?thesis using thread_destroy_result [OF r1 Some assms(2)] by blast
  qed
  then show ?case using Cons r1 by (auto simp: res_iff)
qed auto

text \<open>So the destructor of the server returns, and the server is gone.\<close>

lemma TcpServer_destroy_returns:
  assumes "TcpServer_destroy os A app others late fuel items w = Inr r" and "0 < fuel"
  shows "\<exists>w'. r = Some w' \<and> server w' = None"
  using assms threads_destroy_returns [of os A app others late fuel]
  by (fastforce simp: TcpServer_destroy_def with_server_def res_iff split: option.splits)

section \<open>Properties\<close>

text \<open>C19. The destructor of the server hands over every connection. From a well-formed process in which
  all connections of the table are established, its body makes no memory error, in whatever order the
  table is walked and in whatever thread; afterwards the table is empty, the process is well-formed, and
  every connection left has its \<open>connDestory\<close> queued on its own loop, unless it is closed and its poller
  has forgotten it.\<close>

theorem destructor_hands_over:
  assumes "kernel_ok os v opn" and "app_ok app" and "healthy v opn w" and "server w = Some sv"
    and "distinct items" and "set items = set (connections sv)"
    and "\<forall>(n, c) \<in> set items. \<forall>l < fresh_loop w. FConnEstablish c \<notin> set (pending (loops w l))"
  shows "case TcpServer_destroy_body os A app items w of
      Inl e \<Rightarrow> \<not> memory_error e
    | Inr w' \<Rightarrow> healthy v opn w' \<and> (\<exists>sv'. server w' = Some sv' \<and> connections sv' = [])
        \<and> (\<forall>c cn. conns w' c = Some cn \<longrightarrow>
             tc_loop cn < fresh_loop w' \<and> FConnDestory c \<in> set (pending (loops w' (tc_loop cn))) \<or> quiet cn)"
proof -
  have s: "safe v opn 0 [] {} w" using assms(3) by (simp add: healthy_def)
  have tab: "table_ok sv (conns w)" using safe_server [OF s] assms(4) server_okD(2) by auto
  have "inj_on fst (set items)" using tab assms(6) by (simp add: table_ok_def distinct_map)
  then have "distinct (map fst items)" using assms(5) by (simp add: distinct_map)
  moreover have "ready 0 [] w c" if "(n, c) \<in> set items" for n c
  proof -
    have "in_table c (server w)" using that assms(4,6) by (force simp: in_table_def list_ex_iff)
    moreover have "conns w c \<noteq> None" using that tab assms(6) by (auto simp: table_ok_def)
    ultimately show ?thesis
      using assms(7) that by (auto simp: ready_def kept_def awaiting_def queued_def queue_of_def)
  qed
  ultimately have "handing v opn items w" using s assms(4,6) by (auto simp: handing_def)
  note D = destroy_body_sound [OF assms(1,2) this, of A]
  have "tc_loop cn < fresh_loop w' \<and> FConnDestory c \<in> set (pending (loops w' (tc_loop cn)))"
    if h: "healthy v opn w'" and e: "server w' = Some sv'" "connections sv' = []" and cn: "conns w' c = Some cn"
      and q: "\<not> quiet cn" for w' sv' c cn
  proof -
    have s': "safe v opn 0 [] {} w'" using h by (simp add: healthy_def)
    then have "queued 0 [] w' (FConnDestory c)"
      using safe_stage(1) [OF s' cn] q e by (auto simp: stage_ok_def kept_def in_table_def)
    then obtain l where l: "l < fresh_loop w'" "FConnDestory c \<in> set (pending (loops w' l))"
      by (auto simp: queued_def queue_of_def)
    then have "live_at w' l c" using safeD(5) [OF s'] by (force simp: queues_ok_def queue_of_def)
    then show ?thesis using l cn by (auto simp: live_at_def)
  qed
  then show ?thesis using D by (cases "TcpServer_destroy_body os A app items w") auto
qed

theorem destructor_hands_over_witness:
  "case TcpServer_destroy_body checked_os libstdcxx echo_app [(''Echo-127.0.0.1:8002#1'', 0)] demo_world of
      Inl e \<Rightarrow> \<not> memory_error e
    | Inr w' \<Rightarrow> healthy interest checked_open w' \<and> (\<exists>sv'. server w' = Some sv' \<and> connections sv' = [])
        \<and> (\<forall>c cn. conns w' c = Some cn \<longrightarrow>
             tc_loop cn < fresh_loop w' \<and> FConnDestory c \<in> set (pending (loops w' (tc_loop cn))) \<or> quiet cn)"
proof (rule destructor_hands_over [OF checked_kernel_ok echo_app_ok demo_healthy])
  show "server demo_world = Some demo_server" by (simp add: demo_world_def)
  show "set [(''Echo-127.0.0.1:8002#1'', 0)] = set (connections demo_server)" by (simp add: demo_server_def)
  show "\<forall>(n, c) \<in> set [(''Echo-127.0.0.1:8002#1'', 0)]. \<forall>l < fresh_loop demo_world.
      FConnEstablish c \<notin> set (pending (loops demo_world l))" by (simp add: demo_world_def demo_loop_def)
qed simp


text \<open>A thread that runs its loop; it has been asked to end a connection, and reads \<open>quit_\<close> next.\<close>

definition demo_thread :: event_loop_thread where
  "demo_thread = \<lparr>elt_loop = Some 0, elt_exiting = False,
     elt_thread = \<lparr>thr_started = True, thr_joined = False, thr_tid = 1, thr_name = ''Echo0''\<rparr>, elt_init_callback = None\<rparr>"

definition late_world :: "toy world" where
  "late_world = demo_world\<lparr>cur_tid := 9, loops := \<lambda>_. demo_loop\<lparr>pending := [FConnDestory 0]\<rparr>,
     server := Some (demo_server\<lparr>connections := []\<rparr>)\<rparr>"


end
