(* ===== verification/Spec2Isabelle.thy ===== *)
theory Spec2Isabelle
  imports Prelude Format Buffer InetAddress Os Channel EpollPoller EventLoop Socket TcpConnection
    ConnectionFacts ThreadPool Acceptor EventLoopThread Steps Evolution TcpServer Reactor ReactorFacts
    ServerFacts TurnFacts EchoServer LoopProtocol Handshake Logger
    Sound SafeWorld SafeOps SafeConn SafeServer SafeTurn SafeStart Safety Lifecycle LifeTurn Reclaim Farewell
    Contract Callbacks Attention Rounds Shutdown ShutdownFacts
begin

text \<open>
  Verification of hummingbird, a reactor-style TCP server library in C++ (\<open>src/*.h\<close>, \<open>src/*.cc\<close>), and
  of its example program (\<open>example/test_server.cc\<close>).

  The program. A \<open>TcpServer\<close> runs on a base \<open>EventLoop\<close> and owns an \<open>Acceptor\<close> and an
  \<open>EventLoopThreadPool\<close>. Each loop belongs to one thread; it owns a \<open>Poller\<close> over one epoll instance
  and an eventfd with which other threads wake it, and a queue of functors other threads append to. A
  \<open>Channel\<close> ties a descriptor to callbacks: the acceptor's channel creates \<open>TcpConnection\<close>s and hands
  each to a loop of the pool in round robin; a connection's channel reads into and writes out of its
  two \<open>Buffer\<close>s and calls user code.

  Theories, in the order they build on each other.
  \<^item> \<open>Prelude\<close>: results of fallible code (\<open>cpp_error + 'a\<close>; undefined behaviour, exceptions and
    \<open>LOG_FATAL\<close> are errors) and what they may end in (\<open>outcome\<close>), \<open>size_t\<close> arithmetic with its wrap-around, raw storage, and the interface
    \<open>bounded_fifo\<close> of a queue with a capacity.
  \<^item> \<open>Format\<close>, \<open>InetAddress\<close>, \<open>Logger\<close>: the \<open>printf\<close> conversions, \<open>inet_address.*\<close>, \<open>logger.*\<close> and
    \<open>timestamp.*\<close>.
  \<^item> \<open>Buffer\<close>: \<open>buffer.*\<close>. The vector is its storage with \<open>size()\<close> and \<open>capacity()\<close> kept apart.
  \<^item> \<open>Os\<close>: the system calls as a parameter, with the documented laws the code relies on.
  \<^item> \<open>Channel\<close>, \<open>EpollPoller\<close>, \<open>EventLoop\<close>: \<open>channel.*\<close>, \<open>poller.*\<close>, \<open>default_poller.h\<close>,
    \<open>epoll_poller.*\<close> and the operations of \<open>eventloop.*\<close> on one loop. \<open>EpollPoller\<close> holds the interface
    \<open>channel_registry\<close>, \<open>EventLoop\<close> the interface \<open>functor_host\<close>.
  \<^item> \<open>Socket\<close>, \<open>Acceptor\<close>, \<open>ThreadPool\<close>, \<open>EventLoopThread\<close>: \<open>socket_wrapper.*\<close>, \<open>acceptor.*\<close>,
    \<open>eventloop_threadpool.*\<close>, \<open>thread.*\<close>, \<open>current_thread.*\<close>, \<open>eventloop_thread.*\<close>.
  \<^item> \<open>TcpConnection\<close>: \<open>tcp_connection.*\<close>; \<open>ConnectionFacts\<close> has its lemmas.
  \<^item> \<open>Steps\<close>: the interfaces \<open>cx_steps\<close> and \<open>net_steps\<close>, what makes a relation between two states hold
    across every operation of a connection and every call of user code; \<open>Evolution\<close>: the first such
    relation, what no operation on loops and connections ever does.
  \<^item> \<open>TcpServer\<close>: \<open>tcp_server.*\<close> and the ownership of connections by \<open>shared_ptr\<close> (\<open>callbacks.h\<close>).
  \<^item> \<open>Reactor\<close>: the running program, \<open>EventLoop::loop\<close> over a world of loops, connections and the
    server; \<open>ReactorFacts\<close>, \<open>ServerFacts\<close> and \<open>TurnFacts\<close> have its lemmas.
  \<^item> \<open>Shutdown\<close>: the destructors of the server, the pool, its threads and their loops, with the end of
    \<open>threadFunc\<close>; \<open>ShutdownFacts\<close> has its lemmas.
  \<^item> \<open>EchoServer\<close>: the example program.
  \<^item> \<open>LoopProtocol\<close>, \<open>Handshake\<close>: the code that several threads run at once, as step relations at the
    grain of single accesses to shared data: the functor queue with its wakeups, and the start and
    the end of a loop thread.
  \<^item> \<open>Sound\<close>, \<open>SafeWorld\<close>, \<open>SafeOps\<close>, \<open>SafeConn\<close>, \<open>SafeServer\<close>, \<open>SafeTurn\<close>, \<open>SafeStart\<close>, \<open>Safety\<close>: the
    memory safety of the whole process. They define no part of the program: \<open>Sound\<close> has the results
    without memory errors and the invariant of one connection, \<open>SafeWorld\<close> the invariant \<open>safe\<close> of a
    process, the next ones show that operations, connections, the server, a turn of a loop and the
    start of the process keep it, \<open>Safety\<close> has the properties.
  \<^item> \<open>Lifecycle\<close>, \<open>LifeTurn\<close>: what the user of a connection is told of it. \<open>Lifecycle\<close> has the
    specification, the automaton \<open>life_step\<close> over callbacks, and the invariant \<open>lived\<close> that ties its
    phase to the state of the connection, the table and the queues; \<open>LifeTurn\<close> shows that handlers,
    functors and turns keep it.
  \<^item> \<open>Reclaim\<close>, \<open>Farewell\<close>: that a closed connection is destroyed. \<open>Reclaim\<close> has the stages of the end,
    \<open>retired\<close> (out of the table) and \<open>dead\<close> (its \<open>connDestory\<close> has run), which no step undoes, and the
    turns that reach them; \<open>Farewell\<close> the invariant \<open>owed\<close>, that a connection told down is retired or
    about to be.
  \<^item> \<open>Contract\<close>, \<open>Rounds\<close>: the properties of both, over any turns, and over rounds in which every loop takes
    a turn; \<open>Contract\<close> also carries what turns keep through the whole example program.
  \<^item> \<open>Attention\<close>: that a connection that is up is never unregistered or deaf, by another relation of
    \<open>Steps\<close>, and the contract of the example program.
  \<^item> \<open>Callbacks\<close>: calls of \<open>std::function\<close>s that were never set, and the ways in which the example program
    can fail.

  What the lemmas show. \<open>Safety\<close>: no operation follows a dangling or null pointer or leaves a buffer,
  in any order of turns and from the first line of the example's \<open>main\<close>; every connection is owned.
  \<open>Contract\<close>: the callbacks of a connection refine its contract: up first and once, nothing before it,
  nothing up after down, no connection is taken from the table or destroyed before it was told down, and
  one that was is on its way out. \<open>Attention\<close>: while it is up, its channel asks for input and the epoll
  instance of its own loop waits for exactly what the channel asks for. \<open>Rounds\<close>: a connection told down is destroyed within four rounds of turns (one that runs its
  \<open>removeConnectionInLoop\<close>, one its \<open>connDestory\<close>, one what was queued for it before, one a \<open>connDestory\<close>
  queued a second time). \<open>Callbacks\<close>: a process whose server and connections have their functions never
  calls an empty one, on any system; the example program ends, if not by leaving its loop, then because
  a length or a number is exhausted or the system refuses a call. \<open>Buffer\<close>: it refines a queue of bytes within its capacity, every operation's
  outcome on every branch, and exactly which bytes are lost where \<open>size()\<close> and \<open>capacity()\<close> differ.
  \<open>Channel\<close> and \<open>EpollPoller\<close>: which callbacks an event runs; channel, poller and kernel agree under
  all operations. \<open>ConnectionFacts\<close>: the byte stream of a connection is neither lost nor reordered,
  when the write interest is on, which callbacks are queued, and two defects of \<open>send\<close>. \<open>ServerFacts\<close>:
  the table of connections over any history. \<open>TurnFacts\<close>: a turn runs each functor once and in order,
  when a connection is destroyed, when \<open>loop\<close> returns. \<open>ShutdownFacts\<close>: the destructor of the server
  hands over every connection, and joins every thread after at most one more turn. \<open>LoopProtocol\<close> and \<open>Handshake\<close>: no wakeup and no
  notification is lost, and everything can be brought to its end, by invariants over all reachable
  states and by decreasing ranks.

  How the state is laid out. Loops, connections, callbacks, handlers and strings are named by numbers;
  a pointer to an object is its number and a world maps numbers to objects, so that aliasing through
  the poller, the kernel and queued functors is explicit. Operations that call no user code work on
  one connection with its loop (\<open>cctx\<close>); the others on a \<open>net\<close> of all loops and connections; the
  server extends \<open>net\<close> to \<open>world\<close>, a process with at most one server.

  Parameters. \<open>os\<close>: the system calls over an abstract kernel state; the theorems assume of it only
  what the manual pages promise (\<open>epoll_ok\<close>: successful \<open>epoll_ctl\<close> updates the interest list as asked;
  \<open>write_ok\<close>: a write takes a prefix of the data; \<open>wait_ok\<close>: \<open>epoll_wait\<close> fills at most the array);
  \<open>toy_os\<close> is a system that satisfies them and in which the witnesses run. For memory safety the laws
  are \<open>kernel_ok\<close>: \<open>epoll_wait\<close> reports what is registered, a new descriptor is not open yet, \<open>close\<close>
  removes the descriptor from every interest list, no other call touches either; \<open>checked_os\<close>
  satisfies it. User code is then asked (\<open>app_ok\<close>) to use in a callback the connection it is called
  for, to take all of the input or none, and to send strings that exist; the environment
  (\<open>plain_env\<close>) not to select a poller that does not exist. \<open>A\<close>: the growth policy of
  \<open>std::vector\<close>. \<open>app\<close>: user code, which calls into the library. \<open>others\<close>: what other threads do between
  two turns of a loop. \<open>inet_addr\<close>, \<open>localtime\<close> and the clock.

  Fuel. \<open>Reactor.loop_while\<close> runs the \<open>while\<close> of \<open>loop\<close> on a number of turns and is \<open>None\<close> when it has
  not ended by then; more fuel gives the same result, and a turn in which \<open>quit\<close> is called is the
  last one. The destructors of \<open>Shutdown\<close> pass fuel to it, of which one unit is enough. No other
  definition needs fuel.

  Not modelled. The output of the logger inside other components (a \<open>LOG_FATAL\<close> is an error value);
  \<open>kqueue_poller.h\<close>, \<open>poll_poller.h\<close> and \<open>select_poller.h\<close>, which are empty; \<open>noncpoyable.h\<close>; the build
  files. User code is assumed to keep no \<open>shared_ptr\<close> to a connection beyond a callback. \<open>Reactor\<close> and
  \<open>Shutdown\<close> interleave threads between turns only; the finer interleaving is in \<open>LoopProtocol\<close> and
  \<open>Handshake\<close>, to which the operations of \<open>EventLoop\<close> are related by a refinement lemma. The memory
  safety of \<open>Safety\<close> is about processes whose loops exist: a loop that user code makes quit while its
  connections live on, and the time after the destructor of the server has begun to end threads, are
  outside the invariant.
\<close>

end
